(* ===== verification/Lattice_Prelude.thy ===== *)
theory Lattice_Prelude
  imports Main "HOL-Library.Word"
begin

text \<open>
  Prelude of the development: the machine types the Go sources use, decimal numerals as
  \<^verbatim>\<open>strconv\<close> reads and writes them, and the generic lemmas on lists and numerals that the
  component theories share.

  A Go \<^verbatim>\<open>string\<close> and a \<^verbatim>\<open>[]byte\<close> that holds text are both a \<^typ>\<open>string\<close>: an Isabelle
  character is exactly one byte. Binary datagrams are lists of \<open>8 word\<close>. A Go \<^verbatim>\<open>int\<close> or
  \<^verbatim>\<open>int64\<close> is an \<^typ>\<open>int\<close> with the two's-complement wrap-around written out (\<open>wrap64\<close>)
  where the source computes on values it does not control.
\<close>

type_synonym byte = "8 word"
type_synonym bytes = "8 word list"

named_theorems byte_simps \<open>facts that evaluate comparisons of concrete bytes\<close>

section \<open>Machine integers\<close>

definition wrap64 :: "int \<Rightarrow> int" where
  "wrap64 x = (x + 2 ^ 63) mod 2 ^ 64 - 2 ^ 63"

definition in_i64 :: "int \<Rightarrow> bool" where
  "in_i64 x \<longleftrightarrow> - (2 ^ 63) \<le> x \<and> x < 2 ^ 63"

lemma wrap64_in_i64 [simp]: "in_i64 (wrap64 x)"
  by (simp add: wrap64_def in_i64_def)

lemma wrap64_id [simp]: "in_i64 x \<Longrightarrow> wrap64 x = x"
  by (simp add: wrap64_def in_i64_def)

lemma unat_byte_less [simp]: "unat (a :: 8 word) < 256"
  using unsigned_less [of a] by simp

lemma unat_byte_le [simp]: "unat (a :: 8 word) \<le> 255"
  using unat_byte_less [of a] by linarith

lemma unat_u16_less [simp]: "unat (a :: 16 word) < 65536"
  using unsigned_less [of a] by simp

lemma unat_u16_le [simp]: "unat (a :: 16 word) \<le> 65535"
  using unat_u16_less [of a] by linarith

lemma unat_u32_less [simp]: "unat (a :: 32 word) < 2 ^ 32"
  using unsigned_less [of a] by simp

section \<open>Characters as bytes\<close>

definition ord :: "char \<Rightarrow> nat" where
  "ord c = of_char c"

lemma ord_less_256 [simp]: "ord c < 256"
  unfolding ord_def by (metis of_char_of of_char_mod_256 mod_less_divisor zero_less_numeral char_of_char)

lemma ord_inj [simp]: "ord c = ord d \<longleftrightarrow> c = d"
  by (simp add: ord_def)

lemma ord_char_of [simp]: "n < 256 \<Longrightarrow> ord (char_of n) = n"
  by (simp add: ord_def)

lemma char_of_ord [simp]: "char_of (ord c) = c"
  by (simp add: ord_def)

definition is_digit :: "char \<Rightarrow> bool" where
  "is_digit c \<longleftrightarrow> 48 \<le> ord c \<and> ord c \<le> 57"

definition digit_val :: "char \<Rightarrow> nat" where
  "digit_val c = ord c - 48"

definition digit_char :: "nat \<Rightarrow> char" where
  "digit_char n = char_of (48 + n)"

lemma digit_char_digit [simp]: "n < 10 \<Longrightarrow> is_digit (digit_char n)"
  by (simp add: is_digit_def digit_char_def)

lemma digit_val_char [simp]: "n < 10 \<Longrightarrow> digit_val (digit_char n) = n"
  by (simp add: digit_val_def digit_char_def)

lemma digit_val_less [simp]: "is_digit c \<Longrightarrow> digit_val c < 10"
  unfolding is_digit_def digit_val_def by linarith

lemma digit_char_val [simp]: "is_digit c \<Longrightarrow> digit_char (digit_val c) = c"
  by (simp add: is_digit_def digit_val_def digit_char_def)

lemma digit_char_0 [simp]: "digit_char 0 = CHR ''0''"
  by (subst ord_inj [symmetric]) (simp add: digit_char_def, simp add: ord_def)

lemma digit_val_0 [simp]: "digit_val CHR ''0'' = 0"
  by (metis digit_char_0 digit_val_char zero_less_numeral)

lemma digit_char_inj: "m < 10 \<Longrightarrow> n < 10 \<Longrightarrow> digit_char m = digit_char n \<longleftrightarrow> m = n"
  by (metis digit_val_char)

section \<open>Decimal numerals\<close>

text \<open>
  \<open>dec\<close> is what \<^verbatim>\<open>strconv.Itoa\<close> and its relatives write for a natural number: no sign,
  no leading zero. \<open>undec\<close> is the accumulator loop that reads a run of digits back.
\<close>

fun dec :: "nat \<Rightarrow> string" where
  "dec n = (if n < 10 then [digit_char n] else dec (n div 10) @ [digit_char (n mod 10)])"

declare dec.simps [simp del]

definition undec :: "string \<Rightarrow> nat" where
  "undec = foldl (\<lambda>a c. a * 10 + digit_val c) 0"

lemma undec_Nil [simp]: "undec [] = 0"
  by (simp add: undec_def)

lemma undec_snoc [simp]: "undec (s @ [c]) = undec s * 10 + digit_val c"
  by (simp add: undec_def)

lemma dec_nonempty [simp]: "dec n \<noteq> []"
  by (subst dec.simps) simp

lemma undec_dec [simp]: "undec (dec n) = n"
proof (induction n rule: dec.induct)
  case (1 n)
  show ?case
  proof (cases "n < 10")
    case True
    then show ?thesis by (simp add: dec.simps [of n] undec_def)
  next
    case False
    with 1 show ?thesis by (simp add: dec.simps [of n])
  qed
qed

lemma dec_digits: "c \<in> set (dec n) \<Longrightarrow> is_digit c"
proof (induction n rule: dec.induct)
  case (1 n)
  then show ?case by (cases "n < 10") (auto simp: dec.simps [of n])
qed

lemma dec_inj [simp]: "dec m = dec n \<longleftrightarrow> m = n"
  by (metis undec_dec)

definition canonical_dec :: "string \<Rightarrow> bool" where
  "canonical_dec s \<longleftrightarrow> s \<noteq> [] \<and> list_all is_digit s \<and> (hd s = CHR ''0'' \<longrightarrow> s = ''0'')"

lemma hd_dec: "hd (dec n) = CHR ''0'' \<Longrightarrow> n = 0"
proof (induction n rule: dec.induct)
  case (1 n)
  show ?case
  proof (cases "n < 10")
    case True
    with "1.prems" have "digit_char n = digit_char 0"
      by (simp add: dec.simps [of n])
    with True show ?thesis by (simp only: digit_char_inj zero_less_numeral)
  next
    case False
    with "1.prems" have "n div 10 = 0" by (intro "1.IH") (simp_all add: dec.simps [of n])
    with False show ?thesis by simp
  qed
qed

lemma dec_0 [simp]: "dec 0 = ''0''"
  by (simp add: dec.simps)

lemma canonical_dec_dec [simp]: "canonical_dec (dec n)"
  by (auto simp: canonical_dec_def list_all_iff dec_digits dest: hd_dec)

lemma dec_append_digit: "0 < m \<Longrightarrow> d < 10 \<Longrightarrow> dec (m * 10 + d) = dec m @ [digit_char d]"
  by (subst dec.simps) simp

lemma undec_pos: "s \<noteq> [] \<Longrightarrow> list_all is_digit s \<Longrightarrow> hd s \<noteq> CHR ''0'' \<Longrightarrow> 0 < undec s"
proof (induction s rule: rev_induct)
  case Nil
  then show ?case by simp
next
  case (snoc c s)
  show ?case
  proof (cases "s = []")
    case True
    with snoc.prems have "is_digit c" and "c \<noteq> digit_char 0" by simp_all
    then have "digit_val c \<noteq> 0" by (metis digit_char_val)
    with True show ?thesis by (simp add: undec_def)
  next
    case False
    with snoc show ?thesis by simp
  qed
qed

lemma dec_undec [simp]: "canonical_dec s \<Longrightarrow> dec (undec s) = s"
proof (induction s rule: rev_induct)
  case Nil
  then show ?case by (simp add: canonical_dec_def)
next
  case (snoc c s)
  then have c: "is_digit c" by (simp add: canonical_dec_def)
  show ?case
  proof (cases "s = []")
    case True
    with c show ?thesis by (simp add: undec_def dec.simps)
  next
    case False
    with snoc.prems have s: "list_all is_digit s" "hd s \<noteq> CHR ''0''" "canonical_dec s"
      by (auto simp: canonical_dec_def)
    with False have "0 < undec s" by (intro undec_pos)
    with s c snoc.IH show ?thesis by (simp add: dec_append_digit)
  qed
qed

lemma undec_less: "list_all is_digit s \<Longrightarrow> undec s < 10 ^ length s"
proof (induction s rule: rev_induct)
  case (snoc c s)
  then have "undec s + 1 \<le> 10 ^ length s" "digit_val c < 10" by (auto simp: list_all_iff)
  then show ?case by simp
qed simp

lemma canonical_dec_iff: "canonical_dec s \<longleftrightarrow> (\<exists>n. s = dec n)"
  by (metis canonical_dec_dec dec_undec)

section \<open>Lists\<close>

lemma take_append_length [simp]: "length xs = n \<Longrightarrow> take n (xs @ ys) = xs"
  by simp

lemma drop_append_length [simp]: "length xs = n \<Longrightarrow> drop n (xs @ ys) = ys"
  by simp

lemma takeWhile_append_stop [simp]:
  "list_all P xs \<Longrightarrow> \<not> P y \<Longrightarrow> takeWhile P (xs @ y # ys) = xs"
  by (induction xs) auto

lemma dropWhile_append_stop [simp]:
  "list_all P xs \<Longrightarrow> \<not> P y \<Longrightarrow> dropWhile P (xs @ y # ys) = y # ys"
  by (induction xs) auto

end
