(* ===== verification/Go_Strings.thy ===== *)
theory Go_Strings
  imports Lattice_Prelude
begin

text \<open>
  What the sources use of Go's \<^verbatim>\<open>unicode/utf8\<close>, \<^verbatim>\<open>strings\<close> and \<^verbatim>\<open>strconv\<close>: decoding and
  encoding of runes, trimming of white space, searching and splitting, and the reading of
  decimal integers. Strings are byte sequences that need not be valid UTF-8, as in Go, so
  decoding answers the replacement rune of width one for a byte that starts no rune.
\<close>

section \<open>Runes\<close>

definition RuneError :: nat where "RuneError = 0xFFFD"

definition cont_byte :: "char \<Rightarrow> bool" where
  "cont_byte c \<longleftrightarrow> 0x80 \<le> ord c \<and> ord c \<le> 0xBF"

text \<open>\<open>DecodeRune s\<close> is the first rune of \<open>s\<close> and its width in bytes.\<close>

definition lo2 :: "nat \<Rightarrow> nat" where
  "lo2 a = (if a = 0xE0 then 0xA0 else if a = 0xF0 then 0x90 else 0x80)"

definition hi2 :: "nat \<Rightarrow> nat" where
  "hi2 a = (if a = 0xED then 0x9F else if a = 0xF4 then 0x8F else 0xBF)"

fun DecodeRune :: "string \<Rightarrow> nat \<times> nat" where
  "DecodeRune [] = (RuneError, 0)"
| "DecodeRune (c0 # s) =
     (let a = ord c0 in
      if a < 0x80 then (a, 1)
      else if a < 0xC2 \<or> 0xF4 < a then (RuneError, 1)
      else if a < 0xE0 then
        (case s of
           c1 # _ \<Rightarrow> if cont_byte c1 then ((a - 0xC0) * 0x40 + (ord c1 - 0x80), 2) else (RuneError, 1)
         | _ \<Rightarrow> (RuneError, 1))
      else if a < 0xF0 then
        (case s of
           c1 # c2 # _ \<Rightarrow>
             if lo2 a \<le> ord c1 \<and> ord c1 \<le> hi2 a \<and> cont_byte c2
             then ((a - 0xE0) * 0x1000 + (ord c1 - 0x80) * 0x40 + (ord c2 - 0x80), 3)
             else (RuneError, 1)
         | _ \<Rightarrow> (RuneError, 1))
      else
        (case s of
           c1 # c2 # c3 # _ \<Rightarrow>
             if lo2 a \<le> ord c1 \<and> ord c1 \<le> hi2 a \<and> cont_byte c2 \<and> cont_byte c3
             then ((a - 0xF0) * 0x40000 + (ord c1 - 0x80) * 0x1000 + (ord c2 - 0x80) * 0x40
                   + (ord c3 - 0x80), 4)
             else (RuneError, 1)
         | _ \<Rightarrow> (RuneError, 1)))"

lemma DecodeRune_width:
  "s \<noteq> [] \<Longrightarrow> 1 \<le> snd (DecodeRune s) \<and> snd (DecodeRune s) \<le> length s"
  by (cases s) (auto simp: Let_def split: list.splits)

lemma DecodeRune_ascii [simp]: "ord c < 0x80 \<Longrightarrow> DecodeRune (c # s) = (ord c, 1)"
  by simp

declare DecodeRune.simps(2) [simp del]

text \<open>\<open>DecodeLastRune s\<close> is the last rune of \<open>s\<close> and its width.\<close>

definition RuneStart :: "char \<Rightarrow> bool" where
  "RuneStart c \<longleftrightarrow> \<not> cont_byte c"

definition DecodeLastRune :: "string \<Rightarrow> nat \<times> nat" where
  "DecodeLastRune s =
     (if s = [] then (RuneError, 0)
      else if ord (last s) < 0x80 then (ord (last s), 1)
      else
        let n = length s;
            k = (if 2 \<le> n \<and> RuneStart (s ! (n - 2)) then 2
                 else if 3 \<le> n \<and> RuneStart (s ! (n - 3)) then 3
                 else if 4 \<le> n \<and> RuneStart (s ! (n - 4)) then 4
                 else min n 5);
            (r, size) = DecodeRune (drop (n - k) s)
        in if size = k then (r, size) else (RuneError, 1))"

lemma DecodeLastRune_width:
  "s \<noteq> [] \<Longrightarrow> 1 \<le> snd (DecodeLastRune s) \<and> snd (DecodeLastRune s) \<le> length s"
  by (auto simp: DecodeLastRune_def Let_def Suc_le_eq split: prod.splits)

text \<open>\<open>utf8_bytes r\<close> is what \<^verbatim>\<open>strings.Builder.WriteRune\<close> appends for the rune \<open>r\<close>.\<close>

definition utf8_bytes :: "nat \<Rightarrow> string" where
  "utf8_bytes r0 =
     (let r = (if 0x10FFFF < r0 \<or> (0xD800 \<le> r0 \<and> r0 \<le> 0xDFFF) then RuneError else r0) in
      if r < 0x80 then [char_of r]
      else if r < 0x800 then [char_of (0xC0 + r div 0x40), char_of (0x80 + r mod 0x40)]
      else if r < 0x10000 then
        [char_of (0xE0 + r div 0x1000), char_of (0x80 + r div 0x40 mod 0x40), char_of (0x80 + r mod 0x40)]
      else
        [char_of (0xF0 + r div 0x40000), char_of (0x80 + r div 0x1000 mod 0x40),
         char_of (0x80 + r div 0x40 mod 0x40), char_of (0x80 + r mod 0x40)])"

text \<open>\<open>utf8_valid\<close> is \<^verbatim>\<open>utf8.Valid\<close>: no byte of the string starts no rune.\<close>

function utf8_valid :: "string \<Rightarrow> bool" where
  "utf8_valid s =
     (if s = [] then True
      else if DecodeRune s = (RuneError, 1) then False
      else utf8_valid (drop (snd (DecodeRune s)) s))"
  by pat_completeness auto
termination
proof (relation "measure length", simp)
  fix s :: string
  assume "s \<noteq> []"
  with DecodeRune_width [of s] show "(drop (snd (DecodeRune s)) s, s) \<in> measure length"
    by simp
qed

declare utf8_valid.simps [simp del]

lemma utf8_valid_Nil [simp]: "utf8_valid []"
  by (subst utf8_valid.simps) simp

definition valid_rune :: "nat \<Rightarrow> bool" where
  "valid_rune r \<longleftrightarrow> r \<le> 0x10FFFF \<and> \<not> (0xD800 \<le> r \<and> r \<le> 0xDFFF)"

section \<open>White space\<close>

definition IsSpace :: "nat \<Rightarrow> bool" where
  "IsSpace r \<longleftrightarrow>
     (0x09 \<le> r \<and> r \<le> 0x0D) \<or> r = 0x20 \<or> r = 0x85 \<or> r = 0xA0 \<or> r = 0x1680 \<or>
     (0x2000 \<le> r \<and> r \<le> 0x200A) \<or> r = 0x2028 \<or> r = 0x2029 \<or> r = 0x202F \<or> r = 0x205F \<or> r = 0x3000"

function trim_left :: "string \<Rightarrow> string" where
  "trim_left s = (if s \<noteq> [] \<and> IsSpace (fst (DecodeRune s))
                  then trim_left (drop (snd (DecodeRune s)) s) else s)"
  by pat_completeness auto
termination
proof (relation "measure length", simp)
  fix s :: string
  assume "s \<noteq> [] \<and> IsSpace (fst (DecodeRune s))"
  with DecodeRune_width [of s] show "(drop (snd (DecodeRune s)) s, s) \<in> measure length"
    by simp
qed

function trim_right :: "string \<Rightarrow> string" where
  "trim_right s = (if s \<noteq> [] \<and> IsSpace (fst (DecodeLastRune s))
                   then trim_right (take (length s - snd (DecodeLastRune s)) s) else s)"
  by pat_completeness auto
termination
proof (relation "measure length", simp)
  fix s :: string
  assume "s \<noteq> [] \<and> IsSpace (fst (DecodeLastRune s))"
  with DecodeLastRune_width [of s]
  show "(take (length s - snd (DecodeLastRune s)) s, s) \<in> measure length"
    by simp
qed

declare trim_left.simps [simp del] trim_right.simps [simp del]

definition TrimSpace :: "string \<Rightarrow> string" where
  "TrimSpace s = trim_right (trim_left s)"

definition graphic :: "char \<Rightarrow> bool" where
  "graphic c \<longleftrightarrow> 0x20 < ord c \<and> ord c < 0x7F"

lemma digit_graphic [simp]: "is_digit c \<Longrightarrow> graphic c"
  by (simp add: is_digit_def graphic_def)

lemma TrimSpace_id:
  assumes "s \<noteq> []" and "graphic (hd s)" and "graphic (last s)"
  shows "TrimSpace s = s"
proof -
  obtain c t where s: "s = c # t" using assms(1) by (cases s) auto
  with assms(2) have "trim_left s = s"
    by (subst trim_left.simps) (simp add: graphic_def IsSpace_def)
  moreover from assms(1,3) have "trim_right s = s"
    by (subst trim_right.simps) (simp add: DecodeLastRune_def graphic_def IsSpace_def)
  ultimately show ?thesis by (simp add: TrimSpace_def)
qed

lemma TrimSpace_Nil [simp]: "TrimSpace [] = []"
  by (simp add: TrimSpace_def trim_left.simps [of "[]"] trim_right.simps [of "[]"])

section \<open>Searching and splitting\<close>

text \<open>\<^verbatim>\<open>strings.Cut\<close> at a one-byte separator: before, after, and whether it was found.\<close>

definition Cut :: "char \<Rightarrow> string \<Rightarrow> string \<times> string \<times> bool" where
  "Cut sep s =
     (case dropWhile (\<lambda>c. c \<noteq> sep) s of
        [] \<Rightarrow> (s, [], False)
      | _ # after \<Rightarrow> (takeWhile (\<lambda>c. c \<noteq> sep) s, after, True))"

lemma Cut_append: "sep \<notin> set a \<Longrightarrow> Cut sep (a @ sep # b) = (a, b, True)"
proof -
  assume "sep \<notin> set a"
  then have "list_all (\<lambda>c. c \<noteq> sep) a" by (auto simp: list_all_iff)
  then show ?thesis by (simp add: Cut_def)
qed

lemma Cut_SomeD: "Cut sep s = (a, b, True) \<Longrightarrow> s = a @ sep # b \<and> sep \<notin> set a"
proof -
  assume cut: "Cut sep s = (a, b, True)"
  then obtain x where d: "dropWhile (\<lambda>c. c \<noteq> sep) s = x # b" and a: "a = takeWhile (\<lambda>c. c \<noteq> sep) s"
    by (auto simp: Cut_def split: list.splits)
  from d have "x = sep" by (metis (full_types) hd_dropWhile list.distinct(1) list.sel(1))
  with d a have "s = a @ sep # b" by (metis takeWhile_dropWhile_id)
  moreover have "sep \<notin> set a" unfolding a by (auto dest: set_takeWhileD)
  ultimately show ?thesis ..
qed

lemma Cut_absent: "sep \<notin> set s \<Longrightarrow> Cut sep s = (s, [], False)"
proof -
  assume "sep \<notin> set s"
  then have "dropWhile (\<lambda>c. c \<noteq> sep) s = []" by auto
  then show ?thesis by (simp only: Cut_def list.case)
qed

lemma Cut_cases:
  assumes "Cut sep s = (a, b, f)"
  shows "f \<and> s = a @ sep # b \<and> sep \<notin> set a \<or> \<not> f \<and> a = s \<and> b = [] \<and> sep \<notin> set s"
proof (cases f)
  case True
  then show ?thesis using Cut_SomeD [of sep s a b] assms by simp
next
  case False
  then have "dropWhile (\<lambda>c. c \<noteq> sep) s = []" "a = s" "b = []" using assms by (auto simp: Cut_def split: list.splits)
  then show ?thesis using False by auto
qed

fun Split :: "char \<Rightarrow> string \<Rightarrow> string list" where
  "Split sep [] = [[]]"
| "Split sep (c # s) =
     (if c = sep then [] # Split sep s
      else case Split sep s of [] \<Rightarrow> [[c]] | p # ps \<Rightarrow> (c # p) # ps)"

lemma Split_nonempty [simp]: "Split sep s \<noteq> []"
  by (induction s) (auto split: list.splits)

fun Join :: "char \<Rightarrow> string list \<Rightarrow> string" where
  "Join sep [] = []"
| "Join sep [p] = p"
| "Join sep (p # q # ps) = p @ sep # Join sep (q # ps)"

lemma Split_no_sep: "sep \<notin> set p \<Longrightarrow> Split sep p = [p]"
  by (induction p) auto

lemma Split_append: "sep \<notin> set p \<Longrightarrow> Split sep (p @ sep # s) = p # Split sep s"
  by (induction p) auto

lemma Split_Join: "ps \<noteq> [] \<Longrightarrow> \<forall>p \<in> set ps. sep \<notin> set p \<Longrightarrow> Split sep (Join sep ps) = ps"
  by (induction sep ps rule: Join.induct) (auto simp: Split_no_sep Split_append)

text \<open>\<^verbatim>\<open>strings.HasPrefix\<close> and \<^verbatim>\<open>strings.Contains\<close>.\<close>

definition HasPrefix :: "string \<Rightarrow> string \<Rightarrow> bool" where
  "HasPrefix s p \<longleftrightarrow> take (length p) s = p"

fun Contains :: "string \<Rightarrow> string \<Rightarrow> bool" where
  "Contains [] p = (p = [])"
| "Contains (c # s) p = (HasPrefix (c # s) p \<or> Contains s p)"

section \<open>Decimal integers\<close>

text \<open>
  \<^verbatim>\<open>strconv.ParseInt(s, 10, 64)\<close> and \<^verbatim>\<open>strconv.Atoi\<close> (an \<^verbatim>\<open>int\<close> has 64 bits): an optional
  sign, then digits, inside the range of the type; \<^verbatim>\<open>strconv.ParseUint(s, 10, 64)\<close> takes no
  sign. \<open>None\<close> is the error.
\<close>

definition digits_only :: "string \<Rightarrow> bool" where
  "digits_only s \<longleftrightarrow> s \<noteq> [] \<and> list_all is_digit s"

definition ParseInt :: "string \<Rightarrow> int option" where
  "ParseInt s =
     (let neg = (s \<noteq> [] \<and> hd s = CHR ''-'');
          t = (if s \<noteq> [] \<and> (hd s = CHR ''-'' \<or> hd s = CHR ''+'') then tl s else s)
      in if \<not> digits_only t then None
         else if neg then (if undec t \<le> 2 ^ 63 then Some (- int (undec t)) else None)
         else (if undec t < 2 ^ 63 then Some (int (undec t)) else None))"

definition FormatInt :: "int \<Rightarrow> string" where
  "FormatInt n = (if n < 0 then CHR ''-'' # dec (nat (- n)) else dec (nat n))"

definition ParseUint :: "string \<Rightarrow> nat option" where
  "ParseUint s = (if digits_only s \<and> undec s < 2 ^ 64 then Some (undec s) else None)"

lemma digits_only_dec [simp]: "digits_only (dec n)"
  using canonical_dec_dec [of n] by (simp add: digits_only_def canonical_dec_def)

lemma hd_dec_digit [simp]: "is_digit (hd (dec n))"
  by (rule dec_digits [of _ n]) simp

lemma sign_not_digit [simp]: "\<not> is_digit CHR ''-''" "\<not> is_digit CHR ''+''"
  by (simp_all add: is_digit_def ord_def)

lemma hd_dec_no_sign [simp]: "hd (dec n) \<noteq> CHR ''-''" "hd (dec n) \<noteq> CHR ''+''"
  by (metis hd_dec_digit sign_not_digit)+

lemma ParseInt_dec: "n < 2 ^ 63 \<Longrightarrow> ParseInt (dec n) = Some (int n)"
  by (simp add: ParseInt_def)

lemma ParseInt_FormatInt: "in_i64 n \<Longrightarrow> ParseInt (FormatInt n) = Some n"
  by (auto simp: ParseInt_def FormatInt_def in_i64_def Let_def nat_le_iff nat_less_iff)

lemma ParseUint_dec: "n < 2 ^ 64 \<Longrightarrow> ParseUint (dec n) = Some n"
  by (simp add: ParseUint_def)

text \<open>The range checks on binary integers, for evaluation.\<close>

lemma ParseUint_code [code]:
  "ParseUint s = (if digits_only s \<and> int (undec s) < 18446744073709551616 then Some (undec s) else None)"
  by (simp add: ParseUint_def)

lemma ParseInt_code [code]:
  "ParseInt s =
     (let neg = (s \<noteq> [] \<and> hd s = CHR ''-'');
          t = (if s \<noteq> [] \<and> (hd s = CHR ''-'' \<or> hd s = CHR ''+'') then tl s else s)
      in if \<not> digits_only t then None
         else if neg then (if int (undec t) \<le> 9223372036854775808 then Some (- int (undec t)) else None)
         else (if int (undec t) < 9223372036854775808 then Some (int (undec t)) else None))"
proof -
  have "undec t \<le> 2 ^ 63 \<longleftrightarrow> int (undec t) \<le> 9223372036854775808" "undec t < 2 ^ 63 \<longleftrightarrow> int (undec t) < 9223372036854775808" for t
    by simp_all
  then show ?thesis by (simp only: ParseInt_def)
qed

end
