(* ===== verification/Netip.thy ===== *)
theory Netip
  imports Go_Strings
begin

text \<open>
  The part of Go's \<^verbatim>\<open>net/netip\<close> the sources use: the address values, \<^verbatim>\<open>ParseAddr\<close> with its
  IPv4 and IPv6 readers, and the dotted-quad form \<^verbatim>\<open>String\<close> writes for an IPv4 address. The
  readers follow the library's loops branch by branch; an error is \<open>None\<close>.
\<close>

datatype netip_addr =
    AddrInvalid
  | Addr4 byte byte byte byte
  | Addr6 (as16: bytes) (zone: string)

fun Is4 :: "netip_addr \<Rightarrow> bool" where
  "Is4 (Addr4 _ _ _ _) = True"
| "Is4 _ = False"

fun As4 :: "netip_addr \<Rightarrow> byte \<times> byte \<times> byte \<times> byte" where
  "As4 (Addr4 a b c d) = (a, b, c, d)"
| "As4 _ = (0, 0, 0, 0)"

section \<open>IPv4\<close>

text \<open>
  The loop of \<^verbatim>\<open>parseIPv4Fields\<close>: \<open>fields\<close> are the octets finished so far, \<open>val\<close> and
  \<open>digLen\<close> the value and the number of digits of the current one.
\<close>

fun parse_v4_loop :: "byte list \<Rightarrow> nat \<Rightarrow> nat \<Rightarrow> string \<Rightarrow> byte list option" where
  "parse_v4_loop fields val digLen [] =
     (if length fields < 3 then None else Some (fields @ [of_nat val]))"
| "parse_v4_loop fields val digLen (c # s) =
     (if is_digit c then
        (if digLen = 1 \<and> val = 0 then None
         else let v = val * 10 + digit_val c in
              if v > 255 then None else parse_v4_loop fields v (digLen + 1) s)
      else if c = CHR ''.'' then
        (if digLen = 0 \<or> s = [] then None
         else if length fields = 3 then None
         else parse_v4_loop (fields @ [of_nat val]) 0 0 s)
      else None)"

definition parseIPv4Fields :: "string \<Rightarrow> byte list option" where
  "parseIPv4Fields s = parse_v4_loop [] 0 0 s"

definition parseIPv4 :: "string \<Rightarrow> netip_addr option" where
  "parseIPv4 s =
     (case parseIPv4Fields s of
        Some [a, b, c, d] \<Rightarrow> Some (Addr4 a b c d)
      | _ \<Rightarrow> None)"

definition addr4_String :: "byte \<Rightarrow> byte \<Rightarrow> byte \<Rightarrow> byte \<Rightarrow> string" where
  "addr4_String a b c d =
     dec (unat a) @ ''.'' @ dec (unat b) @ ''.'' @ dec (unat c) @ ''.'' @ dec (unat d)"

lemma dot_not_digit [simp]: "\<not> is_digit CHR ''.''"
  by (simp add: is_digit_def ord_def)

text \<open>Reading the digits of one octet: the loop consumes a canonical numeral up to 255.\<close>

lemma parse_v4_digits:
  assumes "canonical_dec s" and "undec s \<le> 255"
  shows "parse_v4_loop fs 0 0 (s @ t) = parse_v4_loop fs (undec s) (length s) t"
  using assms
proof (induction s arbitrary: t rule: rev_induct)
  case Nil
  then show ?case by (simp add: canonical_dec_def)
next
  case (snoc c s)
  then have c: "is_digit c" by (simp add: canonical_dec_def)
  show ?case
  proof (cases "s = []")
    case True
    have "digit_val c \<le> 255" using digit_val_less [OF c] by linarith
    with True c show ?thesis by (simp add: undec_def)
  next
    case False
    with snoc.prems have s: "canonical_dec s" "hd s \<noteq> CHR ''0''" "list_all is_digit s"
      and le: "undec s \<le> 255"
      by (auto simp: canonical_dec_def)
    with False have "0 < undec s" by (intro undec_pos)
    with s le c snoc show ?thesis by simp
  qed
qed

lemma parse_v4_octet:
  "length fs < 3 \<Longrightarrow> t \<noteq> [] \<Longrightarrow>
     parse_v4_loop fs 0 0 (dec (unat (a :: byte)) @ CHR ''.'' # t) = parse_v4_loop (fs @ [a]) 0 0 t"
  by (subst parse_v4_digits) auto

theorem parseIPv4_String: "parseIPv4 (addr4_String a b c d) = Some (Addr4 a b c d)"
proof -
  have "parse_v4_loop [a, b, c] 0 0 (dec (unat d)) = Some [a, b, c, d]"
    using parse_v4_digits [of "dec (unat d)" "[a, b, c]" "[]"] by simp
  then show ?thesis
    by (simp add: parseIPv4_def parseIPv4Fields_def addr4_String_def parse_v4_octet)
qed

section \<open>IPv6\<close>

definition hex_val :: "char \<Rightarrow> nat option" where
  "hex_val c =
     (if is_digit c then Some (digit_val c)
      else if 97 \<le> ord c \<and> ord c \<le> 102 then Some (ord c - 97 + 10)
      else if 65 \<le> ord c \<and> ord c \<le> 70 then Some (ord c - 65 + 10)
      else None)"

text \<open>One hexadecimal group: \<open>None\<close> when a fifth digit follows, else its value, how many digits
  it had and the rest of the text.\<close>

fun parse_v6_group :: "nat \<Rightarrow> nat \<Rightarrow> string \<Rightarrow> (nat \<times> nat \<times> string) option" where
  "parse_v6_group off acc [] = Some (acc, off, [])"
| "parse_v6_group off acc (c # s) =
     (case hex_val c of
        None \<Rightarrow> Some (acc, off, c # s)
      | Some v \<Rightarrow> if off > 3 then None else parse_v6_group (off + 1) (acc * 16 + v) s)"

text \<open>The main loop: \<open>ip\<close> are the bytes written so far, \<open>ell\<close> the position of the ellipsis, and
  the result is the bytes, the ellipsis and what is left of the text. Each round writes at
  least two of the sixteen bytes, so eight rounds of fuel are all the loop can take.\<close>

fun parse_v6_loop :: "nat \<Rightarrow> byte list \<Rightarrow> nat option \<Rightarrow> string \<Rightarrow> (byte list \<times> nat option \<times> string) option" where
  "parse_v6_loop 0 ip ell s = Some (ip, ell, s)"
| "parse_v6_loop (Suc fuel) ip ell s =
     (if length ip \<ge> 16 then Some (ip, ell, s)
      else case parse_v6_group 0 0 s of
        None \<Rightarrow> None
      | Some (acc, off, rest) \<Rightarrow>
          if off = 0 then None
          else if rest \<noteq> [] \<and> hd rest = CHR ''.'' then
            (if ell = None \<and> length ip \<noteq> 12 then None
             else if length ip + 4 > 16 then None
             else (case parseIPv4Fields s of
                     None \<Rightarrow> None
                   | Some q \<Rightarrow> Some (ip @ q, ell, [])))
          else
            let ip' = ip @ [of_nat (acc div 256), of_nat acc] in
            (case rest of
               [] \<Rightarrow> Some (ip', ell, [])
             | c # s1 \<Rightarrow>
                 if c \<noteq> CHR '':'' then None
                 else if s1 = [] then None
                 else if hd s1 = CHR '':'' then
                   (if ell \<noteq> None then None
                    else if tl s1 = [] then Some (ip', Some (length ip'), [])
                    else parse_v6_loop fuel ip' (Some (length ip')) (tl s1))
                 else parse_v6_loop fuel ip' ell s1))"

definition parseIPv6 :: "string \<Rightarrow> netip_addr option" where
  "parseIPv6 inp =
     (let (s, zone, has_zone) = Cut CHR ''%'' inp in
      if has_zone \<and> zone = [] then None
      else
        let lead = (take 2 s = ''::'');
            s1 = (if lead then drop 2 s else s)
        in if lead \<and> s1 = [] then Some (Addr6 (replicate 16 0) zone)
           else case parse_v6_loop 8 [] (if lead then Some 0 else None) s1 of
             None \<Rightarrow> None
           | Some (ip, ell, rest) \<Rightarrow>
               if rest \<noteq> [] then None
               else if length ip < 16 then
                 (case ell of
                    None \<Rightarrow> None
                  | Some e \<Rightarrow> Some (Addr6 (take e ip @ replicate (16 - length ip) 0 @ drop e ip) zone))
               else (if ell = None then Some (Addr6 ip zone) else None))"

section \<open>ParseAddr\<close>

fun ParseAddr_scan :: "string \<Rightarrow> string \<Rightarrow> netip_addr option" where
  "ParseAddr_scan s [] = None"
| "ParseAddr_scan s (c # t) =
     (if c = CHR ''.'' then parseIPv4 s
      else if c = CHR '':'' then parseIPv6 s
      else if c = CHR ''%'' then None
      else ParseAddr_scan s t)"

definition ParseAddr :: "string \<Rightarrow> netip_addr option" where
  "ParseAddr s = ParseAddr_scan s s"

lemma ParseAddr_scan_dot:
  "list_all is_digit p \<Longrightarrow> ParseAddr_scan s (p @ CHR ''.'' # t) = parseIPv4 s"
  by (induction p) (auto simp: is_digit_def ord_def)

lemma ParseAddr_String: "ParseAddr (addr4_String a b c d) = Some (Addr4 a b c d)"
proof -
  have "ParseAddr_scan s (addr4_String a b c d) = parseIPv4 s" for s
    unfolding addr4_String_def
    using canonical_dec_dec [of "unat a"] by (simp add: ParseAddr_scan_dot canonical_dec_def)
  then show ?thesis by (simp add: ParseAddr_def parseIPv4_String)
qed

end
