(* ===== verification/Beacon_Addr.thy ===== *)
theory Beacon_Addr
  imports Netip
begin

text \<open>
  The address rules of the beacon (\<^verbatim>\<open>src/beacon/addr.go\<close>): which addresses a beacon may
  never use, the reading of an advertised endpoint and of a bind address, and the port rule.
  The errors are the three error values of the file.
\<close>

definition PortRandomMin :: int where "PortRandomMin = 40000"
definition PortRandomMax :: int where "PortRandomMax = 59999"
definition PortOverrideMin :: int where "PortOverrideMin = 1024"

datatype addr_error = ErrNotIPv4Literal | ErrAddressRefused | ErrPort

definition AddressRefused :: "netip_addr \<Rightarrow> bool" where
  "AddressRefused a =
     (if \<not> Is4 a then True
      else
        let (b0, b1, _, _) = As4 a in
        if b0 = 0 \<or> b0 = 127 then True
        else if b0 = 169 \<and> b1 = 254 then True
        else if b0 \<ge> 224 then True
        else False)"

fun addr_String4 :: "netip_addr \<Rightarrow> string" where
  "addr_String4 (Addr4 a b c d) = addr4_String a b c d"
| "addr_String4 _ = []"

definition ParseIPv4 :: "string \<Rightarrow> addr_error + netip_addr" where
  "ParseIPv4 s =
     (case ParseAddr s of
        None \<Rightarrow> Inl ErrNotIPv4Literal
      | Some addr \<Rightarrow>
          if \<not> Is4 addr \<or> addr_String4 addr \<noteq> s then Inl ErrNotIPv4Literal
          else if AddressRefused addr then Inl ErrAddressRefused
          else Inr addr)"

definition ParseEndpoint :: "string \<Rightarrow> addr_error + (netip_addr \<times> 16 word)" where
  "ParseEndpoint s =
     (let (host, portText, ok) = Cut CHR '':'' (TrimSpace s) in
      if \<not> ok \<or> CHR '':'' \<in> set portText then Inl ErrNotIPv4Literal
      else case ParseIPv4 host of
        Inl e \<Rightarrow> Inl e
      | Inr addr \<Rightarrow>
          (case ParseInt portText of
             None \<Rightarrow> Inl ErrPort
           | Some port \<Rightarrow>
               if port < 1 \<or> port > 65535 \<or> portText \<noteq> FormatInt port then Inl ErrPort
               else Inr (addr, of_int port)))"

definition ValidListenPort :: "int \<Rightarrow> bool" where
  "ValidListenPort port \<longleftrightarrow> port \<ge> PortOverrideMin \<and> port \<le> 65535"

section \<open>What the rules admit\<close>

lemma AddressRefused_Addr4:
  "AddressRefused (Addr4 a b c d) \<longleftrightarrow>
     a = 0 \<or> a = 127 \<or> (a = 169 \<and> b = 254) \<or> 224 \<le> a"
  by (simp add: AddressRefused_def)

lemma ParseIPv4_iff:
  "ParseIPv4 s = Inr x \<longleftrightarrow>
     (\<exists>a b c d. x = Addr4 a b c d \<and> \<not> AddressRefused x \<and> s = addr4_String a b c d)"
proof
  assume "ParseIPv4 s = Inr x"
  then show "\<exists>a b c d. x = Addr4 a b c d \<and> \<not> AddressRefused x \<and> s = addr4_String a b c d"
    by (cases x) (auto simp: ParseIPv4_def split: option.splits if_splits)
next
  assume "\<exists>a b c d. x = Addr4 a b c d \<and> \<not> AddressRefused x \<and> s = addr4_String a b c d"
  then show "ParseIPv4 s = Inr x" by (auto simp: ParseIPv4_def ParseAddr_String)
qed

lemma addr4_String_chars: "ch \<in> set (addr4_String a b c d) \<Longrightarrow> is_digit ch \<or> ch = CHR ''.''"
  by (auto simp: addr4_String_def dest: dec_digits)

lemma colon_notin_addr4: "CHR '':'' \<notin> set (addr4_String a b c d)"
  using addr4_String_chars [of "CHR '':''"] by (auto simp: is_digit_def ord_def)

lemma colon_notin_dec: "CHR '':'' \<notin> set (dec n)"
  using dec_digits [of "CHR '':''" n] by (auto simp: is_digit_def ord_def)

definition endpoint_String :: "netip_addr \<Rightarrow> 16 word \<Rightarrow> string" where
  "endpoint_String a p = addr_String4 a @ CHR '':'' # dec (unat p)"

lemma ParseEndpoint_String:
  assumes "TrimSpace s = endpoint_String (Addr4 a b c d) p"
    and "\<not> AddressRefused (Addr4 a b c d)" and "p \<noteq> 0"
  shows "ParseEndpoint s = Inr (Addr4 a b c d, p)"
proof -
  from assms(3) have p: "0 < unat p" "unat p \<le> 65535"
    by (simp_all add: unat_gt_0)
  have "ParseIPv4 (addr4_String a b c d) = Inr (Addr4 a b c d)"
    using assms(2) by (auto simp: ParseIPv4_iff)
  moreover have "ParseInt (dec (unat p)) = Some (int (unat p))"
    using unat_u16_less [of p] by (intro ParseInt_dec, elim less_trans) simp
  moreover have "Cut CHR '':'' (TrimSpace s) = (addr4_String a b c d, dec (unat p), True)"
    using assms(1) by (simp add: endpoint_String_def Cut_append colon_notin_addr4)
  moreover have "\<not> uint p < 1"
    using assms(3) uint_0_iff [of p] uint_ge_0 [of p] by linarith
  moreover have "\<not> 65535 < uint p"
    using unsigned_less [of p, where 'a = int] by simp
  ultimately show ?thesis
    by (simp add: ParseEndpoint_def colon_notin_dec FormatInt_def)
qed

lemma ParseEndpoint_admits:
  assumes "ParseEndpoint s = Inr (x, p)"
  shows "Is4 x \<and> \<not> AddressRefused x \<and> p \<noteq> 0 \<and> TrimSpace s = endpoint_String x p"
proof -
  obtain host pt ok where cut: "Cut CHR '':'' (TrimSpace s) = (host, pt, ok)"
    by (metis prod_cases3)
  with assms have ok: "ok" and h: "ParseIPv4 host = Inr x"
    by (auto simp: ParseEndpoint_def split: if_splits sum.splits option.splits)
  from assms cut h obtain port where port: "ParseInt pt = Some port" "1 \<le> port" "port \<le> 65535"
      "pt = FormatInt port" "p = of_int port"
    by (auto simp: ParseEndpoint_def split: if_splits option.splits)
  then have p: "uint p = port" by (simp add: uint_word_of_int_eq take_bit_eq_mod)
  then have "pt = dec (unat p)" and "p \<noteq> 0"
    using port by (auto simp: FormatInt_def simp flip: nat_uint_eq)
  moreover from h have "Is4 x \<and> \<not> AddressRefused x \<and> host = addr_String4 x"
    by (auto simp: ParseIPv4_iff)
  ultimately show ?thesis
    using Cut_SomeD [of _ _ host pt] cut ok by (auto simp: endpoint_String_def)
qed

text \<open>
  C11. An advertised endpoint is accepted exactly when, after trimming, it is the canonical text
  \<^verbatim>\<open>address:port\<close> of an IPv4 address of an allowed class and of a port from 1 to 65535, and
  the parsed value is that address and that port. In particular no host name, IPv6 address,
  octet or port with a leading zero, and no unspecified, loopback, link-local, multicast or
  reserved address is ever accepted.
\<close>

theorem ParseEndpoint_iff:
  "ParseEndpoint s = Inr (x, p) \<longleftrightarrow>
     Is4 x \<and> \<not> AddressRefused x \<and> p \<noteq> 0 \<and> TrimSpace s = endpoint_String x p"
proof
  assume "Is4 x \<and> \<not> AddressRefused x \<and> p \<noteq> 0 \<and> TrimSpace s = endpoint_String x p"
  then show "ParseEndpoint s = Inr (x, p)"
    by (cases x) (auto intro: ParseEndpoint_String)
qed (rule ParseEndpoint_admits)

end
