(* ===== verification/Byte_Order.thy ===== *)
theory Byte_Order
  imports Lattice_Prelude
begin

text \<open>
  Big-endian integers as \<^verbatim>\<open>encoding/binary\<close> reads and writes them (\<^verbatim>\<open>PutUint32\<close>,
  \<^verbatim>\<open>Uint32\<close>, \<^verbatim>\<open>PutUint64\<close>, \<^verbatim>\<open>Uint64\<close>), the conversions between \<^verbatim>\<open>uint64\<close> and
  \<^verbatim>\<open>int64\<close>, and copying into a slice.
\<close>

unbundle bit_operations_syntax

definition be32 :: "32 word \<Rightarrow> bytes" where
  "be32 w = [ucast (drop_bit 24 w), ucast (drop_bit 16 w), ucast (drop_bit 8 w), ucast w]"

definition un_be32 :: "bytes \<Rightarrow> 32 word" where
  "un_be32 b = push_bit 24 (ucast (b ! 0)) OR push_bit 16 (ucast (b ! 1))
     OR push_bit 8 (ucast (b ! 2)) OR ucast (b ! 3)"

definition be64 :: "64 word \<Rightarrow> bytes" where
  "be64 w = be32 (ucast (drop_bit 32 w)) @ be32 (ucast w)"

definition un_be64 :: "bytes \<Rightarrow> 64 word" where
  "un_be64 b = push_bit 32 (ucast (un_be32 b)) OR ucast (un_be32 (drop 4 b))"

definition i64_of_u64 :: "64 word \<Rightarrow> int" where "i64_of_u64 w = sint w"
definition u64_of_i64 :: "int \<Rightarrow> 64 word" where "u64_of_i64 x = of_int x"

lemma length_be32 [simp]: "length (be32 w) = 4"
  by (simp add: be32_def)

lemma length_be64 [simp]: "length (be64 w) = 8"
  by (simp add: be64_def)

lemma un_be32_be32 [simp]: "un_be32 (be32 w @ s) = w"
proof (rule bit_word_eqI)
  fix n
  assume "n < LENGTH(32)"
  then consider "n < 8" | "8 \<le> n" "n < 16" | "16 \<le> n" "n < 24" | "24 \<le> n" "n < 32"
    by fastforce
  then show "bit (un_be32 (be32 w @ s)) n = bit w n"
    by cases (simp_all add: un_be32_def be32_def bit_simps less_diff_conv2)
qed

lemma be32_un_be32: "length b = 4 \<Longrightarrow> be32 (un_be32 b) = b"
proof -
  assume "length b = 4"
  then obtain w x y z where b: "b = [w, x, y, z]"
    by (auto simp: length_Suc_conv numeral_eq_Suc)
  show ?thesis
    unfolding b be32_def un_be32_def
    by (simp, intro conjI; rule bit_word_eqI) (auto simp: bit_simps dest: bit_imp_le_length)
qed

lemma un_be64_be64 [simp]: "un_be64 (be64 w @ s) = w"
proof -
  have "un_be64 (be64 w @ s) = push_bit 32 (ucast (ucast (drop_bit 32 w) :: 32 word)) OR ucast (ucast w :: 32 word)"
    by (simp add: un_be64_def be64_def)
  also have "\<dots> = w" by (rule bit_word_eqI) (auto simp: bit_simps)
  finally show ?thesis .
qed

lemma un_be32_take: "un_be32 (take 4 b @ s) = un_be32 b" if "4 \<le> length b"
  using that by (simp add: un_be32_def nth_append)

lemma i64_u64 [simp]: "i64_of_u64 (u64_of_i64 x) = wrap64 x"
  by (simp add: i64_of_u64_def u64_of_i64_def wrap64_def signed_take_bit_eq_take_bit_shift
      take_bit_eq_mod sint_sbintrunc')

lemma in_i64_of_u64 [simp]: "in_i64 (i64_of_u64 w)"
  using sint_ge [of w] sint_lt [of w] by (simp add: in_i64_def i64_of_u64_def)

end
