(* ===== verification/Sha256.thy ===== *)
theory Sha256
  imports Byte_Order
begin

text \<open>
  What the sources use of \<^verbatim>\<open>crypto/sha256\<close>, \<^verbatim>\<open>crypto/hmac\<close> and \<^verbatim>\<open>crypto/subtle\<close>: the
  SHA-256 digest, the HMAC over it, and the comparison of two tags. The digest is defined by
  the standard's rounds on 32-bit words, so a tag is a concrete function of key and message;
  nothing about its cryptographic strength is assumed anywhere in the development.
\<close>

unbundle bit_operations_syntax

definition rotr32 :: "nat \<Rightarrow> 32 word \<Rightarrow> 32 word" where
  "rotr32 n x = (drop_bit n x OR push_bit (32 - n) x)"

text \<open>The round constants, as the standard derives them: the first 32 bits of the fractional part of
  the cube root of each of the first 64 primes. \<open>cbrt_bits k n r\<close> extends \<open>r\<close> to the integer
  cube root of \<open>n\<close> by \<open>k\<close> more bits.\<close>

primrec cbrt_bits :: "nat \<Rightarrow> nat \<Rightarrow> nat \<Rightarrow> nat" where
  "cbrt_bits 0 n r = r"
| "cbrt_bits (Suc k) n r = cbrt_bits k n (if (r + 2 ^ k) ^ 3 \<le> n then r + 2 ^ k else r)"

definition small_primes :: "nat list" where
  "small_primes = filter (\<lambda>n. list_all (\<lambda>d. n mod d \<noteq> 0) [2..<n]) [2..<312]"

definition sha256_k :: "32 word list" where
  "sha256_k = map (\<lambda>p. of_nat (cbrt_bits 36 (p * 2 ^ 96) 0)) small_primes"

record sha_state =
  sh_a :: "32 word"
  sh_b :: "32 word"
  sh_c :: "32 word"
  sh_d :: "32 word"
  sh_e :: "32 word"
  sh_f :: "32 word"
  sh_g :: "32 word"
  sh_h :: "32 word"

definition sha256_init :: sha_state where
  "sha256_init = \<lparr>sh_a = 0x6a09e667, sh_b = 0xbb67ae85, sh_c = 0x3c6ef372, sh_d = 0xa54ff53a,
     sh_e = 0x510e527f, sh_f = 0x9b05688c, sh_g = 0x1f83d9ab, sh_h = 0x5be0cd19\<rparr>"

text \<open>The message schedule is kept newest first, so the word sixteen back is at index 15.\<close>

definition sched_word :: "32 word list \<Rightarrow> 32 word" where
  "sched_word ws =
     (let x = ws ! 1; y = ws ! 14 in
      (rotr32 17 x XOR rotr32 19 x XOR drop_bit 10 x) + ws ! 6
      + (rotr32 7 y XOR rotr32 18 y XOR drop_bit 3 y) + ws ! 15)"

primrec schedule :: "nat \<Rightarrow> 32 word list \<Rightarrow> 32 word list" where
  "schedule 0 ws = ws"
| "schedule (Suc n) ws = schedule n (sched_word ws # ws)"

definition sha_round :: "32 word \<times> 32 word \<Rightarrow> sha_state \<Rightarrow> sha_state" where
  "sha_round kw s =
     (let t1 = sh_h s + (rotr32 6 (sh_e s) XOR rotr32 11 (sh_e s) XOR rotr32 25 (sh_e s))
               + ((sh_e s AND sh_f s) XOR (NOT (sh_e s) AND sh_g s)) + fst kw + snd kw;
          t2 = (rotr32 2 (sh_a s) XOR rotr32 13 (sh_a s) XOR rotr32 22 (sh_a s))
               + ((sh_a s AND sh_b s) XOR (sh_a s AND sh_c s) XOR (sh_b s AND sh_c s))
      in \<lparr>sh_a = t1 + t2, sh_b = sh_a s, sh_c = sh_b s, sh_d = sh_c s,
          sh_e = sh_d s + t1, sh_f = sh_e s, sh_g = sh_f s, sh_h = sh_g s\<rparr>)"

fun block_words :: "bytes \<Rightarrow> 32 word list" where
  "block_words (a # b # c # d # s) = un_be32 [a, b, c, d] # block_words s"
| "block_words _ = []"

definition sha_block :: "bytes \<Rightarrow> sha_state \<Rightarrow> sha_state" where
  "sha_block blk s =
     (let t = fold sha_round (zip sha256_k (rev (schedule 48 (rev (block_words blk))))) s
      in \<lparr>sh_a = sh_a s + sh_a t, sh_b = sh_b s + sh_b t, sh_c = sh_c s + sh_c t, sh_d = sh_d s + sh_d t,
          sh_e = sh_e s + sh_e t, sh_f = sh_f s + sh_f t, sh_g = sh_g s + sh_g t, sh_h = sh_h s + sh_h t\<rparr>)"

function sha_blocks :: "bytes \<Rightarrow> sha_state \<Rightarrow> sha_state" where
  "sha_blocks m s = (if length m < 64 then s else sha_blocks (drop 64 m) (sha_block (take 64 m) s))"
  by pat_completeness auto
termination by (relation "measure (\<lambda>(m, _). length m)") auto

declare sha_blocks.simps [simp del]

definition sha256_pad :: "bytes \<Rightarrow> bytes" where
  "sha256_pad m = m @ [0x80] @ replicate ((119 - length m mod 64) mod 64) 0 @ be64 (of_nat (8 * length m))"

definition sha256 :: "bytes \<Rightarrow> bytes" where
  "sha256 m =
     (let s = sha_blocks (sha256_pad m) sha256_init in
      be32 (sh_a s) @ be32 (sh_b s) @ be32 (sh_c s) @ be32 (sh_d s) @
      be32 (sh_e s) @ be32 (sh_f s) @ be32 (sh_g s) @ be32 (sh_h s))"

definition hmac_sha256 :: "bytes \<Rightarrow> bytes \<Rightarrow> bytes" where
  "hmac_sha256 key msg =
     (let k = (if length key > 64 then sha256 key else key);
          k0 = k @ replicate (64 - length k) 0
      in sha256 (map (\<lambda>b. b XOR 0x5c) k0 @ sha256 (map (\<lambda>b. b XOR 0x36) k0 @ msg)))"

definition ConstantTimeCompare :: "bytes \<Rightarrow> bytes \<Rightarrow> bool" where
  "ConstantTimeCompare x y \<longleftrightarrow> length x = length y \<and> list_all2 (\<lambda>a b. a XOR b = 0) x y"

lemma length_sha256 [simp]: "length (sha256 m) = 32"
  by (simp add: sha256_def Let_def)

lemma length_hmac [simp]: "length (hmac_sha256 k m) = 32"
  by (simp add: hmac_sha256_def Let_def)

lemma byte_xor_eq_0 [simp]: "(a :: byte) XOR b = 0 \<longleftrightarrow> a = b"
  by (auto simp: bit_eq_iff bit_simps)

lemma ConstantTimeCompare_eq [simp]: "ConstantTimeCompare x y \<longleftrightarrow> x = y"
  by (auto simp: ConstantTimeCompare_def list_all2_conv_all_nth intro: nth_equalityI)

end
