(* ===== verification/Beacon_Wire.thy ===== *)
theory Beacon_Wire
  imports Sha256
begin

text \<open>
  The wire format of the measurement beacon (\<^verbatim>\<open>src/beacon/beacon.go\<close>): path key derivation,
  the encoding and the parsing of requests and replies, and their tags. A \<^verbatim>\<open>[16]byte\<close> or
  \<^verbatim>\<open>[32]byte\<close> array is a list whose length the well-formedness predicates fix; a destination
  subslice is passed in and returned as the source writes it.
\<close>

section \<open>Constants\<close>

definition Magic :: bytes where "Magic = [0x4C, 0x54, 0x42, 0x31]"
definition Version :: byte where "Version = 1"
definition RequestLen :: nat where "RequestLen = 96"
definition ReplyLen :: nat where "ReplyLen = 64"
definition ReadBufferLen :: nat where "ReadBufferLen = 128"
definition KeyLen :: nat where "KeyLen = 32"
definition NonceLen :: nat where "NonceLen = 16"
definition TagLen :: nat where "TagLen = 16"

definition second :: int where "second = 1000000000"
definition FreshnessWindow :: int where "FreshnessWindow = 60 * second"
definition NonceWindow :: int where "NonceWindow = 2 * FreshnessWindow"
definition SourceRatePerSecond :: nat where "SourceRatePerSecond = 20"
definition NonceCacheSize :: nat where
  "NonceCacheSize = SourceRatePerSecond * nat (NonceWindow div second)"
definition NamedReplyInterval :: int where "NamedReplyInterval = second"
definition MaxEpochsPerSource :: nat where "MaxEpochsPerSource = 2"

type_synonym Status = byte

definition StatusOK :: Status where "StatusOK = 0"
definition StatusStale :: Status where "StatusStale = 1"
definition StatusUnknownEpoch :: Status where "StatusUnknownEpoch = 2"
definition StatusRateLimited :: Status where "StatusRateLimited = 3"

definition Status_String :: "Status \<Rightarrow> string" where
  "Status_String s =
     (if s = StatusOK then ''ok''
      else if s = StatusStale then ''stale''
      else if s = StatusUnknownEpoch then ''unknown_epoch''
      else if s = StatusRateLimited then ''rate_limited''
      else ''invalid'')"

definition known_Status :: "Status \<Rightarrow> bool" where
  "known_Status s \<longleftrightarrow> s \<le> StatusRateLimited"

definition reqOffVersion :: nat where "reqOffVersion = 4"
definition reqOffEpoch :: nat where "reqOffEpoch = 5"
definition reqOffSource :: nat where "reqOffSource = 9"
definition reqOffSeq :: nat where "reqOffSeq = 13"
definition reqOffSent :: nat where "reqOffSent = 17"
definition reqOffNonce :: nat where "reqOffNonce = 25"
definition reqOffPad :: nat where "reqOffPad = 41"
definition reqOffTag :: nat where "reqOffTag = RequestLen - TagLen"

definition repOffVersion :: nat where "repOffVersion = 4"
definition repOffStatus :: nat where "repOffStatus = 5"
definition repOffSeq :: nat where "repOffSeq = 6"
definition repOffNonce :: nat where "repOffNonce = 10"
definition repOffResponder :: nat where "repOffResponder = 26"
definition repOffPad :: nat where "repOffPad = 34"
definition repOffTag :: nat where "repOffTag = ReplyLen - TagLen"

lemmas req_offsets = RequestLen_def TagLen_def reqOffVersion_def reqOffEpoch_def reqOffSource_def
  reqOffSeq_def reqOffSent_def reqOffNonce_def reqOffPad_def reqOffTag_def

lemmas rep_offsets = ReplyLen_def TagLen_def repOffVersion_def repOffStatus_def repOffSeq_def
  repOffNonce_def repOffResponder_def repOffPad_def repOffTag_def

definition reqDomain :: bytes where "reqDomain = [0x72, 0x65, 0x71]"
definition repDomain :: bytes where "repDomain = [0x72, 0x65, 0x70]"

definition DerivationLabel :: bytes where
  "DerivationLabel = map (\<lambda>c. of_nat (ord c)) ''lattice-beacon/v1''"

datatype wire_error = ErrLength | ErrMagic | ErrVersion | ErrPadding | ErrTag | ErrStatus | ErrIDs

section \<open>Slices\<close>

text \<open>\<open>subslice i j b\<close> is \<^verbatim>\<open>b[i:j]\<close> and \<open>copy_at i p b\<close> what \<^verbatim>\<open>copy(b[i:], p)\<close> leaves in
  \<open>b\<close>; \<^verbatim>\<open>binary.BigEndian.PutUint32(b[i:], w)\<close> is \<open>copy_at i (be32 w) b\<close>.\<close>

definition subslice :: "nat \<Rightarrow> nat \<Rightarrow> 'a list \<Rightarrow> 'a list" where
  "subslice i j b = take (j - i) (drop i b)"

definition copy_at :: "nat \<Rightarrow> 'a list \<Rightarrow> 'a list \<Rightarrow> 'a list" where
  "copy_at i p b = take i b @ take (length b - i) p @ drop (i + length p) b"

lemma copy_at_split:
  "length a = i \<Longrightarrow> length x = length p \<Longrightarrow> copy_at i p (a @ x @ c) = a @ p @ c"
  by (simp add: copy_at_def)

section \<open>Keys\<close>

definition writeLP :: "bytes \<Rightarrow> bytes \<Rightarrow> bytes" where
  "writeLP w p = w @ be32 (of_nat (length p)) @ p"

definition path_key_input :: "32 word \<Rightarrow> 32 word \<Rightarrow> bytes" where
  "path_key_input sourceID epoch =
     writeLP (writeLP (writeLP [] DerivationLabel) (be32 sourceID)) (be32 epoch)"

definition DerivePathKey :: "bytes \<Rightarrow> 32 word \<Rightarrow> 32 word \<Rightarrow> bytes" where
  "DerivePathKey target sourceID epoch = hmac_sha256 target (path_key_input sourceID epoch)"

definition tag :: "bytes \<Rightarrow> bytes \<Rightarrow> bytes \<Rightarrow> bytes" where
  "tag key domain msg = hmac_sha256 key (domain @ msg)"

section \<open>Requests\<close>

record Request =
  Epoch :: "32 word"
  SourceID :: "32 word"
  Seq :: "32 word"
  SentUnixNano :: int
  Nonce :: bytes

definition wf_Request :: "Request \<Rightarrow> bool" where
  "wf_Request r \<longleftrightarrow> in_i64 (SentUnixNano r) \<and> length (Nonce r) = NonceLen"

definition EncodeRequest :: "bytes \<Rightarrow> bytes \<Rightarrow> Request \<Rightarrow> wire_error + bytes" where
  "EncodeRequest dst key req =
     (if length dst < RequestLen then Inl ErrLength
      else if SourceID req = 0 \<or> Epoch req = 0 then Inl ErrIDs
      else
        let b0 = replicate RequestLen 0;
            b1 = copy_at 0 Magic b0;
            b2 = copy_at reqOffVersion [Version] b1;
            b3 = copy_at reqOffEpoch (be32 (Epoch req)) b2;
            b4 = copy_at reqOffSource (be32 (SourceID req)) b3;
            b5 = copy_at reqOffSeq (be32 (Seq req)) b4;
            b6 = copy_at reqOffSent (be64 (u64_of_i64 (SentUnixNano req))) b5;
            b7 = copy_at reqOffNonce (Nonce req) b6;
            sum = tag key reqDomain (take reqOffTag b7);
            b8 = copy_at reqOffTag (take TagLen sum) b7
        in Inr (b8 @ drop RequestLen dst))"

definition checkRequestFrame :: "bytes \<Rightarrow> wire_error option" where
  "checkRequestFrame pkt =
     (if length pkt \<noteq> RequestLen then Some ErrLength
      else if take reqOffVersion pkt \<noteq> Magic then Some ErrMagic
      else if pkt ! reqOffVersion \<noteq> Version then Some ErrVersion
      else if \<not> list_all (\<lambda>c. c = 0) (subslice reqOffPad reqOffTag pkt) then Some ErrPadding
      else None)"

definition ParseRequest :: "bytes \<Rightarrow> wire_error + Request" where
  "ParseRequest pkt =
     (case checkRequestFrame pkt of
        Some err \<Rightarrow> Inl err
      | None \<Rightarrow> Inr
          \<lparr>Epoch = un_be32 (drop reqOffEpoch pkt),
           SourceID = un_be32 (drop reqOffSource pkt),
           Seq = un_be32 (drop reqOffSeq pkt),
           SentUnixNano = i64_of_u64 (un_be64 (drop reqOffSent pkt)),
           Nonce = subslice reqOffNonce reqOffPad pkt\<rparr>)"

definition VerifyRequest :: "bytes \<Rightarrow> bytes \<Rightarrow> bool" where
  "VerifyRequest pkt key =
     (if checkRequestFrame pkt \<noteq> None then False
      else ConstantTimeCompare (take TagLen (tag key reqDomain (take reqOffTag pkt)))
             (subslice reqOffTag RequestLen pkt))"

section \<open>Replies\<close>

record Reply =
  rep_Status :: Status
  rep_Seq :: "32 word"
  rep_Nonce :: bytes
  ResponderUnixNano :: int

definition wf_Reply :: "Reply \<Rightarrow> bool" where
  "wf_Reply r \<longleftrightarrow> in_i64 (ResponderUnixNano r) \<and> length (rep_Nonce r) = NonceLen"

definition writeReply :: "bytes \<Rightarrow> Status \<Rightarrow> 32 word \<Rightarrow> bytes \<Rightarrow> int \<Rightarrow> bytes" where
  "writeReply key status seq nonce responderNs =
     (let b0 = replicate ReplyLen 0;
          b1 = copy_at 0 Magic b0;
          b2 = copy_at repOffVersion [Version] b1;
          b3 = copy_at repOffStatus [status] b2;
          b4 = copy_at repOffSeq (be32 seq) b3;
          b5 = copy_at repOffNonce (take (repOffResponder - repOffNonce) nonce) b4;
          b6 = copy_at repOffResponder (be64 (u64_of_i64 responderNs)) b5;
          sum = tag key repDomain (take repOffTag b6)
      in copy_at repOffTag (take TagLen sum) b6)"

definition EncodeReply :: "bytes \<Rightarrow> bytes \<Rightarrow> Reply \<Rightarrow> wire_error + bytes" where
  "EncodeReply dst key rep =
     (if length dst < ReplyLen then Inl ErrLength
      else if \<not> known_Status (rep_Status rep) then Inl ErrStatus
      else Inr (writeReply key (rep_Status rep) (rep_Seq rep) (rep_Nonce rep) (ResponderUnixNano rep)
                @ drop ReplyLen dst))"

definition ParseReply :: "bytes \<Rightarrow> bytes \<Rightarrow> wire_error + Reply" where
  "ParseReply pkt key =
     (if length pkt \<noteq> ReplyLen then Inl ErrLength
      else if take repOffVersion pkt \<noteq> Magic then Inl ErrMagic
      else if pkt ! repOffVersion \<noteq> Version then Inl ErrVersion
      else if \<not> list_all (\<lambda>c. c = 0) (subslice repOffPad repOffTag pkt) then Inl ErrPadding
      else if \<not> ConstantTimeCompare (take TagLen (tag key repDomain (take repOffTag pkt)))
                (subslice repOffTag ReplyLen pkt) then Inl ErrTag
      else if \<not> known_Status (pkt ! repOffStatus) then Inl ErrStatus
      else Inr
        \<lparr>rep_Status = pkt ! repOffStatus,
         rep_Seq = un_be32 (drop repOffSeq pkt),
         rep_Nonce = subslice repOffNonce repOffResponder pkt,
         ResponderUnixNano = i64_of_u64 (un_be64 (drop repOffResponder pkt))\<rparr>)"

section \<open>Layouts\<close>

lemma length_Magic [simp]: "length Magic = 4"
  by (simp add: Magic_def)

lemma length_tag [simp]: "length (tag k d m) = 32"
  by (simp add: tag_def)

definition req_body :: "Request \<Rightarrow> bytes" where
  "req_body r = Magic @ [Version] @ be32 (Epoch r) @ be32 (SourceID r) @ be32 (Seq r)
     @ be64 (u64_of_i64 (SentUnixNano r)) @ Nonce r @ replicate 39 0"

definition request_bytes :: "bytes \<Rightarrow> Request \<Rightarrow> bytes" where
  "request_bytes key r = req_body r @ take TagLen (tag key reqDomain (req_body r))"

definition rep_body :: "Reply \<Rightarrow> bytes" where
  "rep_body r = Magic @ [Version] @ [rep_Status r] @ be32 (rep_Seq r) @ rep_Nonce r
     @ be64 (u64_of_i64 (ResponderUnixNano r)) @ replicate 14 0"

definition reply_bytes :: "bytes \<Rightarrow> Reply \<Rightarrow> bytes" where
  "reply_bytes key r = rep_body r @ take TagLen (tag key repDomain (rep_body r))"

lemma length_req_body [simp]: "wf_Request r \<Longrightarrow> length (req_body r) = 80"
  by (simp add: req_body_def wf_Request_def NonceLen_def)

lemma length_request_bytes [simp]: "wf_Request r \<Longrightarrow> length (request_bytes k r) = RequestLen"
  by (simp add: request_bytes_def req_offsets)

lemma length_rep_body [simp]: "wf_Reply r \<Longrightarrow> length (rep_body r) = 48"
  by (simp add: rep_body_def wf_Reply_def NonceLen_def)

lemma length_reply_bytes [simp]: "wf_Reply r \<Longrightarrow> length (reply_bytes k r) = ReplyLen"
  by (simp add: reply_bytes_def rep_offsets)

lemma copy_fill:
  "length a = i \<Longrightarrow> length p \<le> n \<Longrightarrow>
     copy_at i p (a @ replicate n z) = (a @ p) @ replicate (n - length p) z"
  by (simp add: copy_at_def)

lemma EncodeRequest_eq:
  assumes "wf_Request req"
  shows "EncodeRequest dst key req =
     (if length dst < RequestLen then Inl ErrLength
      else if SourceID req = 0 \<or> Epoch req = 0 then Inl ErrIDs
      else Inr (request_bytes key req @ drop RequestLen dst))"
proof -
  let ?a2 = "Magic @ [Version]"
  let ?a3 = "?a2 @ be32 (Epoch req)"
  let ?a4 = "?a3 @ be32 (SourceID req)"
  let ?a5 = "?a4 @ be32 (Seq req)"
  let ?a6 = "?a5 @ be64 (u64_of_i64 (SentUnixNano req))"
  let ?a7 = "?a6 @ Nonce req"
  have n: "length (Nonce req) = 16" using assms by (simp add: wf_Request_def NonceLen_def)
  have s1: "copy_at 0 Magic (replicate RequestLen 0) = Magic @ replicate 92 0"
    using copy_fill [of "[]" 0 Magic 96 0] by (simp add: RequestLen_def)
  have s2: "copy_at reqOffVersion [Version] (Magic @ replicate 92 0) = ?a2 @ replicate 91 0"
    by (subst copy_fill) (simp_all add: req_offsets)
  have s3: "copy_at reqOffEpoch (be32 (Epoch req)) (?a2 @ replicate 91 0) = ?a3 @ replicate 87 0"
    by (subst copy_fill) (simp_all add: req_offsets)
  have s4: "copy_at reqOffSource (be32 (SourceID req)) (?a3 @ replicate 87 0) = ?a4 @ replicate 83 0"
    by (subst copy_fill) (simp_all add: req_offsets)
  have s5: "copy_at reqOffSeq (be32 (Seq req)) (?a4 @ replicate 83 0) = ?a5 @ replicate 79 0"
    by (subst copy_fill) (simp_all add: req_offsets)
  have s6: "copy_at reqOffSent (be64 (u64_of_i64 (SentUnixNano req))) (?a5 @ replicate 79 0)
      = ?a6 @ replicate 71 0"
    by (subst copy_fill) (simp_all add: req_offsets)
  have s7: "copy_at reqOffNonce (Nonce req) (?a6 @ replicate 71 0) = req_body req @ replicate 16 0"
    using n by (subst copy_fill) (simp_all add: req_offsets req_body_def flip: replicate_add)
  have s8: "copy_at reqOffTag (take TagLen t) (req_body req @ replicate 16 0) = req_body req @ take TagLen t"
    if "length t = 32" for t
    using that assms by (subst copy_fill) (simp_all add: req_offsets)
  have s9: "take reqOffTag (req_body req @ replicate 16 0) = req_body req"
    using assms by (simp add: req_offsets)
  show ?thesis
    unfolding EncodeRequest_def Let_def s1 s2 s3 s4 s5 s6 s7 s9 request_bytes_def
    by (simp add: s8)
qed

lemma writeReply_eq:
  assumes "wf_Reply rep"
  shows "writeReply key (rep_Status rep) (rep_Seq rep) (rep_Nonce rep) (ResponderUnixNano rep)
     = reply_bytes key rep"
proof -
  let ?a3 = "(Magic @ [Version]) @ [rep_Status rep]"
  let ?a4 = "?a3 @ be32 (rep_Seq rep)"
  let ?a5 = "?a4 @ rep_Nonce rep"
  have n: "length (rep_Nonce rep) = 16" using assms by (simp add: wf_Reply_def NonceLen_def)
  have s1: "copy_at 0 Magic (replicate ReplyLen 0) = Magic @ replicate 60 0"
    using copy_fill [of "[]" 0 Magic 64 0] by (simp add: ReplyLen_def)
  have s2: "copy_at repOffVersion [Version] (Magic @ replicate 60 0)
      = (Magic @ [Version]) @ replicate 59 0"
    by (subst copy_fill) (simp_all add: rep_offsets)
  have s3: "copy_at repOffStatus [rep_Status rep] ((Magic @ [Version]) @ replicate 59 0)
      = ?a3 @ replicate 58 0"
    by (subst copy_fill) (simp_all add: rep_offsets)
  have s4: "copy_at repOffSeq (be32 (rep_Seq rep)) (?a3 @ replicate 58 0) = ?a4 @ replicate 54 0"
    by (subst copy_fill) (simp_all add: rep_offsets)
  have s5: "copy_at repOffNonce (take (repOffResponder - repOffNonce) (rep_Nonce rep))
      (?a4 @ replicate 54 0) = ?a5 @ replicate 38 0"
    using n by (subst copy_fill) (simp_all add: rep_offsets)
  have s6: "copy_at repOffResponder (be64 (u64_of_i64 (ResponderUnixNano rep))) (?a5 @ replicate 38 0)
      = rep_body rep @ replicate 16 0"
    using n by (subst copy_fill) (simp_all add: rep_offsets rep_body_def flip: replicate_add)
  have s7: "take repOffTag (rep_body rep @ replicate 16 0) = rep_body rep"
    using assms by (simp add: rep_offsets)
  have s8: "copy_at repOffTag (take TagLen t) (rep_body rep @ replicate 16 0) = rep_body rep @ take TagLen t"
    if "length t = 32" for t
    using that assms by (subst copy_fill) (simp_all add: rep_offsets)
  show ?thesis
    unfolding writeReply_def Let_def s1 s2 s3 s4 s5 s6 s7 reply_bytes_def
    by (simp add: s8)
qed

section \<open>Parsing inverts encoding\<close>

lemma subslice_append_drop: "i \<le> j \<Longrightarrow> subslice i j b @ drop j b = drop i b"
  using append_take_drop_id [of "j - i" "drop i b"] by (simp add: subslice_def)

lemma length_subslice [simp]: "j \<le> length b \<Longrightarrow> length (subslice i j b) = j - i"
  by (simp add: subslice_def)

lemma subslice_drop_split: "i \<le> j \<Longrightarrow> drop i b = subslice i j b @ drop j b"
  by (simp add: subslice_append_drop)

lemma be32_subslice: "i + 4 \<le> length b \<Longrightarrow> be32 (un_be32 (drop i b)) = subslice i (i + 4) b"
proof -
  assume "i + 4 \<le> length b"
  then have "un_be32 (drop i b) = un_be32 (take 4 (drop i b))"
    using un_be32_take [of "drop i b" "[]"] by simp
  then show ?thesis using \<open>i + 4 \<le> length b\<close> by (simp add: be32_un_be32 subslice_def)
qed

lemma be64_subslice: "i + 8 \<le> length b \<Longrightarrow> be64 (un_be64 (drop i b)) = subslice i (i + 8) b"
proof -
  assume le: "i + 8 \<le> length b"
  have "be64 (un_be64 b') = be32 (un_be32 b') @ be32 (un_be32 (drop 4 b'))" for b'
  proof -
    have hi: "ucast (drop_bit 32 (push_bit 32 (ucast x) OR ucast y :: 64 word)) = (x :: 32 word)"
      and lo: "ucast (push_bit 32 (ucast x) OR ucast y :: 64 word) = (y :: 32 word)" for x y
      by (rule bit_word_eqI; auto simp: bit_simps dest: bit_imp_le_length)+
    show ?thesis unfolding be64_def un_be64_def hi lo ..
  qed
  then have "be64 (un_be64 (drop i b)) = subslice i (i + 4) b @ subslice (i + 4) (i + 4 + 4) b"
    using le be32_subslice [of i b] be32_subslice [of "i + 4" b] by (simp add: add.commute)
  also have "\<dots> = subslice i (i + 8) b"
    by (simp add: subslice_def take_add [of 4 4 "drop i b", simplified] add.commute)
  finally show ?thesis .
qed

lemma u64_i64 [simp]: "u64_of_i64 (i64_of_u64 w) = w"
  by (simp add: u64_of_i64_def i64_of_u64_def)

lemma list_all_zero: "list_all (\<lambda>c. c = 0) xs \<Longrightarrow> xs = replicate (length xs) (0 :: byte)"
  by (induction xs) auto

lemma req_frame_split:
  assumes "checkRequestFrame pkt = None"
  shows "pkt = Magic @ [Version] @ subslice 5 9 pkt @ subslice 9 13 pkt @ subslice 13 17 pkt @ subslice 17 25 pkt
     @ subslice 25 41 pkt @ replicate 39 0 @ subslice 80 96 pkt" (is "_ = ?rhs")
proof -
  from assms have len: "length pkt = 96" and m: "take 4 pkt = Magic" and v: "pkt ! 4 = Version"
    and pad: "list_all (\<lambda>c. c = 0) (subslice 41 80 pkt)"
    by (auto simp: checkRequestFrame_def req_offsets split: if_splits)
  have "pkt = take 4 pkt @ drop 4 pkt" by simp
  also have "drop 4 pkt = Version # drop 5 pkt"
    using len v Cons_nth_drop_Suc [of 4 pkt] by simp
  also have "drop 5 pkt = subslice 5 9 pkt @ subslice 9 13 pkt @ subslice 13 17 pkt @ subslice 17 25 pkt
      @ subslice 25 41 pkt @ subslice 41 80 pkt @ subslice 80 96 pkt @ drop 96 pkt"
    by (simp add: subslice_append_drop)
  also have "subslice 41 80 pkt = replicate 39 0"
    using list_all_zero [OF pad] len by simp
  finally show ?thesis using m len by simp
qed

lemma ParseRequest_eqI:
  assumes "checkRequestFrame pkt = None"
  shows "\<exists>r. ParseRequest pkt = Inr r \<and> wf_Request r \<and> pkt = req_body r @ subslice 80 96 pkt"
proof -
  from assms have len: "length pkt = 96" by (auto simp: checkRequestFrame_def req_offsets split: if_splits)
  obtain r where r: "ParseRequest pkt = Inr r" using assms by (simp add: ParseRequest_def)
  then have f: "Epoch r = un_be32 (drop 5 pkt)" "SourceID r = un_be32 (drop 9 pkt)"
      "Seq r = un_be32 (drop 13 pkt)" "SentUnixNano r = i64_of_u64 (un_be64 (drop 17 pkt))"
      "Nonce r = subslice 25 41 pkt"
    using assms by (auto simp: ParseRequest_def req_offsets)
  then have "wf_Request r" using len by (simp add: wf_Request_def NonceLen_def)
  moreover have "pkt = req_body r @ subslice 80 96 pkt"
    using req_frame_split [OF assms] len be32_subslice [of 5 pkt] be32_subslice [of 9 pkt]
      be32_subslice [of 13 pkt] be64_subslice [of 17 pkt] by (simp add: req_body_def f)
  ultimately show ?thesis using r by blast
qed

lemma req_body_frame:
  assumes "wf_Request r" and "length t = 16"
  shows "checkRequestFrame (req_body r @ t) = None" and "ParseRequest (req_body r @ t) = Inr r"
proof -
  from assms(1) have n: "length (Nonce r) = 16" by (simp add: wf_Request_def NonceLen_def)
  with assms show c: "checkRequestFrame (req_body r @ t) = None"
    by (simp add: checkRequestFrame_def req_offsets subslice_def req_body_def nth_append list_all_iff)
  have d: "drop 5 (req_body r @ t) = be32 (Epoch r) @ be32 (SourceID r) @ be32 (Seq r)
      @ be64 (u64_of_i64 (SentUnixNano r)) @ Nonce r @ replicate 39 0 @ t"
    by (simp add: req_body_def)
  have d9: "drop 9 (req_body r @ t) = drop 4 (drop 5 (req_body r @ t))"
    and d13: "drop 13 (req_body r @ t) = drop 8 (drop 5 (req_body r @ t))"
    and d17: "drop 17 (req_body r @ t) = drop 12 (drop 5 (req_body r @ t))"
    and d25: "drop 25 (req_body r @ t) = drop 20 (drop 5 (req_body r @ t))"
    by (simp_all del: drop_append)
  show "ParseRequest (req_body r @ t) = Inr r"
    unfolding ParseRequest_def c req_offsets subslice_def option.case d9 d13 d17 d25 d
    using n assms(1) by (simp add: wf_Request_def NonceLen_def)
qed

lemma verified_request_iff:
  "ParseRequest pkt = Inr r \<and> VerifyRequest pkt key \<longleftrightarrow> wf_Request r \<and> pkt = request_bytes key r"
proof
  assume a: "ParseRequest pkt = Inr r \<and> VerifyRequest pkt key"
  then have c: "checkRequestFrame pkt = None" by (auto simp: ParseRequest_def split: option.splits)
  then have r: "wf_Request r" and p: "pkt = req_body r @ subslice 80 96 pkt"
    using ParseRequest_eqI [OF c] a by auto
  have "take 80 pkt = req_body r" using r by (subst p) simp
  then show "wf_Request r \<and> pkt = request_bytes key r"
    using a c r p by (simp add: VerifyRequest_def req_offsets request_bytes_def)
next
  assume a: "wf_Request r \<and> pkt = request_bytes key r"
  then show "ParseRequest pkt = Inr r \<and> VerifyRequest pkt key"
    by (simp add: VerifyRequest_def request_bytes_def req_body_frame req_offsets subslice_def)
qed

text \<open>
  C9. Requests: for any destination buffer of the request length, whatever it held, a datagram
  parses to a request with non-zero ids and verifies under a key exactly when encoding that
  request under that key writes the datagram. So encoding and verified parsing are inverse,
  and every verified request has a single byte representation.
\<close>

theorem request_encode_parse:
  assumes "length dst = RequestLen"
  shows "wf_Request r \<and> EncodeRequest dst key r = Inr pkt \<longleftrightarrow>
     ParseRequest pkt = Inr r \<and> VerifyRequest pkt key \<and> SourceID r \<noteq> 0 \<and> Epoch r \<noteq> 0"
proof -
  have "wf_Request r \<and> EncodeRequest dst key r = Inr pkt \<longleftrightarrow>
      (wf_Request r \<and> pkt = request_bytes key r) \<and> SourceID r \<noteq> 0 \<and> Epoch r \<noteq> 0"
    using assms by (auto simp: EncodeRequest_eq split: if_splits)
  then show ?thesis by (simp add: verified_request_iff [symmetric])
qed

definition sample_request :: Request where
  "sample_request = \<lparr>Epoch = 3, SourceID = 7, Seq = 1, SentUnixNano = 1700000000000000000,
     Nonce = replicate 16 0xAB\<rparr>"

theorem request_encode_parse_witness:
  "\<exists>pkt. EncodeRequest (replicate RequestLen 0xFF) (replicate 32 1) sample_request = Inr pkt
     \<and> ParseRequest pkt = Inr sample_request \<and> VerifyRequest pkt (replicate 32 1)"
proof -
  have len: "length (replicate RequestLen (0xFF :: byte)) = RequestLen" by simp
  have wf: "wf_Request sample_request"
    by (simp add: wf_Request_def sample_request_def in_i64_def NonceLen_def)
  then obtain pkt where "EncodeRequest (replicate RequestLen 0xFF) (replicate 32 1) sample_request = Inr pkt"
    by (simp add: EncodeRequest_eq sample_request_def)
  with wf show ?thesis using request_encode_parse [OF len] by blast
qed

lemma rep_frame_split:
  assumes "ParseReply pkt key = Inr r"
  shows "wf_Reply r \<and> known_Status (rep_Status r) \<and> pkt = rep_body r @ subslice 48 64 pkt
     \<and> subslice 48 64 pkt = take TagLen (tag key repDomain (take 48 pkt))"
proof -
  from assms have len: "length pkt = 64" and m: "take 4 pkt = Magic" and v: "pkt ! 4 = Version"
    and pad: "list_all (\<lambda>c. c = 0) (subslice 34 48 pkt)"
    and t: "subslice 48 64 pkt = take TagLen (tag key repDomain (take 48 pkt))"
    and k: "known_Status (pkt ! 5)"
    by (auto simp: ParseReply_def rep_offsets split: if_splits)
  from assms have f: "rep_Status r = pkt ! 5" "rep_Seq r = un_be32 (drop 6 pkt)"
      "rep_Nonce r = subslice 10 26 pkt" "ResponderUnixNano r = i64_of_u64 (un_be64 (drop 26 pkt))"
    by (auto simp: ParseReply_def rep_offsets split: if_splits)
  then have wf: "wf_Reply r" using len by (simp add: wf_Reply_def NonceLen_def)
  have "pkt = take 4 pkt @ drop 4 pkt" by simp
  also have "drop 4 pkt = Version # pkt ! 5 # drop 6 pkt"
    using len v Cons_nth_drop_Suc [of 4 pkt] Cons_nth_drop_Suc [of 5 pkt] by simp
  also have "drop 6 pkt = subslice 6 10 pkt @ subslice 10 26 pkt @ subslice 26 34 pkt @ subslice 34 48 pkt
      @ subslice 48 64 pkt @ drop 64 pkt"
    by (simp add: subslice_append_drop)
  also have "subslice 34 48 pkt = replicate 14 0"
    using list_all_zero [OF pad] len by simp
  finally have "pkt = rep_body r @ subslice 48 64 pkt"
    using m len be32_subslice [of 6 pkt] be64_subslice [of 26 pkt] by (simp add: rep_body_def f)
  then show ?thesis using wf k t f by simp
qed

lemma ParseReply_reply_bytes:
  assumes "wf_Reply r" and "known_Status (rep_Status r)"
  shows "ParseReply (reply_bytes key r) key = Inr r"
proof -
  let ?t = "take TagLen (tag key repDomain (rep_body r))"
  from assms(1) have n: "length (rep_Nonce r) = 16" by (simp add: wf_Reply_def NonceLen_def)
  have d: "drop 6 (rep_body r @ ?t) = be32 (rep_Seq r) @ rep_Nonce r
      @ be64 (u64_of_i64 (ResponderUnixNano r)) @ replicate 14 0 @ ?t"
    by (simp add: rep_body_def)
  have d10: "drop 10 (rep_body r @ ?t) = drop 4 (drop 6 (rep_body r @ ?t))"
    and d26: "drop 26 (rep_body r @ ?t) = drop 20 (drop 6 (rep_body r @ ?t))"
    by (simp_all del: drop_append)
  have nth: "(rep_body r @ ?t) ! 4 = Version" "(rep_body r @ ?t) ! 5 = rep_Status r"
    by (simp_all add: rep_body_def nth_append)
  have m: "take 4 (rep_body r @ ?t) = Magic" by (simp add: rep_body_def)
  have p: "take 14 (drop 34 (rep_body r @ ?t)) = replicate 14 0"
    using n by (simp add: rep_body_def)
  have fields: "\<lparr>rep_Status = rep_Status r, rep_Seq = un_be32 (drop 6 (rep_body r @ ?t)),
      rep_Nonce = take 16 (drop 10 (rep_body r @ ?t)),
      ResponderUnixNano = i64_of_u64 (un_be64 (drop 26 (rep_body r @ ?t)))\<rparr> = r"
    unfolding d10 d26 d using n assms(1) by (simp add: wf_Reply_def NonceLen_def)
  show ?thesis
    unfolding reply_bytes_def ParseReply_def rep_offsets subslice_def
    using assms nth m p fields by (simp add: list_all_iff rep_offsets)
qed

text \<open>
  C10. Replies: for any destination buffer of the reply length, a datagram parses under a key to a
  reply exactly when encoding that reply under that key writes the datagram. So a source
  accepts precisely the encodings a responder that holds its path key can write, each in one
  byte representation.
\<close>

theorem reply_encode_parse:
  assumes "length dst = ReplyLen"
  shows "wf_Reply r \<and> EncodeReply dst key r = Inr pkt \<longleftrightarrow> ParseReply pkt key = Inr r"
proof
  assume "wf_Reply r \<and> EncodeReply dst key r = Inr pkt"
  then show "ParseReply pkt key = Inr r"
    using assms by (auto simp: EncodeReply_def writeReply_eq ParseReply_reply_bytes split: if_splits)
next
  assume "ParseReply pkt key = Inr r"
  note s = rep_frame_split [OF this]
  then have "take 48 pkt = rep_body r" by (metis append_eq_conv_conj length_rep_body)
  with s have "pkt = reply_bytes key r" by (metis reply_bytes_def)
  with s show "wf_Reply r \<and> EncodeReply dst key r = Inr pkt"
    using assms by (simp add: EncodeReply_def writeReply_eq)
qed

theorem reply_encode_parse_witness:
  "\<exists>pkt. ParseReply pkt (replicate 32 1)
     = Inr \<lparr>rep_Status = StatusOK, rep_Seq = 1, rep_Nonce = replicate 16 0xAB, ResponderUnixNano = 5\<rparr>"
    (is "\<exists>pkt. ParseReply pkt ?k = Inr ?r")
proof -
  have len: "length (replicate ReplyLen (0xFF :: byte)) = ReplyLen" by simp
  have wf: "wf_Reply ?r" by (simp add: wf_Reply_def in_i64_def NonceLen_def)
  then obtain pkt where "EncodeReply (replicate ReplyLen 0xFF) ?k ?r = Inr pkt"
    by (simp add: EncodeReply_def known_Status_def StatusOK_def StatusRateLimited_def)
  with wf show ?thesis using reply_encode_parse [OF len] by blast
qed

section \<open>Key derivation\<close>

lemma be32_inj [simp]: "be32 v = be32 w \<longleftrightarrow> v = w"
  by (metis append_Nil2 un_be32_be32)

text \<open>Length prefixes make the writing of parts injective: no two sequences of parts shorter than
  four gigabytes are written to the same bytes.\<close>

lemma writeLP_inj:
  assumes "writeLP [] p @ s = writeLP [] q @ t" and "length p < 2 ^ 32" and "length q < 2 ^ 32"
  shows "p = q \<and> s = t"
proof -
  from assms(1) have "be32 (of_nat (length p)) @ p @ s = be32 (of_nat (length q)) @ q @ t"
    by (simp add: writeLP_def)
  then have l: "(of_nat (length p) :: 32 word) = of_nat (length q)" and ps: "p @ s = q @ t"
    by (auto simp: append_eq_append_conv)
  from l have "unat (of_nat (length p) :: 32 word) = unat (of_nat (length q) :: 32 word)"
    by simp
  then have "length p = length q"
    using assms(2,3) by (simp add: unat_of_nat take_bit_nat_eq_self)
  with ps show ?thesis by simp
qed

lemma path_key_input_writeLP:
  "path_key_input s e = writeLP [] DerivationLabel @ writeLP [] (be32 s) @ writeLP [] (be32 e) @ []"
  by (simp add: path_key_input_def writeLP_def)

text \<open>
  C12. Path keys: \<^verbatim>\<open>DerivePathKey\<close> computes the HMAC of one byte string per pair of source id
  and epoch, and two different pairs never give the same byte string.
\<close>

theorem DerivePathKey_input_inj:
  "DerivePathKey target s e = hmac_sha256 target (path_key_input s e) \<and>
   (path_key_input s e = path_key_input s' e' \<longleftrightarrow> s = s' \<and> e = e')"
proof -
  have "s = s' \<and> e = e'" if "path_key_input s e = path_key_input s' e'"
  proof -
    from that have "writeLP [] (be32 s) @ writeLP [] (be32 e) @ [] = writeLP [] (be32 s') @ writeLP [] (be32 e') @ []"
      unfolding path_key_input_writeLP by simp
    then have "be32 s = be32 s' \<and> writeLP [] (be32 e) @ [] = writeLP [] (be32 e') @ []"
      by (rule writeLP_inj) simp_all
    then show ?thesis using writeLP_inj [of "be32 e" "[]" "be32 e'" "[]"] by simp
  qed
  then show ?thesis by (auto simp: DerivePathKey_def)
qed

end
