(* ===== verification/Nonce_Cache.thy ===== *)
theory Nonce_Cache
  imports Beacon_Wire "HOL-Library.While_Combinator"
begin

text \<open>
  The replay cache of a beacon source (\<^verbatim>\<open>NonceCache\<close> of \<^verbatim>\<open>src/beacon/responder.go\<close>): an
  open-addressing hash table with linear probing, whose slots are found by a seeded hash. The
  seeded hash \<^verbatim>\<open>maphash.Bytes(c.seed, _)\<close> is random, so it is a field of the cache and every
  statement holds for every hash function. A probe loop of the source has no bound of its own;
  the model gives it one round per slot, after which the source's loop would repeat itself
  for ever, and \<open>None\<close> stands for that. The interface a client relies on is the locale
  \<open>nonce_store\<close>; the cache is shown to provide it.
\<close>

unbundle bit_operations_syntax

section \<open>The table\<close>

record nonceSlot =
  sl_nonce :: bytes
  sl_expires :: int

record NonceCache =
  seed_hash :: "bytes \<Rightarrow> 64 word"
  slots :: "nonceSlot list"
  used :: nat
  fullUntil :: int

definition nonceSlotsMin :: nat where "nonceSlotsMin = 256"
definition nonceSlotsMax :: nat where "nonceSlotsMax = 4096"

definition empty_slot :: nonceSlot where
  "empty_slot = \<lparr>sl_nonce = replicate 16 0, sl_expires = 0\<rparr>"

definition NewNonceCache :: "(bytes \<Rightarrow> 64 word) \<Rightarrow> NonceCache" where
  "NewNonceCache h = \<lparr>seed_hash = h, slots = [], used = 0, fullUntil = 0\<rparr>"

definition Len :: "NonceCache \<Rightarrow> nat" where
  "Len c = used c"

text \<open>\<open>mask = uint64(len(c.slots) - 1)\<close>, and the two index computations of every probe loop.\<close>

definition slot_mask :: "nonceSlot list \<Rightarrow> 64 word" where
  "slot_mask sl = of_nat (length sl) - 1"

definition slot_start :: "(bytes \<Rightarrow> 64 word) \<Rightarrow> nonceSlot list \<Rightarrow> bytes \<Rightarrow> nat" where
  "slot_start h sl n = unat (h n AND slot_mask sl)"

definition slot_next :: "nonceSlot list \<Rightarrow> nat \<Rightarrow> nat" where
  "slot_next sl i = unat ((of_nat i + 1) AND slot_mask sl)"

fun probe :: "nat \<Rightarrow> (nonceSlot \<Rightarrow> bool) \<Rightarrow> nonceSlot list \<Rightarrow> nat \<Rightarrow> nat option" where
  "probe 0 stop sl i = None"
| "probe (Suc fuel) stop sl i =
     (if stop (sl ! i) then Some i else probe fuel stop sl (slot_next sl i))"

definition Seen :: "NonceCache \<Rightarrow> bytes \<Rightarrow> int \<Rightarrow> bool option" where
  "Seen c n nowNs =
     (let sl = slots c in
      if length sl = 0 then Some False
      else case probe (length sl) (\<lambda>s. sl_expires s = 0 \<or> sl_nonce s = n) sl
                  (slot_start (seed_hash c) sl n) of
        None \<Rightarrow> None
      | Some i \<Rightarrow> Some (if sl_expires (sl ! i) = 0 then False else sl_expires (sl ! i) > nowNs))"

text \<open>The first loop of \<^verbatim>\<open>compact\<close>: how many slots are unexpired, and the earliest expiry among
  them (zero when there is none).\<close>

fun live_scan :: "int \<Rightarrow> nonceSlot list \<Rightarrow> nat \<times> int \<Rightarrow> nat \<times> int" where
  "live_scan nowNs [] acc = acc"
| "live_scan nowNs (s # sl) (live, earliest) =
     (if sl_expires s > nowNs
      then live_scan nowNs sl
             (live + 1, if earliest = 0 \<or> sl_expires s < earliest then sl_expires s else earliest)
      else live_scan nowNs sl (live, earliest))"

definition grown_size :: "nat \<Rightarrow> nat" where
  "grown_size live =
     while (\<lambda>size. live + 1 > size * 6 div 10 \<and> size < nonceSlotsMax) (\<lambda>size. size * 2) nonceSlotsMin"

text \<open>The last loop of \<^verbatim>\<open>compact\<close>: re-insert the unexpired slots, counting them.\<close>

fun reinsert :: "(bytes \<Rightarrow> 64 word) \<Rightarrow> int \<Rightarrow> nonceSlot list \<Rightarrow> nonceSlot list \<times> nat \<Rightarrow> (nonceSlot list \<times> nat) option" where
  "reinsert h nowNs [] acc = Some acc"
| "reinsert h nowNs (s # old) (sl, n) =
     (if sl_expires s \<le> nowNs then reinsert h nowNs old (sl, n)
      else case probe (length sl) (\<lambda>x. sl_expires x = 0) sl (slot_start h sl (sl_nonce s)) of
        None \<Rightarrow> None
      | Some i \<Rightarrow> reinsert h nowNs old (sl[i := s], n + 1))"

definition compact :: "NonceCache \<Rightarrow> int \<Rightarrow> (NonceCache \<times> bool) option" where
  "compact c nowNs =
     (let (live, earliest) = live_scan nowNs (slots c) (0, 0) in
      if live \<ge> NonceCacheSize then Some (c\<lparr>fullUntil := earliest\<rparr>, False)
      else
        let size = grown_size live;
            old = (if length (slots c) = size then filter (\<lambda>s. sl_expires s > nowNs) (slots c) else slots c)
        in case reinsert (seed_hash c) nowNs old (replicate size empty_slot, 0) of
             None \<Rightarrow> None
           | Some (sl, n) \<Rightarrow> Some (c\<lparr>fullUntil := 0, slots := sl, used := n\<rparr>, True))"

text \<open>The probe loop of \<^verbatim>\<open>Insert\<close>, once there is room.\<close>

definition insert_probe :: "NonceCache \<Rightarrow> bytes \<Rightarrow> int \<Rightarrow> (NonceCache \<times> bool) option" where
  "insert_probe c n expiresNs =
     (let sl = slots c in
      case probe (length sl) (\<lambda>s. sl_expires s = 0 \<or> sl_nonce s = n) sl
             (slot_start (seed_hash c) sl n) of
        None \<Rightarrow> None
      | Some i \<Rightarrow>
          if sl_expires (sl ! i) = 0
          then Some (c\<lparr>slots := sl[i := \<lparr>sl_nonce = n, sl_expires = expiresNs\<rparr>], used := used c + 1\<rparr>, True)
          else Some (c\<lparr>slots := sl[i := (sl ! i)\<lparr>sl_expires := expiresNs\<rparr>]\<rparr>, True))"

definition Insert :: "NonceCache \<Rightarrow> bytes \<Rightarrow> int \<Rightarrow> int \<Rightarrow> (NonceCache \<times> bool) option" where
  "Insert c n expires nowNs =
     (let expiresNs = (if expires \<le> 0 then 1 else expires) in
      if used c \<ge> NonceCacheSize \<or> used c + 1 > length (slots c) * 6 div 10 then
        (if nowNs < fullUntil c then Some (c, False)
         else case compact c nowNs of
           None \<Rightarrow> None
         | Some (c', ok) \<Rightarrow> if \<not> ok then Some (c', False) else insert_probe c' n expiresNs)
      else insert_probe c n expiresNs)"

section \<open>Index arithmetic\<close>

definition table_size :: "nat \<Rightarrow> bool" where
  "table_size N \<longleftrightarrow> (\<exists>k. N = 2 ^ k \<and> k \<le> 12)"

lemma mask_mod:
  assumes "N = 2 ^ k" and "k \<le> 12"
  shows "unat ((w :: 64 word) AND (of_nat N - 1)) = unat w mod N"
proof -
  have "w AND (of_nat N - 1) = take_bit k w"
    using assms by (simp add: take_bit_eq_mask mask_eq_exp_minus_1)
  then have "unat (w AND (of_nat N - 1)) = take_bit k (unat w)"
    by (simp only: unsigned_take_bit_eq)
  then show ?thesis using assms(1) by (simp only: take_bit_eq_mod)
qed

lemma slot_start_mod: "table_size (length sl) \<Longrightarrow> slot_start h sl n = unat (h n) mod length sl"
  using mask_mod [of "length sl" _ "h n"] by (auto simp only: table_size_def slot_start_def slot_mask_def)

lemma slot_next_mod:
  assumes "table_size (length sl)" and "i < length sl"
  shows "slot_next sl i = (i + 1) mod length sl"
proof -
  from assms(1) obtain k where k: "length sl = 2 ^ k" "k \<le> 12" by (auto simp: table_size_def)
  have "(2 :: nat) ^ k \<le> 2 ^ 12" using k(2) by (intro power_increasing) simp_all
  with assms(2) k have "i + 1 < 2 ^ 64" by simp
  then have "unat (of_nat (i + 1) :: 64 word) = i + 1"
    by (simp add: unat_of_nat take_bit_nat_eq_self del: of_nat_add of_nat_Suc)
  then have "unat (of_nat i + 1 :: 64 word) = i + 1" by (simp add: add.commute)
  then show ?thesis using mask_mod [OF k, of "of_nat i + 1"] by (simp only: slot_next_def slot_mask_def)
qed

lemma table_size_pos: "table_size N \<Longrightarrow> 0 < N"
  by (auto simp: table_size_def)

lemma reach_index: "j < N \<Longrightarrow> \<exists>d < N. j = (i + d) mod (N :: nat)"
proof -
  assume j: "j < N"
  let ?d = "(j + (N - i mod N)) mod N"
  have "(i + ?d) mod N = (i mod N + (j + (N - i mod N))) mod N"
    by (simp add: mod_simps)
  also have "i mod N + (j + (N - i mod N)) = j + N"
    using j mod_less_divisor [of N i] by linarith
  finally have "(i + ?d) mod N = j" using j by simp
  moreover have "?d < N" using j by simp
  ultimately show ?thesis by metis
qed

lemma probe_Some:
  assumes "table_size (length sl)" and "i < length sl" and "probe f stop sl i = Some j"
  shows "\<exists>d < f. j = (i + d) mod length sl \<and> stop (sl ! j)
     \<and> (\<forall>d' < d. \<not> stop (sl ! ((i + d') mod length sl)))"
  using assms
proof (induction f arbitrary: i)
  case 0
  then show ?case by simp
next
  case (Suc f)
  let ?N = "length sl"
  show ?case
  proof (cases "stop (sl ! i)")
    case True
    with Suc.prems show ?thesis by (intro exI [of _ 0]) auto
  next
    case False
    with Suc.prems have "probe f stop sl ((i + 1) mod ?N) = Some j" by (simp add: slot_next_mod)
    then obtain d where d: "d < f" "j = ((i + 1) mod ?N + d) mod ?N" "stop (sl ! j)"
        "\<forall>d' < d. \<not> stop (sl ! (((i + 1) mod ?N + d') mod ?N))"
      using Suc.IH [of "(i + 1) mod ?N"] Suc.prems(1) table_size_pos by fastforce
    have "\<not> stop (sl ! ((i + d') mod ?N))" if "d' < Suc d" for d'
      using that False d(4) Suc.prems(2) by (cases d') (auto simp: mod_simps)
    with d show ?thesis by (intro exI [of _ "Suc d"]) (auto simp: mod_simps)
  qed
qed

lemma probe_total:
  assumes "table_size (length sl)" and "i < length sl" and "d < f" and "stop (sl ! ((i + d) mod length sl))"
  shows "\<exists>j. probe f stop sl i = Some j"
  using assms
proof (induction f arbitrary: i d)
  case 0
  then show ?case by simp
next
  case (Suc f)
  let ?N = "length sl"
  show ?case
  proof (cases "stop (sl ! i)")
    case True
    then show ?thesis by simp
  next
    case False
    with Suc.prems obtain d' where d: "d = Suc d'" by (cases d) auto
    have "\<exists>j. probe f stop sl ((i + 1) mod ?N) = Some j"
      using Suc.prems d table_size_pos [OF Suc.prems(1)]
      by (intro Suc.IH [of _ d']) (auto simp: mod_simps)
    with False Suc.prems show ?thesis by (simp add: slot_next_mod)
  qed
qed

section \<open>The table invariant\<close>

definition full :: "nonceSlot \<Rightarrow> bool" where
  "full s \<longleftrightarrow> sl_expires s \<noteq> 0"

definition uniq :: "nonceSlot list \<Rightarrow> bool" where
  "uniq sl \<longleftrightarrow> (\<forall>i < length sl. \<forall>j < length sl. full (sl ! i) \<and> full (sl ! j)
     \<and> sl_nonce (sl ! i) = sl_nonce (sl ! j) \<longrightarrow> i = j)"

text \<open>Between the home slot of a held nonce and its own slot there is no empty slot.\<close>

definition chained :: "(bytes \<Rightarrow> 64 word) \<Rightarrow> nonceSlot list \<Rightarrow> bytes \<Rightarrow> nat \<Rightarrow> bool" where
  "chained h sl n j \<longleftrightarrow> (\<exists>d < length sl. j = (unat (h n) + d) mod length sl
     \<and> (\<forall>d' < d. full (sl ! ((unat (h n) + d') mod length sl))))"

definition table_ok :: "(bytes \<Rightarrow> 64 word) \<Rightarrow> nonceSlot list \<Rightarrow> bool" where
  "table_ok h sl \<longleftrightarrow> table_size (length sl) \<and> (\<forall>s \<in> set sl. 0 \<le> sl_expires s) \<and> uniq sl
     \<and> (\<forall>j < length sl. full (sl ! j) \<longrightarrow> chained h sl (sl_nonce (sl ! j)) j)"

definition held :: "nonceSlot list \<Rightarrow> (bytes \<times> int) set" where
  "held sl = (\<lambda>s. (sl_nonce s, sl_expires s)) ` {s \<in> set sl. full s}"

definition nfull :: "nonceSlot list \<Rightarrow> nat" where
  "nfull sl = length (filter full sl)"

lemma nfull_map: "nfull sl = length (filter (\<lambda>b. b) (map full sl))"
  by (simp add: nfull_def filter_map comp_def)

lemma held_iff:
  "(n, e) \<in> held sl \<longleftrightarrow> (\<exists>i < length sl. full (sl ! i) \<and> sl_nonce (sl ! i) = n \<and> sl_expires (sl ! i) = e)"
  by (auto simp: held_def in_set_conv_nth)

lemma held_unique: "uniq sl \<Longrightarrow> (n, e) \<in> held sl \<Longrightarrow> (n, e') \<in> held sl \<Longrightarrow> e = e'"
  by (auto simp: held_iff uniq_def)

lemma length_filter_update:
  "j < length xs \<Longrightarrow> \<not> P (xs ! j) \<Longrightarrow> P x \<Longrightarrow> length (filter P (xs[j := x])) = Suc (length (filter P xs))"
proof (induction xs arbitrary: j)
  case Nil
  then show ?case by simp
next
  case (Cons y ys)
  then show ?case by (cases j) auto
qed

lemma empty_slot_exists: "nfull sl < length sl \<Longrightarrow> \<exists>j < length sl. \<not> full (sl ! j)"
proof (rule ccontr)
  assume "nfull sl < length sl" and "\<not> (\<exists>j < length sl. \<not> full (sl ! j))"
  then have "\<forall>s \<in> set sl. full s" by (auto simp: in_set_conv_nth)
  then have "nfull sl = length sl" by (simp add: nfull_def)
  with \<open>nfull sl < length sl\<close> show False by simp
qed

lemma chained_mono:
  assumes "chained h sl n j" and "length sl' = length sl"
    and "\<And>i. i < length sl \<Longrightarrow> full (sl ! i) \<Longrightarrow> full (sl' ! i)"
  shows "chained h sl' n j"
proof -
  from assms(1) obtain d where d: "d < length sl" "j = (unat (h n) + d) mod length sl"
      "\<forall>d' < d. full (sl ! ((unat (h n) + d') mod length sl))"
    by (auto simp: chained_def)
  then have "0 < length sl" by linarith
  with d assms(2,3) show ?thesis unfolding chained_def by (intro exI [of _ d]) simp
qed

text \<open>Writing a new nonce into the first empty slot of its probe sequence keeps the invariant.\<close>

lemma table_ok_insert:
  assumes ok: "table_ok h sl" and j: "j < length sl" "\<not> full (sl ! j)" "chained h sl n j"
    and new: "n \<notin> fst ` held sl" and s: "full s" "sl_nonce s = n" "0 \<le> sl_expires s"
  shows "table_ok h (sl[j := s])"
proof -
  let ?sl = "sl[j := s]"
  have full_mono: "full (?sl ! i)" if "full (sl ! i)" "i < length sl" for i
    using that s(1) by (cases "i = j") auto
  have "uniq ?sl"
    unfolding uniq_def
  proof (intro allI impI, elim conjE)
    fix a b
    assume ab: "a < length ?sl" "b < length ?sl" "full (?sl ! a)" "full (?sl ! b)"
      "sl_nonce (?sl ! a) = sl_nonce (?sl ! b)"
    have old: "sl_nonce (sl ! i) \<noteq> n" if "i < length sl" "full (sl ! i)" for i
    proof -
      have "(sl_nonce (sl ! i), sl_expires (sl ! i)) \<in> held sl" using that by (auto simp: held_iff)
      then show ?thesis using new by force
    qed
    show "a = b"
      using ab ok old s(2) j(1) by (cases "a = j"; cases "b = j") (auto simp: table_ok_def uniq_def)
  qed
  moreover have "chained h ?sl (sl_nonce (?sl ! i)) i" if "i < length ?sl" "full (?sl ! i)" for i
  proof (cases "i = j")
    case True
    have "chained h ?sl n j" by (rule chained_mono [OF j(3)]) (auto intro: full_mono)
    with True j(1) s(2) show ?thesis by simp
  next
    case False
    with that ok have "chained h sl (sl_nonce (sl ! i)) i" by (simp add: table_ok_def)
    with False show ?thesis by (auto intro: chained_mono full_mono)
  qed
  ultimately show ?thesis
    using ok s(3) unfolding table_ok_def by (auto dest: set_update_subset_insert [THEN subsetD])
qed

lemma held_insert:
  "j < length sl \<Longrightarrow> \<not> full (sl ! j) \<Longrightarrow> full s \<Longrightarrow>
     held (sl[j := s]) = insert (sl_nonce s, sl_expires s) (held sl)"
proof (intro set_eqI)
  fix p
  assume "j < length sl" "\<not> full (sl ! j)" "full s"
  then show "p \<in> held (sl[j := s]) \<longleftrightarrow> p \<in> insert (sl_nonce s, sl_expires s) (held sl)"
    by (cases p) (auto simp: held_iff nth_list_update split: if_splits)
qed

text \<open>Renewing the expiry of a held nonce keeps the invariant.\<close>

lemma table_ok_renew:
  assumes ok: "table_ok h sl" and j: "j < length sl" "full (sl ! j)" and e: "0 < e"
  shows "table_ok h (sl[j := (sl ! j)\<lparr>sl_expires := e\<rparr>])"
proof -
  let ?sl = "sl[j := (sl ! j)\<lparr>sl_expires := e\<rparr>]"
  have f: "full (?sl ! i) \<longleftrightarrow> full (sl ! i)" and n: "sl_nonce (?sl ! i) = sl_nonce (sl ! i)"
    if "i < length sl" for i
    using that j e by (auto simp: nth_list_update full_def)
  have "chained h ?sl (sl_nonce (?sl ! i)) i" if "i < length sl" "full (?sl ! i)" for i
  proof -
    have "chained h sl (sl_nonce (sl ! i)) i" using that f ok by (simp add: table_ok_def)
    then show ?thesis using f n that(1) by (auto intro: chained_mono)
  qed
  moreover have "uniq ?sl" using ok f n by (simp add: uniq_def table_ok_def)
  ultimately show ?thesis
    using ok e unfolding table_ok_def by (auto dest: set_update_subset_insert [THEN subsetD])
qed

lemma held_renew:
  assumes "uniq sl" "j < length sl" "full (sl ! j)" "e \<noteq> 0"
  shows "held (sl[j := (sl ! j)\<lparr>sl_expires := e\<rparr>])
     = insert (sl_nonce (sl ! j), e) {p \<in> held sl. fst p \<noteq> sl_nonce (sl ! j)}"
proof (intro set_eqI)
  fix p
  show "p \<in> held (sl[j := (sl ! j)\<lparr>sl_expires := e\<rparr>])
      \<longleftrightarrow> p \<in> insert (sl_nonce (sl ! j), e) {p \<in> held sl. fst p \<noteq> sl_nonce (sl ! j)}"
    using assms
    by (cases p) (auto simp: held_iff nth_list_update uniq_def full_def split: if_splits)
qed

section \<open>Probe loops end\<close>

lemma probe_home:
  assumes ok: "table_ok h sl" and room: "nfull sl < length sl" and e: "\<And>s. \<not> full s \<Longrightarrow> stop s"
  shows "\<exists>j d. probe (length sl) stop sl (slot_start h sl n) = Some j \<and> d < length sl
     \<and> j = (unat (h n) + d) mod length sl \<and> stop (sl ! j)
     \<and> (\<forall>d' < d. \<not> stop (sl ! ((unat (h n) + d') mod length sl)))"
proof -
  let ?N = "length sl" and ?i = "slot_start h sl n"
  have size: "table_size ?N" using ok by (simp add: table_ok_def)
  have i: "?i = unat (h n) mod ?N" using slot_start_mod [OF size] .
  then have "?i < ?N" using table_size_pos [OF size] by simp
  obtain k where k: "k < ?N" "\<not> full (sl ! k)" using empty_slot_exists [OF room] by blast
  obtain d where "d < ?N" "k = (?i + d) mod ?N" using reach_index [OF k(1)] by blast
  with k e have "stop (sl ! ((?i + d) mod ?N))" by simp
  then obtain j where j: "probe ?N stop sl ?i = Some j"
    using probe_total [OF size \<open>?i < ?N\<close> \<open>d < ?N\<close>] by blast
  from probe_Some [OF size \<open>?i < ?N\<close> this] obtain d where
    "d < ?N" "j = (?i + d) mod ?N" "stop (sl ! j)" "\<forall>d' < d. \<not> stop (sl ! ((?i + d') mod ?N))"
    by blast
  with j show ?thesis unfolding i by (intro exI [of _ j] exI [of _ d]) (simp add: mod_simps)
qed

lemma find_slot:
  assumes ok: "table_ok h sl" and room: "nfull sl < length sl"
  shows "\<exists>j. probe (length sl) (\<lambda>s. sl_expires s = 0 \<or> sl_nonce s = n) sl (slot_start h sl n) = Some j
     \<and> j < length sl \<and> (full (sl ! j) \<longrightarrow> sl_nonce (sl ! j) = n)
     \<and> (\<not> full (sl ! j) \<longrightarrow> n \<notin> fst ` held sl \<and> chained h sl n j)"
proof -
  let ?N = "length sl" and ?stop = "\<lambda>s. sl_expires s = 0 \<or> sl_nonce s = n"
  obtain j d where j: "probe ?N ?stop sl (slot_start h sl n) = Some j" "d < ?N"
      "j = (unat (h n) + d) mod ?N" "?stop (sl ! j)"
      "\<forall>d' < d. \<not> ?stop (sl ! ((unat (h n) + d') mod ?N))"
    using probe_home [OF ok room, of ?stop n] by (auto simp: full_def)
  have jN: "j < ?N" using j(2,3) by (metis mod_less_divisor not_less_zero neq0_conv)
  have "n \<notin> fst ` held sl" if e: "\<not> full (sl ! j)"
  proof
    assume "n \<in> fst ` held sl"
    then obtain m where m: "m < ?N" "full (sl ! m)" "sl_nonce (sl ! m) = n"
      by (auto simp: held_def in_set_conv_nth)
    with ok obtain dm where dm: "m = (unat (h n) + dm) mod ?N"
        "\<forall>d' < dm. full (sl ! ((unat (h n) + d') mod ?N))"
      by (auto simp: table_ok_def chained_def)
    consider "dm < d" | "dm = d" | "d < dm" by linarith
    then show False using j(3,5) dm m e by cases auto
  qed
  moreover have "chained h sl n j"
    using j(2,3,5) by (auto simp: chained_def full_def)
  ultimately show ?thesis using j(1,4) jN by (auto simp: full_def)
qed

lemma find_empty:
  assumes ok: "table_ok h sl" and room: "nfull sl < length sl"
  shows "\<exists>j. probe (length sl) (\<lambda>s. sl_expires s = 0) sl (slot_start h sl n) = Some j
     \<and> j < length sl \<and> \<not> full (sl ! j) \<and> chained h sl n j"
proof -
  let ?N = "length sl" and ?stop = "\<lambda>s :: nonceSlot. sl_expires s = 0"
  obtain j d where "probe ?N ?stop sl (slot_start h sl n) = Some j" "d < ?N"
      "j = (unat (h n) + d) mod ?N" "?stop (sl ! j)"
      "\<forall>d' < d. \<not> ?stop (sl ! ((unat (h n) + d') mod ?N))"
    using probe_home [OF ok room, of ?stop n] by (auto simp: full_def)
  moreover from this have "j < ?N" by (metis mod_less_divisor not_less_zero neq0_conv)
  ultimately show ?thesis by (intro exI [of _ j]) (auto simp: chained_def full_def)
qed

section \<open>Compaction\<close>

lemma live_scan_count:
  "fst (live_scan t sl (a, b)) = a + length (filter (\<lambda>s. sl_expires s > t) sl)"
  by (induction sl arbitrary: a b) auto

lemma live_scan_earliest_pos:
  "0 \<le> t \<Longrightarrow> 0 < b \<Longrightarrow>
     0 < snd (live_scan t sl (a, b)) \<and> snd (live_scan t sl (a, b)) \<le> b
     \<and> (\<forall>s \<in> set sl. t < sl_expires s \<longrightarrow> snd (live_scan t sl (a, b)) \<le> sl_expires s)"
proof (induction sl arbitrary: a b)
  case Nil
  then show ?case by simp
next
  case (Cons s sl)
  show ?case
  proof (cases "t < sl_expires s")
    case True
    let ?b = "if sl_expires s < b then sl_expires s else b"
    have "0 < ?b" using True Cons.prems by auto
    note IH = Cons.IH [OF Cons.prems(1) this, of "a + 1"]
    with True Cons.prems show ?thesis by (auto split: if_splits)
  next
    case False
    with Cons show ?thesis by auto
  qed
qed

lemma live_scan_earliest:
  "0 \<le> t \<Longrightarrow> s \<in> set sl \<Longrightarrow> t < sl_expires s \<Longrightarrow> snd (live_scan t sl (a, 0)) \<le> sl_expires s"
proof (induction sl arbitrary: a)
  case Nil
  then show ?case by simp
next
  case (Cons x sl)
  show ?case
  proof (cases "t < sl_expires x")
    case True
    then have "0 < sl_expires x" using Cons.prems(1) by linarith
    note live_scan_earliest_pos [OF Cons.prems(1) this, of sl "a + 1"]
    with True Cons.prems show ?thesis by auto
  next
    case False
    with Cons show ?thesis by auto
  qed
qed

lemma grown_size_while:
  "table_size (grown_size live) \<and> nonceSlotsMin \<le> grown_size live
   \<and> (live + 1 \<le> grown_size live * 6 div 10 \<or> nonceSlotsMax \<le> grown_size live)"
  unfolding grown_size_def
proof (rule while_rule [where P = "\<lambda>size. table_size size \<and> nonceSlotsMin \<le> size"
      and r = "measure (\<lambda>size. nonceSlotsMax - size)"])
  have "nonceSlotsMin = 2 ^ 8" by (simp add: nonceSlotsMin_def)
  then have "table_size nonceSlotsMin" unfolding table_size_def by (intro exI [of _ 8]) simp
  then show "table_size nonceSlotsMin \<and> nonceSlotsMin \<le> nonceSlotsMin" by simp
next
  fix s
  assume s: "table_size s \<and> nonceSlotsMin \<le> s" "live + 1 > s * 6 div 10 \<and> s < nonceSlotsMax"
  then obtain k where k: "s = 2 ^ k" "k \<le> 12" by (auto simp: table_size_def)
  have "k \<noteq> 12" using s(2) k(1) by (auto simp: nonceSlotsMax_def)
  then have "s * 2 = 2 ^ Suc k" "Suc k \<le> 12" using k by auto
  with s(1) show "table_size (s * 2) \<and> nonceSlotsMin \<le> s * 2"
    unfolding table_size_def by (metis mult_2_right trans_le_add1)
  show "(s * 2, s) \<in> measure (\<lambda>size. nonceSlotsMax - size)"
    using s by (auto simp: nonceSlotsMin_def)
qed auto

lemma NonceCacheSize_val [simp]: "NonceCacheSize = 2400"
  by (simp add: NonceCacheSize_def SourceRatePerSecond_def NonceWindow_def FreshnessWindow_def second_def)

lemma grown_size_room:
  assumes "live < NonceCacheSize"
  shows "live + 1 \<le> grown_size live * 6 div 10"
proof -
  have "live + 1 \<le> g * 6 div 10" if "nonceSlotsMax \<le> g" for g
    using that assms by (simp add: nonceSlotsMax_def)
  then show ?thesis using grown_size_while [of live] by blast
qed

lemma reinsert_ok:
  assumes "table_ok h sl" and "0 \<le> t"
    and "distinct (map sl_nonce (filter (\<lambda>s. t < sl_expires s) old))"
    and "\<forall>s \<in> set old. t < sl_expires s \<longrightarrow> sl_nonce s \<notin> fst ` held sl"
    and "nfull sl + length (filter (\<lambda>s. t < sl_expires s) old) < length sl"
  shows "\<exists>sl'. reinsert h t old (sl, nfull sl) = Some (sl', nfull sl') \<and> table_ok h sl'
     \<and> length sl' = length sl \<and> nfull sl' = nfull sl + length (filter (\<lambda>s. t < sl_expires s) old)
     \<and> held sl' = held sl \<union> (\<lambda>s. (sl_nonce s, sl_expires s)) ` {s \<in> set old. t < sl_expires s}"
  using assms
proof (induction old arbitrary: sl)
  case Nil
  then show ?case by simp
next
  case (Cons s old)
  show ?case
  proof (cases "t < sl_expires s")
    case False
    with Cons.prems have "\<exists>sl'. reinsert h t old (sl, nfull sl) = Some (sl', nfull sl') \<and> table_ok h sl'
     \<and> length sl' = length sl \<and> nfull sl' = nfull sl + length (filter (\<lambda>s. t < sl_expires s) old)
     \<and> held sl' = held sl \<union> (\<lambda>s. (sl_nonce s, sl_expires s)) ` {s \<in> set old. t < sl_expires s}"
      by (intro Cons.IH) auto
    moreover have "{x \<in> set (s # old). t < sl_expires x} = {x \<in> set old. t < sl_expires x}"
      using False by auto
    ultimately show ?thesis using False by (simp del: Collect_mem_eq)
  next
    case True
    have f: "full s" "0 \<le> sl_expires s" using True Cons.prems(2) by (auto simp: full_def)
    have room: "nfull sl < length sl" using Cons.prems(5) by linarith
    obtain j where j: "probe (length sl) (\<lambda>s. sl_expires s = 0) sl (slot_start h sl (sl_nonce s)) = Some j"
        "j < length sl" "\<not> full (sl ! j)" "chained h sl (sl_nonce s) j"
      using find_empty [OF Cons.prems(1) room] by blast
    let ?sl = "sl[j := s]"
    have ok: "table_ok h ?sl"
      using Cons.prems(1,4) True j f by (intro table_ok_insert) auto
    have n: "nfull ?sl = nfull sl + 1"
      using j f unfolding nfull_def by (simp add: length_filter_update)
    have h: "held ?sl = insert (sl_nonce s, sl_expires s) (held sl)"
      using j f by (simp add: held_insert)
    have "\<forall>x \<in> set old. t < sl_expires x \<longrightarrow> sl_nonce x \<notin> fst ` held ?sl"
      using Cons.prems(3,4) True unfolding h by (auto simp: image_iff)
    then obtain sl' where sl': "reinsert h t old (?sl, nfull ?sl) = Some (sl', nfull sl')" "table_ok h sl'"
        "length sl' = length ?sl" "nfull sl' = nfull ?sl + length (filter (\<lambda>s. t < sl_expires s) old)"
        "held sl' = held ?sl \<union> (\<lambda>s. (sl_nonce s, sl_expires s)) ` {s \<in> set old. t < sl_expires s}"
      using Cons.IH [OF ok Cons.prems(2)] Cons.prems(3,5) True n by auto
    have "{x \<in> set (s # old). t < sl_expires x} = insert s {x \<in> set old. t < sl_expires x}"
      using True by auto
    with sl' True j n h show ?thesis by (simp del: Collect_mem_eq)
  qed
qed

section \<open>The cache invariant\<close>

definition nc_inv :: "NonceCache \<Rightarrow> bool" where
  "nc_inv c \<longleftrightarrow> used c = nfull (slots c) \<and> used c \<le> NonceCacheSize
     \<and> used c \<le> length (slots c) * 6 div 10
     \<and> (slots c = [] \<or> table_ok (seed_hash c) (slots c))
     \<and> (0 < fullUntil c \<longrightarrow> NonceCacheSize \<le> length (filter (\<lambda>s. fullUntil c \<le> sl_expires s) (slots c)))"

text \<open>The abstract value of a cache: the nonces it holds unexpired at a given time.\<close>

definition unexpired :: "NonceCache \<Rightarrow> int \<Rightarrow> bytes set" where
  "unexpired c t = fst ` {p \<in> held (slots c). t < snd p}"

lemma unexpired_iff: "n \<in> unexpired c t \<longleftrightarrow> (\<exists>e. (n, e) \<in> held (slots c) \<and> t < e)"
  by (force simp: unexpired_def)

lemma nc_inv_New [simp]: "nc_inv (NewNonceCache h)"
  by (simp add: nc_inv_def NewNonceCache_def nfull_def)

lemma unexpired_New [simp]: "unexpired (NewNonceCache h) t = {}"
  by (simp add: unexpired_def NewNonceCache_def held_def)

lemma nc_inv_room: "nc_inv c \<Longrightarrow> slots c \<noteq> [] \<Longrightarrow> nfull (slots c) < length (slots c)"
  unfolding nc_inv_def by (cases "slots c") auto

lemma distinct_live:
  assumes "uniq sl" and "\<And>s. P s \<Longrightarrow> full s"
  shows "distinct (map sl_nonce (filter P sl))"
  using assms
proof (induction sl)
  case Nil
  then show ?case by simp
next
  case (Cons s sl)
  have u: "uniq sl"
    unfolding uniq_def
  proof (intro allI impI, elim conjE)
    fix i j
    assume "i < length sl" "j < length sl" "full (sl ! i)" "full (sl ! j)" "sl_nonce (sl ! i) = sl_nonce (sl ! j)"
    with Cons.prems(1) have "Suc i = Suc j" unfolding uniq_def by (metis length_Cons nth_Cons_Suc Suc_less_eq)
    then show "i = j" by simp
  qed
  have "sl_nonce x \<noteq> sl_nonce s" if "P s" "x \<in> set sl" "P x" for x
  proof
    assume eq: "sl_nonce x = sl_nonce s"
    obtain i where "i < length sl" "sl ! i = x" using \<open>x \<in> set sl\<close> by (auto simp: in_set_conv_nth)
    then have "Suc i = 0"
      using Cons.prems that eq unfolding uniq_def
      by (metis length_Cons nth_Cons_0 nth_Cons_Suc Suc_less_eq zero_less_Suc)
    then show False by simp
  qed
  with Cons.IH [OF u Cons.prems(2)] show ?case by (force simp: image_iff)
qed

lemma nc_inv_uniq: "nc_inv c \<Longrightarrow> uniq (slots c)"
  by (auto simp: nc_inv_def table_ok_def uniq_def)

lemma card_unexpired:
  assumes "nc_inv c" and "0 \<le> t"
  shows "card (unexpired c t) = length (filter (\<lambda>s. t < sl_expires s) (slots c))"
proof -
  let ?l = "filter (\<lambda>s. t < sl_expires s) (slots c)"
  have "n \<in> unexpired c t \<longleftrightarrow> n \<in> set (map sl_nonce ?l)" for n
    using assms(2) by (fastforce simp: unexpired_iff held_def full_def)
  then have "unexpired c t = set (map sl_nonce ?l)" by blast
  moreover have "distinct (map sl_nonce ?l)"
    using assms by (intro distinct_live nc_inv_uniq) (auto simp: full_def)
  ultimately show ?thesis by (metis distinct_card length_map)
qed

lemma Seen_spec: "nc_inv c \<Longrightarrow> Seen c n t = Some (n \<in> unexpired c t)"
proof (cases "slots c = []")
  case True
  then show ?thesis by (simp add: Seen_def unexpired_def held_def)
next
  case False
  assume inv: "nc_inv c"
  let ?sl = "slots c"
  from inv False have ok: "table_ok (seed_hash c) ?sl" by (simp add: nc_inv_def)
  obtain j where j: "probe (length ?sl) (\<lambda>s. sl_expires s = 0 \<or> sl_nonce s = n) ?sl
      (slot_start (seed_hash c) ?sl n) = Some j" "j < length ?sl"
      "full (?sl ! j) \<longrightarrow> sl_nonce (?sl ! j) = n"
      "\<not> full (?sl ! j) \<longrightarrow> n \<notin> fst ` held ?sl"
    using find_slot [OF ok nc_inv_room [OF inv False]] by blast
  show ?thesis
  proof (cases "full (?sl ! j)")
    case True
    with j have "(n, sl_expires (?sl ! j)) \<in> held ?sl" by (auto simp: held_iff)
    then have "n \<in> unexpired c t \<longleftrightarrow> t < sl_expires (?sl ! j)"
      using held_unique [OF nc_inv_uniq [OF inv]] by (auto simp: unexpired_iff)
    with True j False show ?thesis by (simp add: Seen_def full_def)
  next
    case nf: False
    with j have "n \<notin> unexpired c t" by (auto simp: unexpired_def)
    with nf j False show ?thesis by (simp add: Seen_def full_def)
  qed
qed

lemma insert_probe_spec:
  assumes ok: "table_ok (seed_hash c) (slots c)" and u: "used c = nfull (slots c)"
    and room: "nfull (slots c) < length (slots c)" and e: "0 < e"
  shows "\<exists>c'. insert_probe c n e = Some (c', True) \<and> table_ok (seed_hash c') (slots c')
     \<and> used c' = nfull (slots c') \<and> used c' \<le> used c + 1 \<and> length (slots c') = length (slots c)
     \<and> fullUntil c' = fullUntil c \<and> seed_hash c' = seed_hash c
     \<and> held (slots c') = insert (n, e) {p \<in> held (slots c). fst p \<noteq> n}"
proof -
  let ?sl = "slots c"
  obtain j where j: "probe (length ?sl) (\<lambda>s. sl_expires s = 0 \<or> sl_nonce s = n) ?sl
      (slot_start (seed_hash c) ?sl n) = Some j" "j < length ?sl"
      "full (?sl ! j) \<longrightarrow> sl_nonce (?sl ! j) = n"
      "\<not> full (?sl ! j) \<longrightarrow> n \<notin> fst ` held ?sl \<and> chained (seed_hash c) ?sl n j"
    using find_slot [OF ok room] by blast
  show ?thesis
  proof (cases "full (?sl ! j)")
    case False
    let ?s = "\<lparr>sl_nonce = n, sl_expires = e\<rparr>"
    have s: "full ?s" using e by (simp add: full_def)
    have "held (?sl[j := ?s]) = insert (n, e) {p \<in> held ?sl. fst p \<noteq> n}"
      using held_insert [OF j(2) False s] j(4) False by force
    moreover have "table_ok (seed_hash c) (?sl[j := ?s])"
      using j False s e by (intro table_ok_insert [OF ok]) auto
    moreover have "nfull (?sl[j := ?s]) = nfull ?sl + 1"
      using j False s unfolding nfull_def by (simp add: length_filter_update)
    ultimately show ?thesis using j False u by (simp add: insert_probe_def full_def Let_def)
  next
    case True
    let ?s = "(?sl ! j)\<lparr>sl_expires := e\<rparr>"
    have "held (?sl[j := ?s]) = insert (n, e) {p \<in> held ?sl. fst p \<noteq> n}"
      using held_renew [of ?sl j e] ok j True e by (simp add: table_ok_def)
    moreover have "nfull (?sl[j := ?s]) = nfull ?sl"
    proof -
      have "map full (?sl[j := ?s]) = map full ?sl"
        using True j e by (simp add: map_update full_def list_update_same_conv)
      then show ?thesis by (simp only: nfull_map)
    qed
    ultimately show ?thesis
      using table_ok_renew [OF ok j(2) True e] j True u by (simp add: insert_probe_def full_def Let_def)
  qed
qed

lemma table_ok_empty: "table_size N \<Longrightarrow> table_ok h (replicate N empty_slot)"
  by (auto simp: table_ok_def uniq_def full_def empty_slot_def)

lemma compact_refuses:
  assumes inv: "nc_inv c" and t: "0 \<le> t" and live: "NonceCacheSize \<le> card (unexpired c t)"
  shows "\<exists>c'. compact c t = Some (c', False) \<and> nc_inv c' \<and> slots c' = slots c \<and> seed_hash c' = seed_hash c"
proof -
  obtain lv ea where sc: "live_scan t (slots c) (0, 0) = (lv, ea)" by fastforce
  have lv: "lv = length (filter (\<lambda>s. t < sl_expires s) (slots c))"
    using live_scan_count [of t "slots c" 0 0] sc by simp
  with live card_unexpired [OF inv t] have full: "NonceCacheSize \<le> lv" by simp
  have "filter (\<lambda>s. t < sl_expires s) (filter (\<lambda>s. ea \<le> sl_expires s) (slots c))
      = filter (\<lambda>s. t < sl_expires s) (slots c)"
    using live_scan_earliest [OF t, of _ "slots c" 0] sc
    unfolding filter_filter by (intro filter_cong) auto
  then have "lv \<le> length (filter (\<lambda>s. ea \<le> sl_expires s) (slots c))"
    unfolding lv by (metis length_filter_le)
  with inv full have "nc_inv (c\<lparr>fullUntil := ea\<rparr>)" by (simp add: nc_inv_def)
  with sc full show ?thesis by (simp add: compact_def)
qed

lemma compact_makes_room:
  assumes inv: "nc_inv c" and t: "0 \<le> t" and live: "card (unexpired c t) < NonceCacheSize"
  shows "\<exists>c'. compact c t = Some (c', True) \<and> table_ok (seed_hash c') (slots c')
     \<and> used c' = nfull (slots c') \<and> used c' < NonceCacheSize
     \<and> used c' + 1 \<le> length (slots c') * 6 div 10
     \<and> fullUntil c' = 0 \<and> seed_hash c' = seed_hash c
     \<and> held (slots c') = {p \<in> held (slots c). t < snd p}"
proof -
  let ?live = "\<lambda>s. t < sl_expires s"
  obtain lv ea where sc: "live_scan t (slots c) (0, 0) = (lv, ea)" by fastforce
  have lv: "lv = length (filter ?live (slots c))"
    using live_scan_count [of t "slots c" 0 0] sc by simp
  with live card_unexpired [OF inv t] have small: "lv < NonceCacheSize" by simp
  let ?size = "grown_size lv"
  let ?old = "if length (slots c) = ?size then filter ?live (slots c) else slots c"
  have fl: "filter ?live ?old = filter ?live (slots c)" by simp
  have room: "lv + 1 \<le> ?size * 6 div 10" and tsz: "table_size ?size"
    using grown_size_room [OF small] grown_size_while by blast+
  have "distinct (map sl_nonce (filter ?live (slots c)))"
    using t by (intro distinct_live nc_inv_uniq [OF inv]) (auto simp: full_def)
  moreover have "nfull (replicate ?size empty_slot) = 0" "held (replicate ?size empty_slot) = {}"
    by (auto simp: nfull_def held_def full_def empty_slot_def)
  moreover have "lv < ?size" using room by linarith
  ultimately obtain sl where sl: "reinsert (seed_hash c) t ?old (replicate ?size empty_slot, 0) = Some (sl, nfull sl)"
      "table_ok (seed_hash c) sl" "length sl = ?size" "nfull sl = lv"
      "held sl = (\<lambda>s. (sl_nonce s, sl_expires s)) ` {s \<in> set ?old. ?live s}"
    using reinsert_ok [OF table_ok_empty [OF tsz] t, of ?old "seed_hash c"] lv unfolding fl by auto
  have "{s \<in> set ?old. ?live s} = {s \<in> set (slots c). ?live s}" by auto
  then have "held sl = {p \<in> held (slots c). t < snd p}"
    unfolding sl(5) using t by (auto simp: held_def full_def)
  with sl sc small room show ?thesis by (simp add: compact_def Let_def)
qed

lemma unexpired_held_eq:
  assumes h: "held (slots c') = insert (n, e) {p \<in> A. fst p \<noteq> n}"
    and A: "\<And>p. t < snd p \<Longrightarrow> p \<in> A \<longleftrightarrow> p \<in> held (slots c)"
  shows "unexpired c' t = (unexpired c t - {n}) \<union> (if t < e then {n} else {})"
proof -
  have A': "(x, e') \<in> A \<and> t < e' \<longleftrightarrow> (x, e') \<in> held (slots c) \<and> t < e'" for x e'
    using A [of "(x, e')"] by auto
  have "x \<in> unexpired c' t \<longleftrightarrow> (x = n \<and> t < e) \<or> (x \<noteq> n \<and> (\<exists>e'. (x, e') \<in> A \<and> t < e'))" for x
    unfolding unexpired_iff h by auto
  then show ?thesis unfolding A' unexpired_iff [symmetric] by auto
qed

lemma nc_inv_fullUntil:
  assumes inv: "nc_inv c" and t: "0 \<le> t" "t < fullUntil c"
  shows "NonceCacheSize \<le> card (unexpired c t)"
proof -
  from inv t have "NonceCacheSize \<le> length (filter (\<lambda>s. fullUntil c \<le> sl_expires s) (slots c))"
    by (simp add: nc_inv_def)
  also have "\<dots> = length (filter (\<lambda>s. fullUntil c \<le> sl_expires s) (filter (\<lambda>s. t < sl_expires s) (slots c)))"
    using t(2) unfolding filter_filter by (intro arg_cong [of _ _ length] filter_cong) auto
  also have "\<dots> \<le> length (filter (\<lambda>s. t < sl_expires s) (slots c))"
    by (rule length_filter_le)
  finally show ?thesis using card_unexpired [OF inv t(1)] by simp
qed

lemma card_unexpired_le_used: "nc_inv c \<Longrightarrow> 0 \<le> t \<Longrightarrow> card (unexpired c t) \<le> used c"
proof -
  assume a: "nc_inv c" "0 \<le> t"
  have "length (filter (\<lambda>s. t < sl_expires s) (slots c)) = length (filter (\<lambda>s. t < sl_expires s) (filter full (slots c)))"
    using a(2) unfolding filter_filter by (intro arg_cong [of _ _ length] filter_cong) (auto simp: full_def)
  then have "length (filter (\<lambda>s. t < sl_expires s) (slots c)) \<le> nfull (slots c)"
    unfolding nfull_def by (metis length_filter_le)
  then show ?thesis using a card_unexpired [OF a] by (simp add: nc_inv_def)
qed

lemma Insert_with_room:
  assumes inv: "nc_inv c" and t: "0 \<le> t"
    and room: "\<not> (used c \<ge> NonceCacheSize \<or> used c + 1 > length (slots c) * 6 div 10)" and e: "0 < e"
  shows "\<exists>c'. insert_probe c n e = Some (c', True) \<and> nc_inv c'
     \<and> (\<forall>t' \<ge> t. unexpired c' t' = (unexpired c t' - {n}) \<union> (if t' < e then {n} else {}))"
proof -
  from room have ne: "slots c \<noteq> []" by auto
  have fu: "fullUntil c \<le> 0"
  proof (rule ccontr)
    assume "\<not> fullUntil c \<le> 0"
    then have "NonceCacheSize \<le> card (unexpired c 0)" using nc_inv_fullUntil [OF inv, of 0] by simp
    then show False using card_unexpired_le_used [OF inv, of 0] room by simp
  qed
  from inv ne have "table_ok (seed_hash c) (slots c)" "used c = nfull (slots c)"
    by (auto simp: nc_inv_def)
  then obtain c' where c': "insert_probe c n e = Some (c', True)" "table_ok (seed_hash c') (slots c')"
      "used c' = nfull (slots c')" "used c' \<le> used c + 1" "length (slots c') = length (slots c)"
      "fullUntil c' = fullUntil c" "held (slots c') = insert (n, e) {p \<in> held (slots c). fst p \<noteq> n}"
    using insert_probe_spec [OF _ _ nc_inv_room [OF inv ne] e] by blast
  then have "nc_inv c'" using room fu by (simp add: nc_inv_def)
  then show ?thesis using c' unexpired_held_eq [OF c'(7)] by blast
qed

lemma Insert_after_compact:
  assumes inv: "nc_inv c" and t: "0 \<le> t" and live: "card (unexpired c t) < NonceCacheSize" and e: "0 < e"
  shows "\<exists>c1 c'. compact c t = Some (c1, True) \<and> insert_probe c1 n e = Some (c', True) \<and> nc_inv c'
     \<and> (\<forall>t' \<ge> t. unexpired c' t' = (unexpired c t' - {n}) \<union> (if t' < e then {n} else {}))"
proof -
  obtain c1 where c1: "compact c t = Some (c1, True)" "table_ok (seed_hash c1) (slots c1)"
      "used c1 = nfull (slots c1)" "used c1 < NonceCacheSize" "used c1 + 1 \<le> length (slots c1) * 6 div 10"
      "fullUntil c1 = 0" "held (slots c1) = {p \<in> held (slots c). t < snd p}"
    using compact_makes_room [OF inv t live] by blast
  then have "nfull (slots c1) < length (slots c1)" by linarith
  from insert_probe_spec [OF c1(2,3) this e, of n]
  obtain c' where c': "insert_probe c1 n e = Some (c', True)" "table_ok (seed_hash c') (slots c')"
      "used c' = nfull (slots c')" "used c' \<le> used c1 + 1" "length (slots c') = length (slots c1)"
      "fullUntil c' = fullUntil c1" "held (slots c') = insert (n, e) {p \<in> held (slots c1). fst p \<noteq> n}"
    by blast
  then have "nc_inv c'" using c1 by (simp add: nc_inv_def)
  moreover have "unexpired c' t' = (unexpired c t' - {n}) \<union> (if t' < e then {n} else {})" if "t \<le> t'" for t'
    using that by (intro unexpired_held_eq [OF c'(7)]) (auto simp: c1(7))
  ultimately show ?thesis using c1(1) c'(1) by blast
qed

lemma Insert_spec:
  assumes inv: "nc_inv c" and t: "0 \<le> t"
  shows "\<exists>c' ok. Insert c n e t = Some (c', ok) \<and> nc_inv c'
          \<and> (ok \<longleftrightarrow> card (unexpired c t) < NonceCacheSize)
          \<and> (\<forall>t' \<ge> t. unexpired c' t' =
               (if \<not> ok then unexpired c t'
                else (unexpired c t' - {n}) \<union> (if t' < max 1 e then {n} else {})))"
proof -
  let ?e = "if e \<le> 0 then 1 else e"
  let ?full = "used c \<ge> NonceCacheSize \<or> used c + 1 > length (slots c) * 6 div 10"
  have e: "0 < ?e" "?e = max 1 e" by auto
  consider (room) "\<not> ?full" | (held) ?full "t < fullUntil c"
    | (live) ?full "\<not> t < fullUntil c" "NonceCacheSize \<le> card (unexpired c t)"
    | (compacts) ?full "\<not> t < fullUntil c" "card (unexpired c t) < NonceCacheSize" by linarith
  then have "\<exists>c' ok. Insert c n e t = Some (c', ok) \<and> nc_inv c'
      \<and> (ok \<longleftrightarrow> card (unexpired c t) < NonceCacheSize)
      \<and> (\<forall>t' \<ge> t. unexpired c' t' = (if \<not> ok then unexpired c t'
             else (unexpired c t' - {n}) \<union> (if t' < ?e then {n} else {})))"
  proof cases
    case room
    obtain c' where c': "insert_probe c n ?e = Some (c', True)" "nc_inv c'"
        "\<forall>t' \<ge> t. unexpired c' t' = (unexpired c t' - {n}) \<union> (if t' < ?e then {n} else {})"
      using Insert_with_room [OF inv t room e(1), of n] by blast
    moreover have "Insert c n e t = Some (c', True)"
      unfolding Insert_def Let_def using room c'(1) by simp
    moreover have "card (unexpired c t) < NonceCacheSize"
      using card_unexpired_le_used [OF inv t] room by linarith
    ultimately show ?thesis by (intro exI [of _ c'] exI [of _ True]) simp
  next
    case held
    then have "Insert c n e t = Some (c, False)" unfolding Insert_def Let_def by simp
    with nc_inv_fullUntil [OF inv t held(2)] inv show ?thesis
      by (intro exI [of _ c] exI [of _ False]) simp
  next
    case live
    obtain c' where c': "compact c t = Some (c', False)" "nc_inv c'" "slots c' = slots c"
      using compact_refuses [OF inv t live(3)] by blast
    moreover have "Insert c n e t = Some (c', False)"
      unfolding Insert_def Let_def using live(1,2) c'(1) by simp
    ultimately show ?thesis using live(3)
      by (intro exI [of _ c'] exI [of _ False]) (simp add: unexpired_def)
  next
    case compacts
    obtain c1 c' where c': "compact c t = Some (c1, True)" "insert_probe c1 n ?e = Some (c', True)" "nc_inv c'"
        "\<forall>t' \<ge> t. unexpired c' t' = (unexpired c t' - {n}) \<union> (if t' < ?e then {n} else {})"
      using Insert_after_compact [OF inv t compacts(3) e(1), of n] by blast
    moreover have "Insert c n e t = Some (c', True)"
      unfolding Insert_def Let_def using compacts(1,2) c'(1,2) by simp
    ultimately show ?thesis using compacts(3)
      by (intro exI [of _ c'] exI [of _ True]) simp
  qed
  then show ?thesis unfolding e(2) .
qed

text \<open>
  C3. The replay cache implements a bounded set of unexpired nonces. For a cache that satisfies
  its invariant and a clock that is not negative, a lookup and an insert return (no probe loop
  runs for ever), the lookup answers exactly membership in the set of nonces unexpired at
  that time, the insert succeeds exactly when fewer than \<^verbatim>\<open>NonceCacheSize\<close> nonces are
  unexpired, a successful insert changes that set at no later time except for the inserted
  nonce, which it holds until its expiry, and a refused insert holds nothing new. The invariant
  is kept. No unexpired nonce is ever evicted.
\<close>

theorem NonceCache_refines_set:
  assumes inv: "nc_inv c" and t: "0 \<le> t"
  shows "Seen c n t = Some (n \<in> unexpired c t)
     \<and> (\<exists>c' ok. Insert c n e t = Some (c', ok) \<and> nc_inv c'
          \<and> (ok \<longleftrightarrow> card (unexpired c t) < NonceCacheSize)
          \<and> (\<forall>t' \<ge> t. unexpired c' t' =
               (if \<not> ok then unexpired c t'
                else (unexpired c t' - {n}) \<union> (if t' < max 1 e then {n} else {}))))"
  using Seen_spec [OF inv] Insert_spec [OF inv t] by blast

theorem NonceCache_refines_set_witness:
  "Seen (NewNonceCache (\<lambda>_. 0)) [7] 5 = Some False
   \<and> (\<exists>c'. Insert (NewNonceCache (\<lambda>_. 0)) [7] 9 5 = Some (c', True) \<and> unexpired c' 5 = {[7]})"
proof -
  let ?c = "NewNonceCache (\<lambda>_. 0)"
  have "nc_inv ?c" "0 \<le> (5 :: int)" by simp_all
  from NonceCache_refines_set [OF this, of "[7]" 9]
  obtain c' ok where "Seen ?c [7] 5 = Some False" "Insert ?c [7] 9 5 = Some (c', ok)"
      "ok \<longleftrightarrow> card (unexpired ?c 5) < NonceCacheSize"
      "unexpired c' 5 = (if \<not> ok then unexpired ?c 5
         else (unexpired ?c 5 - {[7]}) \<union> (if 5 < max 1 (9 :: int) then {[7]} else {}))"
    by auto
  then show ?thesis by simp
qed

section \<open>The interface of a replay cache\<close>

text \<open>
  What the responder relies on: a lookup and an insert return; the lookup decides membership in
  the set of nonces unexpired now; an insert that succeeds holds its nonce until its expiry, and
  no insert makes another nonce expire early. The lemmas of the locale are what
  \<^verbatim>\<open>Handle\<close>'s check-then-insert sequence gives, for any such cache.
\<close>

locale nonce_store =
  fixes inv :: "'c \<Rightarrow> bool"
    and live :: "'c \<Rightarrow> int \<Rightarrow> 'n set"
    and seen :: "'c \<Rightarrow> 'n \<Rightarrow> int \<Rightarrow> bool option"
    and ins :: "'c \<Rightarrow> 'n \<Rightarrow> int \<Rightarrow> int \<Rightarrow> ('c \<times> bool) option"
    and cap :: nat
  assumes seen_law: "inv c \<Longrightarrow> seen c n t = Some (n \<in> live c t)"
    and live_anti: "t \<le> t' \<Longrightarrow> live c t' \<subseteq> live c t"
    and ins_law: "inv c \<Longrightarrow> 0 \<le> t \<Longrightarrow> \<exists>c' ok. ins c n e t = Some (c', ok) \<and> inv c'
          \<and> (ok \<longleftrightarrow> card (live c t) < cap)
          \<and> (\<forall>t' \<ge> t. live c' t' = (if \<not> ok then live c t'
               else (live c t' - {n}) \<union> (if t' < max 1 e then {n} else {})))"
begin

lemma ins_inv: "inv c \<Longrightarrow> 0 \<le> t \<Longrightarrow> ins c n e t = Some (c', ok) \<Longrightarrow> inv c'"
  using ins_law [of c t n e] by auto

lemma ins_returns: "inv c \<Longrightarrow> 0 \<le> t \<Longrightarrow> \<exists>c' ok. ins c n e t = Some (c', ok)"
  using ins_law [of c t n e] by blast

lemma ins_ok_iff: "inv c \<Longrightarrow> 0 \<le> t \<Longrightarrow> ins c n e t = Some (c', ok) \<Longrightarrow> ok \<longleftrightarrow> card (live c t) < cap"
  using ins_law [of c t n e] by auto

lemma ins_holds:
  assumes "inv c" and "0 \<le> t" and "ins c n e t = Some (c', True)" and "t \<le> t'" and "t' < e"
  shows "n \<in> live c' t'"
  using ins_law [OF assms(1,2), of n e] assms(3-5) by auto

lemma ins_unseen_keeps:
  assumes "inv c" and "0 \<le> t" and "seen c n t = Some False" and "ins c n e t = Some (c', ok)"
    and "t \<le> t'" and "x \<in> live c t'"
  shows "x \<in> live c' t'"
proof -
  have "x \<noteq> n" using assms(3,6) live_anti [OF assms(5), of c] seen_law [OF assms(1), of n t] by auto
  with assms(6) show ?thesis using ins_law [OF assms(1,2), of n e] assms(4,5) by auto
qed

end

lemma unexpired_anti: "t \<le> t' \<Longrightarrow> unexpired c t' \<subseteq> unexpired c t"
  by (force simp: unexpired_def)

interpretation nc: nonce_store nc_inv unexpired Seen Insert NonceCacheSize
proof
  fix c :: NonceCache and n :: bytes and t e :: int
  assume "nc_inv c" "0 \<le> t"
  then show "\<exists>c' ok. Insert c n e t = Some (c', ok) \<and> nc_inv c'
      \<and> (ok \<longleftrightarrow> card (unexpired c t) < NonceCacheSize)
      \<and> (\<forall>t' \<ge> t. unexpired c' t' = (if \<not> ok then unexpired c t'
           else (unexpired c t' - {n}) \<union> (if t' < max 1 e then {n} else {})))"
    by (rule Insert_spec)
qed (use Seen_spec unexpired_anti in blast)+

end
