(* ===== verification/Responder.thy ===== *)
theory Responder
  imports Nonce_Cache
begin

text \<open>
  The decision core of a beacon responder (\<^verbatim>\<open>Responder\<close> of \<^verbatim>\<open>src/beacon/responder.go\<close>): the
  table of path keys, its refresh by \<^verbatim>\<open>SetTable\<close>, and \<^verbatim>\<open>Handle\<close>, which takes one datagram and
  decides whether to reply. The per-source states are shared between the table a running
  \<^verbatim>\<open>Handle\<close> has loaded and the tables \<^verbatim>\<open>SetTable\<close> stores, so they live in a store: the field
  \<open>states\<close>, whose indices are the addresses the source's \<^verbatim>\<open>*sourceState\<close> pointers stand for. An
  HMAC state keyed by \<^verbatim>\<open>hmac.New\<close> is its key, and the scratch buffer \<^verbatim>\<open>sum\<close>, overwritten by
  each use before it is read, is left out. Times are Unix nanoseconds (\<^verbatim>\<open>now.UnixNano()\<close>), and
  every \<^verbatim>\<open>int64\<close> difference and sum wraps.
\<close>

section \<open>State\<close>

record TableEntry =
  ent_SourceID :: "32 word"
  ent_Epoch :: "32 word"
  ent_Key :: bytes
  ent_Retired :: bool

datatype Verdict = DropLength | DropMalformed | DropUnknownSource | DropUnknownEpoch | DropBadTag
  | DropReplay | DropNamedBudget | ReplyOK | ReplyStale | ReplyUnknownEpoch | ReplyRateLimited

text \<open>The \<^verbatim>\<open>uint8\<close> value of a verdict, which \<^verbatim>\<open>Replied\<close> and \<^verbatim>\<open>Authenticated\<close> compare.\<close>

fun verdict_code :: "Verdict \<Rightarrow> byte" where
  "verdict_code DropLength = 1"
| "verdict_code DropMalformed = 2"
| "verdict_code DropUnknownSource = 3"
| "verdict_code DropUnknownEpoch = 4"
| "verdict_code DropBadTag = 5"
| "verdict_code DropReplay = 6"
| "verdict_code DropNamedBudget = 7"
| "verdict_code ReplyOK = 8"
| "verdict_code ReplyStale = 9"
| "verdict_code ReplyUnknownEpoch = 10"
| "verdict_code ReplyRateLimited = 11"

definition Replied :: "Verdict \<Rightarrow> bool" where
  "Replied v \<longleftrightarrow> verdict_code v \<ge> verdict_code ReplyOK"

definition Authenticated :: "Verdict \<Rightarrow> bool" where
  "Authenticated v \<longleftrightarrow> verdict_code v \<ge> verdict_code DropReplay"

lemma Replied_simps [simp]:
  "\<not> Replied DropLength" "\<not> Replied DropMalformed" "\<not> Replied DropUnknownSource" "\<not> Replied DropUnknownEpoch"
  "\<not> Replied DropBadTag" "\<not> Replied DropReplay" "\<not> Replied DropNamedBudget"
  "Replied ReplyOK" "Replied ReplyStale" "Replied ReplyUnknownEpoch" "Replied ReplyRateLimited"
  by (simp_all add: Replied_def word_le_nat_alt)

lemma Authenticated_simps [simp]:
  "\<not> Authenticated DropLength" "\<not> Authenticated DropMalformed" "\<not> Authenticated DropUnknownSource"
  "\<not> Authenticated DropUnknownEpoch" "\<not> Authenticated DropBadTag" "Authenticated DropReplay"
  "Authenticated DropNamedBudget" "Authenticated ReplyOK" "Authenticated ReplyStale"
  "Authenticated ReplyUnknownEpoch" "Authenticated ReplyRateLimited"
  by (simp_all add: Authenticated_def word_le_nat_alt)

fun Verdict_String :: "Verdict \<Rightarrow> string" where
  "Verdict_String DropLength = ''drop_length''"
| "Verdict_String DropMalformed = ''drop_malformed''"
| "Verdict_String DropUnknownSource = ''drop_unknown_source''"
| "Verdict_String DropUnknownEpoch = ''drop_unknown_epoch''"
| "Verdict_String DropBadTag = ''drop_bad_tag''"
| "Verdict_String DropReplay = ''drop_replay''"
| "Verdict_String DropNamedBudget = ''drop_named_budget''"
| "Verdict_String ReplyOK = ''reply_ok''"
| "Verdict_String ReplyStale = ''reply_stale''"
| "Verdict_String ReplyUnknownEpoch = ''reply_unknown_epoch''"
| "Verdict_String ReplyRateLimited = ''reply_rate_limited''"

record tableEpoch =
  te_epoch :: "32 word"
  te_retired :: bool
  te_mac :: bytes

record tableSource =
  ts_id :: "32 word"
  ts_epochs :: "tableEpoch list"
  ts_state :: nat

record sourceState =
  nonces :: "NonceCache option"
  credit :: int
  lastNs :: int
  lastNamed :: int

record Responder =
  startNs :: int
  table :: "tableSource list option"
  lastAuth :: int
  states :: "sourceState list"

definition costNs :: int where "costNs = second div int SourceRatePerSecond"
definition creditNs :: int where "creditNs = second"

definition fresh_state :: sourceState where
  "fresh_state = \<lparr>nonces = None, credit = creditNs, lastNs = 0, lastNamed = 0\<rparr>"

definition NewResponder :: "int \<Rightarrow> Responder" where
  "NewResponder start = \<lparr>startNs = start, table = None, lastAuth = 0, states = []\<rparr>"

section \<open>Lookup and refresh of the table\<close>

function find_between :: "tableSource list \<Rightarrow> 32 word \<Rightarrow> nat \<Rightarrow> nat \<Rightarrow> tableSource option" where
  "find_between ss sid lo hi =
     (if lo < hi then
        let mid = (lo + hi) div 2; s = ss ! mid in
        if ts_id s = sid then Some s
        else if ts_id s < sid then find_between ss sid (mid + 1) hi
        else find_between ss sid lo mid
      else None)"
  by pat_completeness auto

termination by (relation "measure (\<lambda>(ss, sid, lo, hi). hi - lo)") auto

declare find_between.simps [simp del]

definition table_find :: "tableSource list option \<Rightarrow> 32 word \<Rightarrow> tableSource option" where
  "table_find t sid = (case t of None \<Rightarrow> None | Some ss \<Rightarrow> find_between ss sid 0 (length ss))"

datatype table_error = ErrZeroID | ErrEpochTwice "32 word" "32 word" | ErrTooManyEpochs "32 word"

text \<open>\<open>byID\<close> is a Go map from ids to sources; its sources are kept in the order of insertion, each
  sid once, and \<open>put_source\<close> writes one. The loop body of \<^verbatim>\<open>SetTable\<close> is \<open>add_entry\<close>.\<close>

definition source_by_id :: "tableSource list \<Rightarrow> 32 word \<Rightarrow> tableSource option" where
  "source_by_id byID sid = find (\<lambda>s. ts_id s = sid) byID"

definition put_source :: "tableSource list \<Rightarrow> tableSource \<Rightarrow> tableSource list" where
  "put_source byID src =
     (if source_by_id byID (ts_id src) = None then byID @ [src]
      else map (\<lambda>s. if ts_id s = ts_id src then src else s) byID)"

definition start_source ::
  "tableSource list option \<Rightarrow> 32 word \<Rightarrow> sourceState list \<Rightarrow> tableSource \<times> sourceState list" where
  "start_source old sid heap =
     (case table_find old sid of
        Some prev \<Rightarrow> (\<lparr>ts_id = sid, ts_epochs = [], ts_state = ts_state prev\<rparr>, heap)
      | None \<Rightarrow> (\<lparr>ts_id = sid, ts_epochs = [], ts_state = length heap\<rparr>, heap @ [fresh_state]))"

definition add_entry ::
  "tableSource list option \<Rightarrow> TableEntry \<Rightarrow> tableSource list \<times> sourceState list
     \<Rightarrow> table_error + tableSource list \<times> sourceState list" where
  "add_entry old e acc =
     (case acc of (byID, heap) \<Rightarrow>
      if ent_SourceID e = 0 \<or> ent_Epoch e = 0 then Inl ErrZeroID
      else
        let (src, heap') = (case source_by_id byID (ent_SourceID e) of
                              Some src \<Rightarrow> (src, heap)
                            | None \<Rightarrow> start_source old (ent_SourceID e) heap)
        in if \<exists>ep \<in> set (ts_epochs src). te_epoch ep = ent_Epoch e
           then Inl (ErrEpochTwice (ent_SourceID e) (ent_Epoch e))
           else if length (ts_epochs src) = MaxEpochsPerSource then Inl (ErrTooManyEpochs (ent_SourceID e))
           else
             let ep = \<lparr>te_epoch = ent_Epoch e, te_retired = ent_Retired e, te_mac = ent_Key e\<rparr>
             in Inr (put_source byID (src\<lparr>ts_epochs := ts_epochs src @ [ep]\<rparr>), heap'))"

fun add_entries ::
  "tableSource list option \<Rightarrow> TableEntry list \<Rightarrow> tableSource list \<times> sourceState list
     \<Rightarrow> table_error + tableSource list \<times> sourceState list" where
  "add_entries old [] acc = Inr acc"
| "add_entries old (e # es) acc =
     (case add_entry old e acc of Inl err \<Rightarrow> Inl err | Inr acc' \<Rightarrow> add_entries old es acc')"

definition SetTable :: "Responder \<Rightarrow> TableEntry list \<Rightarrow> table_error + Responder" where
  "SetTable r entries =
     (case add_entries (table r) entries ([], states r) of
        Inl err \<Rightarrow> Inl err
      | Inr (byID, heap) \<Rightarrow> Inr (r\<lparr>table := Some (sort_key ts_id byID), states := heap\<rparr>))"

text \<open>\<^verbatim>\<open>LastAuthenticated\<close> as a Unix time in nanoseconds, \<open>None\<close> for the zero \<^verbatim>\<open>time.Time\<close>.\<close>

definition LastAuthenticated :: "Responder \<Rightarrow> int option" where
  "LastAuthenticated r = (if lastAuth r = 0 then None else Some (lastAuth r))"

section \<open>One datagram\<close>

definition allow :: "sourceState \<Rightarrow> int \<Rightarrow> sourceState \<times> bool" where
  "allow st nowNs =
     (let elapsed = wrap64 (nowNs - lastNs st);
          c = (if lastNs st \<noteq> 0 \<and> elapsed > 0 then min creditNs (wrap64 (credit st + elapsed)) else credit st)
      in if c < costNs then (st\<lparr>credit := c, lastNs := nowNs\<rparr>, False)
         else (st\<lparr>credit := c - costNs, lastNs := nowNs\<rparr>, True))"

definition named ::
  "sourceState \<Rightarrow> tableEpoch \<Rightarrow> int \<Rightarrow> Status \<Rightarrow> 32 word \<Rightarrow> bytes \<Rightarrow> bytes
     \<Rightarrow> sourceState \<times> bytes \<times> nat \<times> Verdict" where
  "named st ep nowNs status seq n out =
     (if lastNamed st \<noteq> 0 \<and> wrap64 (nowNs - lastNamed st) < NamedReplyInterval \<and> nowNs \<ge> lastNamed st
      then (st, out, 0, DropNamedBudget)
      else
        (st\<lparr>lastNamed := nowNs\<rparr>,
         writeReply (te_mac ep) status seq n nowNs @ drop ReplyLen out, ReplyLen,
         if status = StatusStale then ReplyStale
         else if status = StatusUnknownEpoch then ReplyUnknownEpoch
         else ReplyRateLimited))"

text \<open>\<^verbatim>\<open>Handle\<close> after the tag has verified: \<open>seed\<close> is the hash a nonce cache made now would get.
  The result is the source's new state, whether \<^verbatim>\<open>lastAuth\<close> is stored, the buffer, and what
  \<^verbatim>\<open>Handle\<close> returns.\<close>

definition handle_verified ::
  "(bytes \<Rightarrow> 64 word) \<Rightarrow> int \<Rightarrow> sourceState \<Rightarrow> tableEpoch \<Rightarrow> int \<Rightarrow> bytes \<Rightarrow> bytes
     \<Rightarrow> (sourceState \<times> bool \<times> bytes \<times> nat \<times> Verdict) option" where
  "handle_verified seed start st ep nowNs pkt out =
     (let seq = un_be32 (drop reqOffSeq pkt);
          n = subslice reqOffNonce reqOffPad pkt;
          sent = i64_of_u64 (un_be64 (drop reqOffSent pkt))
      in if te_retired ep then
           (let (st', r) = named st ep nowNs StatusUnknownEpoch seq n out in Some (st', False, r))
         else if sent < start \<or> wrap64 (nowNs - sent) > FreshnessWindow
                 \<or> wrap64 (sent - nowNs) > FreshnessWindow then
           (let (st', r) = named st ep nowNs StatusStale seq n out in Some (st', False, r))
         else
           let c = (case nonces st of None \<Rightarrow> NewNonceCache seed | Some c \<Rightarrow> c)
           in case Seen c n nowNs of
                None \<Rightarrow> None
              | Some True \<Rightarrow> Some (st\<lparr>nonces := Some c\<rparr>, False, out, 0, DropReplay)
              | Some False \<Rightarrow>
                  (case Insert c n (wrap64 (sent + FreshnessWindow + 1)) nowNs of
                     None \<Rightarrow> None
                   | Some (c', False) \<Rightarrow>
                       (let (st', r) = named (st\<lparr>nonces := Some c'\<rparr>) ep nowNs StatusRateLimited seq n out
                        in Some (st', True, r))
                   | Some (c', True) \<Rightarrow>
                       (case allow (st\<lparr>nonces := Some c'\<rparr>) nowNs of
                          (st', False) \<Rightarrow>
                            (let (st'', r) = named st' ep nowNs StatusRateLimited seq n out
                             in Some (st'', True, r))
                        | (st', True) \<Rightarrow>
                            Some (st', True,
                              writeReply (te_mac ep) StatusOK seq n nowNs @ drop ReplyLen out,
                              ReplyLen, ReplyOK))))"

text \<open>\<open>handle_at\<close> is the body of \<^verbatim>\<open>Handle\<close> once it has loaded the table \<open>t\<close>.\<close>

definition handle_at ::
  "tableSource list option \<Rightarrow> (bytes \<Rightarrow> 64 word) \<Rightarrow> Responder \<Rightarrow> int \<Rightarrow> bytes \<Rightarrow> bytes
     \<Rightarrow> (Responder \<times> bytes \<times> nat \<times> Verdict) option" where
  "handle_at t seed r nowNs pkt out =
     (if length pkt \<noteq> RequestLen then Some (r, out, 0, DropLength)
      else if length out < ReplyLen then Some (r, out, 0, DropLength)
      else if checkRequestFrame pkt \<noteq> None then Some (r, out, 0, DropMalformed)
      else case table_find t (un_be32 (drop reqOffSource pkt)) of
        None \<Rightarrow> Some (r, out, 0, DropUnknownSource)
      | Some src \<Rightarrow>
          (case find (\<lambda>ep. te_epoch ep = un_be32 (drop reqOffEpoch pkt)) (ts_epochs src) of
             None \<Rightarrow> Some (r, out, 0, DropUnknownEpoch)
           | Some ep \<Rightarrow>
               if \<not> ConstantTimeCompare (take TagLen (tag (te_mac ep) reqDomain (take reqOffTag pkt)))
                      (subslice reqOffTag RequestLen pkt)
               then Some (r, out, 0, DropBadTag)
               else
                 (case handle_verified seed (startNs r) (states r ! ts_state src) ep nowNs pkt out of
                    None \<Rightarrow> None
                  | Some (st', auth, out', k, v) \<Rightarrow>
                      Some (r\<lparr>states := (states r)[ts_state src := st'],
                              lastAuth := if auth then nowNs else lastAuth r\<rparr>, out', k, v))))"

definition Handle ::
  "(bytes \<Rightarrow> 64 word) \<Rightarrow> Responder \<Rightarrow> int \<Rightarrow> bytes \<Rightarrow> bytes
     \<Rightarrow> (Responder \<times> bytes \<times> nat \<times> Verdict) option" where
  "Handle seed r nowNs pkt out = handle_at (table r) seed r nowNs pkt out"

section \<open>Binary search\<close>

definition by_ids :: "tableSource list \<Rightarrow> bool" where
  "by_ids ss \<longleftrightarrow> sorted_wrt (<) (map ts_id ss)"

lemma source_by_id_SomeD: "source_by_id ss i = Some s \<Longrightarrow> s \<in> set ss \<and> ts_id s = i"
  by (auto simp: source_by_id_def find_Some_iff)

lemma source_by_id_None: "source_by_id ss i = None \<longleftrightarrow> i \<notin> ts_id ` set ss"
  by (auto simp: source_by_id_def find_None_iff)

lemma source_by_id_mem: "inj_on ts_id (set ss) \<Longrightarrow> s \<in> set ss \<Longrightarrow> source_by_id ss (ts_id s) = Some s"
proof (cases "source_by_id ss (ts_id s)")
  case None
  moreover assume "s \<in> set ss"
  ultimately show ?thesis by (simp add: source_by_id_None)
next
  case (Some s')
  moreover assume "inj_on ts_id (set ss)" "s \<in> set ss"
  ultimately show ?thesis using source_by_id_SomeD [OF Some] by (auto dest: inj_onD)
qed

lemma by_ids_nth: "by_ids ss \<Longrightarrow> i < j \<Longrightarrow> j < length ss \<Longrightarrow> ts_id (ss ! i) < ts_id (ss ! j)"
  by (simp add: by_ids_def sorted_wrt_iff_nth_less)

lemma by_ids_inj: "by_ids ss \<Longrightarrow> inj_on ts_id (set ss)"
  by (simp add: by_ids_def strict_sorted_iff distinct_map)

lemma find_between_correct:
  assumes "by_ids ss" and "hi \<le> length ss"
    and "\<And>k. k < length ss \<Longrightarrow> ts_id (ss ! k) = sid \<Longrightarrow> lo \<le> k \<and> k < hi"
  shows "find_between ss sid lo hi = source_by_id ss sid"
  using assms
proof (induction ss sid lo hi rule: find_between.induct)
  case (1 ss sid lo hi)
  show ?case
  proof (cases "lo < hi")
    case False
    have "ts_id (ss ! k) \<noteq> sid" if "k < length ss" for k
      using 1(5) [OF that] False by linarith
    then have "source_by_id ss sid = None"
      unfolding source_by_id_None by (metis imageE in_set_conv_nth)
    with False show ?thesis by (simp add: find_between.simps)
  next
    case True
    define mid where "mid = (lo + hi) div 2"
    have m: "mid < length ss" "lo \<le> mid" "mid < hi" using True 1(4) by (auto simp: mid_def)
    consider (eq) "ts_id (ss ! mid) = sid" | (lt) "ts_id (ss ! mid) < sid" | (gt) "ts_id (ss ! mid) > sid"
      by (rule linorder_less_linear [THEN disjE]) auto
    then show ?thesis
    proof cases
      case eq
      then have "source_by_id ss sid = Some (ss ! mid)"
        using source_by_id_mem [OF by_ids_inj [OF 1(3)], of "ss ! mid"] m by simp
      with eq True show ?thesis by (subst find_between.simps) (simp add: mid_def Let_def)
    next
      case lt
      have "mid + 1 \<le> k \<and> k < hi" if "k < length ss" "ts_id (ss ! k) = sid" for k
        using 1(5) [OF that] by_ids_nth [OF 1(3), of k mid] lt m that
        by (metis Suc_eq_plus1 Suc_leI linorder_neqE_nat order_less_asym)
      then have "find_between ss sid (mid + 1) hi = source_by_id ss sid"
        using lt True m 1 by (intro 1(1) [OF True mid_def refl]) auto
      with less_imp_neq [OF lt] lt True show ?thesis
        by (subst find_between.simps) (simp add: Let_def flip: mid_def)
    next
      case gt
      have "lo \<le> k \<and> k < mid" if "k < length ss" "ts_id (ss ! k) = sid" for k
        using 1(5) [OF that] by_ids_nth [OF 1(3), of mid k] gt m that
        by (metis linorder_neqE_nat order_less_asym)
      then have "find_between ss sid lo mid = source_by_id ss sid"
        using gt True m 1 by (intro 1(2) [OF True mid_def refl]) auto
      with less_imp_neq [OF gt] gt True show ?thesis
        by (subst find_between.simps) (auto simp: Let_def simp flip: mid_def)
    qed
  qed
qed

lemma table_find_eq: "by_ids ss \<Longrightarrow> table_find (Some ss) i = source_by_id ss i"
  by (simp add: table_find_def find_between_correct)

section \<open>What a refresh does\<close>

definition epoch_of :: "TableEntry \<Rightarrow> tableEpoch" where
  "epoch_of e = \<lparr>te_epoch = ent_Epoch e, te_retired = ent_Retired e, te_mac = ent_Key e\<rparr>"

definition entries_of :: "TableEntry list \<Rightarrow> 32 word \<Rightarrow> TableEntry list" where
  "entries_of es i = filter (\<lambda>e. ent_SourceID e = i) es"

definition epochs_ok :: "TableEntry list \<Rightarrow> 32 word \<Rightarrow> bool" where
  "epochs_ok es i \<longleftrightarrow> distinct (map ent_Epoch (entries_of es i)) \<and> length (entries_of es i) \<le> MaxEpochsPerSource"

definition entries_ok :: "TableEntry list \<Rightarrow> bool" where
  "entries_ok es \<longleftrightarrow> (\<forall>e \<in> set es. ent_SourceID e \<noteq> 0 \<and> ent_Epoch e \<noteq> 0 \<and> epochs_ok es (ent_SourceID e))"

text \<open>What the loop of \<^verbatim>\<open>SetTable\<close> has built after the entries \<open>es\<close>, from the store \<open>heap0\<close>.\<close>

definition source_ok ::
  "tableSource list option \<Rightarrow> nat \<Rightarrow> TableEntry list \<Rightarrow> nat \<Rightarrow> tableSource \<Rightarrow> bool" where
  "source_ok old H0 es H s \<longleftrightarrow> ts_epochs s = map epoch_of (entries_of es (ts_id s)) \<and> ts_state s < H
     \<and> (case table_find old (ts_id s) of
          Some prev \<Rightarrow> ts_state s = ts_state prev
        | None \<Rightarrow> H0 \<le> ts_state s)"

definition built ::
  "tableSource list option \<Rightarrow> sourceState list \<Rightarrow> TableEntry list \<Rightarrow> tableSource list \<times> sourceState list \<Rightarrow> bool" where
  "built old heap0 es acc \<longleftrightarrow> (case acc of (byID, heap) \<Rightarrow>
      distinct (map ts_id byID) \<and> ts_id ` set byID = ent_SourceID ` set es
    \<and> (\<exists>k. heap = heap0 @ replicate k fresh_state)
    \<and> inj_on ts_state (set byID)
    \<and> (\<forall>s \<in> set byID. source_ok old (length heap0) es (length heap) s))"

lemma entries_of_snoc:
  "entries_of (es @ [e]) i = entries_of es i @ (if ent_SourceID e = i then [e] else [])"
  by (simp add: entries_of_def)

lemma source_ok_other:
  "source_ok old H0 es H s \<Longrightarrow> ts_id s \<noteq> ent_SourceID e \<Longrightarrow> H \<le> H' \<Longrightarrow> source_ok old H0 (es @ [e]) H' s"
  by (auto simp: source_ok_def entries_of_snoc)

lemma entries_of_empty: "i \<notin> ent_SourceID ` set es \<Longrightarrow> entries_of es i = []"
  by (auto simp: entries_of_def filter_empty_conv)

lemma entries_ok_snoc:
  "entries_ok (es @ [e]) \<longleftrightarrow> entries_ok es \<and> ent_SourceID e \<noteq> 0 \<and> ent_Epoch e \<noteq> 0
     \<and> ent_Epoch e \<notin> ent_Epoch ` set (entries_of es (ent_SourceID e))
     \<and> length (entries_of es (ent_SourceID e)) < MaxEpochsPerSource"
proof -
  let ?i = "ent_SourceID e"
  let ?new = "ent_Epoch e \<notin> ent_Epoch ` set (entries_of es ?i) \<and> length (entries_of es ?i) < MaxEpochsPerSource"
  have step: "epochs_ok (es @ [e]) i \<longleftrightarrow> epochs_ok es i \<and> (i = ?i \<longrightarrow> ?new)" for i
    by (auto simp: epochs_ok_def entries_of_snoc)
  have "epochs_ok es ?i" if "entries_ok es"
  proof (cases "?i \<in> ent_SourceID ` set es")
    case True
    with that show ?thesis by (auto simp: entries_ok_def)
  next
    case False
    then show ?thesis by (simp add: epochs_ok_def entries_of_empty)
  qed
  then show ?thesis unfolding entries_ok_def step by auto
qed

text \<open>The sources of a table have ascending ids and distinct states, all allocated.\<close>

definition table_wf :: "nat \<Rightarrow> tableSource list option \<Rightarrow> bool" where
  "table_wf H t \<longleftrightarrow> (case t of None \<Rightarrow> True | Some ss \<Rightarrow>
      by_ids ss \<and> inj_on ts_state (set ss)
    \<and> (\<forall>s \<in> set ss. ts_state s < H))"

lemma table_find_mem:
  "table_wf H t \<Longrightarrow> table_find t i = Some s \<Longrightarrow> \<exists>ss. t = Some ss \<and> s \<in> set ss \<and> ts_id s = i \<and> ts_state s < H"
  by (cases t) (auto simp: table_wf_def table_find_eq table_find_def [of None] dest: source_by_id_SomeD)

lemma table_find_state_inj:
  assumes "table_wf H t" and "table_find t i = Some s" and "table_find t j = Some u" and "ts_state s = ts_state u"
  shows "i = j"
  using table_find_mem [OF assms(1,2)] table_find_mem [OF assms(1,3)] assms(1,4)
  by (auto simp: table_wf_def dest: inj_onD)

lemma put_source_new:
  "ts_id src \<notin> ts_id ` set byID \<Longrightarrow> put_source byID src = byID @ [src]"
  by (simp add: put_source_def source_by_id_None)

lemma put_source_old:
  assumes "inj_on ts_id (set byID)" and "src \<in> set byID" and "ts_id src' = ts_id src"
  shows "map ts_id (put_source byID src') = map ts_id byID"
    and "set (put_source byID src') = insert src' (set byID - {src})"
proof -
  have p: "put_source byID src' = map (\<lambda>s. if ts_id s = ts_id src then src' else s) byID"
    using assms(2,3) source_by_id_None [of byID "ts_id src"] by (auto simp: put_source_def)
  then show "map ts_id (put_source byID src') = map ts_id byID" using assms(3) by simp
  have "ts_id s = ts_id src \<longleftrightarrow> s = src" if "s \<in> set byID" for s
    using that assms(1,2) by (auto dest: inj_onD)
  then show "set (put_source byID src') = insert src' (set byID - {src})"
    using assms(2) unfolding p by auto
qed

lemma built_inj: "built old heap0 es (byID, heap) \<Longrightarrow> inj_on ts_id (set byID)"
  by (simp add: built_def distinct_map)

lemma built_known:
  assumes b: "built old heap0 es (byID, heap)" and src: "src \<in> set byID" "ts_id src = ent_SourceID e"
  shows "built old heap0 (es @ [e]) (put_source byID (src\<lparr>ts_epochs := ts_epochs src @ [epoch_of e]\<rparr>), heap)"
    (is "built _ _ _ (?p, _)")
proof -
  let ?src' = "src\<lparr>ts_epochs := ts_epochs src @ [epoch_of e]\<rparr>"
  have ids: "map ts_id ?p = map ts_id byID" and set: "set ?p = insert ?src' (set byID - {src})"
    using put_source_old [OF built_inj [OF b] src(1), of ?src'] by simp_all
  have "ts_id s \<noteq> ent_SourceID e" if "s \<in> set byID - {src}" for s
    using that src built_inj [OF b] by (metis DiffE inj_onD insertI1)
  then have "source_ok old (length heap0) (es @ [e]) (length heap) s" if "s \<in> set byID - {src}" for s
    using that b by (intro source_ok_other [of _ _ _ "length heap"]) (auto simp: built_def)
  moreover have "source_ok old (length heap0) (es @ [e]) (length heap) ?src'"
  proof -
    have "source_ok old (length heap0) es (length heap) src" using b src by (auto simp: built_def)
    then show ?thesis using src(2) by (auto simp: source_ok_def entries_of_snoc split: option.splits)
  qed
  ultimately have "\<forall>s \<in> set ?p. source_ok old (length heap0) (es @ [e]) (length heap) s"
    unfolding set by blast
  moreover have "ts_id ` set ?p = ts_id ` set byID" using ids by (metis set_map)
  moreover have "inj_on ts_state (set ?p)"
    using b src unfolding set built_def by (auto simp: inj_on_def)
  moreover have "ts_id ` set byID = ent_SourceID ` set (es @ [e])"
    using b src by (auto simp: built_def simp flip: src(2))
  ultimately show ?thesis using b ids unfolding built_def by simp
qed

lemma start_source_spec:
  assumes "start_source old i (heap0 @ replicate k fresh_state) = (src, heap')" and "table_wf (length heap0) old"
  shows "ts_id src = i \<and> ts_epochs src = [] \<and> ts_state src < length heap'
    \<and> (\<exists>k'. k \<le> k' \<and> heap' = heap0 @ replicate k' fresh_state)
    \<and> (case table_find old i of Some prev \<Rightarrow> ts_state src = ts_state prev \<and> ts_state src < length heap0
       | None \<Rightarrow> ts_state src = length heap0 + k)"
proof (cases "table_find old i")
  case None
  then have "heap' = heap0 @ replicate (Suc k) fresh_state"
    using assms(1) by (auto simp: start_source_def replicate_append_same)
  then show ?thesis using assms(1) None by (auto simp: start_source_def intro!: exI [of _ "Suc k"])
next
  case (Some prev)
  then show ?thesis using assms table_find_mem [OF assms(2) Some] by (auto simp: start_source_def)
qed

lemma built_new:
  assumes b: "built old heap0 es (byID, heap)" and new: "ent_SourceID e \<notin> ts_id ` set byID"
    and s: "start_source old (ent_SourceID e) heap = (src, heap')" and old: "table_wf (length heap0) old"
  shows "built old heap0 (es @ [e]) (put_source byID (src\<lparr>ts_epochs := [epoch_of e]\<rparr>), heap')"
    (is "built _ _ _ (?p, _)")
proof -
  let ?src' = "src\<lparr>ts_epochs := [epoch_of e]\<rparr>"
  obtain k where h: "heap = heap0 @ replicate k fresh_state" using b by (auto simp: built_def)
  note st = start_source_spec [OF s [unfolded h] old]
  then have p: "?p = byID @ [?src']" using new by (intro put_source_new) simp
  have len: "length heap \<le> length heap'" using st h by auto
  have es: "entries_of es (ent_SourceID e) = []"
    using b new by (intro entries_of_empty) (simp add: built_def)
  have "ts_state x \<noteq> ts_state src" if x: "x \<in> set byID" for x
  proof
    assume eq: "ts_state x = ts_state src"
    have xs: "ts_state x < length heap" and
      xc: "case table_find old (ts_id x) of Some prev \<Rightarrow> ts_state x = ts_state prev | None \<Rightarrow> length heap0 \<le> ts_state x"
      using b x by (auto simp: built_def source_ok_def)
    show False
    proof (cases "table_find old (ent_SourceID e)")
      case None
      with st eq have e: "ts_state x = length heap" by (simp add: h)
      then show False using xs by simp
    next
      case (Some prev)
      with st eq xc obtain prev' where "table_find old (ts_id x) = Some prev'" "ts_state prev' = ts_state prev"
        by (cases "table_find old (ts_id x)") auto
      with table_find_state_inj [OF old _ Some] have "ts_id x = ent_SourceID e" by blast
      then show False using new x by (metis imageI)
    qed
  qed
  then have "inj_on ts_state (set ?p)" using b unfolding p built_def by (auto simp: inj_on_def) metis
  moreover have "source_ok old (length heap0) (es @ [e]) (length heap') s" if "s \<in> set byID" for s
  proof (rule source_ok_other [OF _ _ len])
    show "source_ok old (length heap0) es (length heap) s" using that b by (auto simp: built_def)
    show "ts_id s \<noteq> ent_SourceID e" using that new by (metis imageI)
  qed
  moreover have "source_ok old (length heap0) (es @ [e]) (length heap') ?src'"
    using st es by (auto simp: source_ok_def entries_of_snoc split: option.splits)
  ultimately show ?thesis
    using b st new unfolding p built_def by (auto simp: image_iff)
qed

lemma add_entry_step:
  assumes b: "built old heap0 es acc" and old: "table_wf (length heap0) old" and ok: "entries_ok es"
  shows "if entries_ok (es @ [e]) then \<exists>acc'. add_entry old e acc = Inr acc' \<and> built old heap0 (es @ [e]) acc'
     else \<exists>err. add_entry old e acc = Inl err"
proof -
  obtain byID heap where acc: "acc = (byID, heap)" by (cases acc)
  obtain src heap' where src: "(case source_by_id byID (ent_SourceID e) of Some src \<Rightarrow> (src, heap)
      | None \<Rightarrow> start_source old (ent_SourceID e) heap) = (src, heap')" by fastforce
  obtain k where h: "heap = heap0 @ replicate k fresh_state" using b acc by (auto simp: built_def)
  let ?p = "(put_source byID (src\<lparr>ts_epochs := ts_epochs src @ [epoch_of e]\<rparr>), heap')"
  have eps: "ts_epochs src = map epoch_of (entries_of es (ent_SourceID e)) \<and> built old heap0 (es @ [e]) ?p"
  proof (cases "source_by_id byID (ent_SourceID e)")
    case None
    then have s: "start_source old (ent_SourceID e) heap = (src, heap')" using src by simp
    from None have new: "ent_SourceID e \<notin> ts_id ` set byID" by (simp add: source_by_id_None)
    then have "entries_of es (ent_SourceID e) = []"
      using b acc by (intro entries_of_empty) (simp add: built_def)
    with start_source_spec [OF s [unfolded h] old] built_new [OF b [unfolded acc] new s old]
    show ?thesis by simp
  next
    case (Some x)
    then have x: "src = x" "heap' = heap" "x \<in> set byID" "ts_id x = ent_SourceID e"
      using src source_by_id_SomeD [OF Some] by auto
    then have "source_ok old (length heap0) es (length heap) x" using b acc by (auto simp: built_def)
    with x built_known [OF b [unfolded acc] x(3,4)] show ?thesis by (simp add: source_ok_def)
  qed
  have "ent_Epoch e \<in> ent_Epoch ` set (entries_of es (ent_SourceID e))
      \<longleftrightarrow> (\<exists>ep \<in> set (ts_epochs src). te_epoch ep = ent_Epoch e)"
    using eps unfolding epoch_of_def image_iff by auto metis
  moreover have "length (ts_epochs src) \<noteq> MaxEpochsPerSource
      \<longleftrightarrow> length (entries_of es (ent_SourceID e)) < MaxEpochsPerSource"
  proof -
    have "length (entries_of es (ent_SourceID e)) \<le> MaxEpochsPerSource"
      using ok entries_of_empty [of "ent_SourceID e" es] by (fastforce simp: entries_ok_def epochs_ok_def)
    then show ?thesis using eps by auto
  qed
  ultimately show ?thesis
    using eps ok by (auto simp: add_entry_def acc src entries_ok_snoc epoch_of_def)
qed

lemma add_entries_spec:
  assumes "built old heap0 done acc" and "table_wf (length heap0) old" and "entries_ok done"
  shows "if entries_ok (done @ es)
     then \<exists>acc'. add_entries old es acc = Inr acc' \<and> built old heap0 (done @ es) acc'
     else \<exists>err. add_entries old es acc = Inl err"
  using assms
proof (induction es arbitrary: "done" acc)
  case Nil
  then show ?case by auto
next
  case (Cons e es)
  have mono: "entries_ok (xs @ ys) \<Longrightarrow> entries_ok xs" for xs ys
    by (induction ys rule: rev_induct) (auto simp: entries_ok_snoc simp flip: append_assoc)
  show ?case
  proof (cases "entries_ok (done @ [e])")
    case True
    with add_entry_step [OF Cons.prems, of e] obtain acc' where
      a: "add_entry old e acc = Inr acc'" "built old heap0 (done @ [e]) acc'" by auto
    with Cons.IH [OF a(2) Cons.prems(2) True] show ?thesis
      by (simp only: add_entries.simps sum.case append_assoc append_Cons append_Nil)
  next
    case False
    then have "\<not> entries_ok (done @ e # es)" using mono [of "done @ [e]" es] by auto
    with add_entry_step [OF Cons.prems, of e] False show ?thesis by auto
  qed
qed

lemma entries_ok_Nil [simp]: "entries_ok []"
  by (simp add: entries_ok_def)

lemma built_empty: "built old heap0 [] ([], heap0)"
  by (simp add: built_def)

section \<open>The invariant of a responder\<close>

text \<open>Times below \<open>clock_max\<close> nanoseconds (the year 2116) keep every difference inside an
  \<^verbatim>\<open>int64\<close>.\<close>

definition clock_max :: int where "clock_max = 2 ^ 62"

definition clock_ok :: "int \<Rightarrow> bool" where
  "clock_ok t \<longleftrightarrow> 0 < t \<and> t < clock_max"

definition cache_of :: "(bytes \<Rightarrow> 64 word) \<Rightarrow> sourceState \<Rightarrow> NonceCache" where
  "cache_of seed st = (case nonces st of None \<Rightarrow> NewNonceCache seed | Some c \<Rightarrow> c)"

definition state_ok :: "sourceState \<Rightarrow> bool" where
  "state_ok st \<longleftrightarrow> (\<forall>c. nonces st = Some c \<longrightarrow> nc_inv c) \<and> 0 \<le> credit st \<and> credit st \<le> creditNs
     \<and> 0 \<le> lastNs st \<and> lastNs st < clock_max \<and> 0 \<le> lastNamed st \<and> lastNamed st < clock_max"

definition resp_ok :: "Responder \<Rightarrow> bool" where
  "resp_ok r \<longleftrightarrow> table_wf (length (states r)) (table r) \<and> (\<forall>st \<in> set (states r). state_ok st)
     \<and> 0 \<le> startNs r \<and> startNs r < clock_max"

lemmas clock_defs = clock_ok_def clock_max_def creditNs_def costNs_def SourceRatePerSecond_def second_def
  FreshnessWindow_def NamedReplyInterval_def

lemma wrap64_small [simp]: "- (2 ^ 63) \<le> x \<Longrightarrow> x < 2 ^ 63 \<Longrightarrow> wrap64 x = x"
  by (simp add: in_i64_def)

lemma state_ok_fresh [simp]: "state_ok fresh_state"
  by (simp add: state_ok_def fresh_state_def clock_defs)

lemma nc_inv_cache_of [simp]: "state_ok st \<Longrightarrow> nc_inv (cache_of seed st)"
  by (auto simp: cache_of_def state_ok_def split: option.splits)

lemma resp_ok_New: "0 \<le> start \<Longrightarrow> start < clock_max \<Longrightarrow> resp_ok (NewResponder start)"
  by (simp add: resp_ok_def NewResponder_def table_wf_def)

lemma sort_key_by_ids: "distinct (map ts_id ss) \<Longrightarrow> by_ids (sort_key ts_id ss)"
  by (simp add: by_ids_def strict_sorted_iff distinct_map)

lemma SetTable_ok:
  assumes r: "resp_ok r" and ok: "entries_ok es"
  shows "\<exists>r'. SetTable r es = Inr r' \<and> resp_ok r' \<and> startNs r' = startNs r \<and> lastAuth r' = lastAuth r
     \<and> (\<exists>k. states r' = states r @ replicate k fresh_state)
     \<and> (\<forall>i. case table_find (table r') i of
            None \<Rightarrow> i \<notin> ent_SourceID ` set es
          | Some s \<Rightarrow> i \<in> ent_SourceID ` set es \<and> source_ok (table r) (length (states r)) es (length (states r')) s \<and> ts_id s = i)"
proof -
  from r have wf: "table_wf (length (states r)) (table r)" by (simp add: resp_ok_def)
  obtain byID heap where a: "add_entries (table r) es ([], states r) = Inr (byID, heap)"
      "built (table r) (states r) es (byID, heap)"
    using add_entries_spec [OF built_empty wf entries_ok_Nil, of es] ok by auto
  then obtain k where k: "heap = states r @ replicate k fresh_state" by (auto simp: built_def)
  let ?ss = "sort_key ts_id byID"
  let ?r = "r\<lparr>table := Some ?ss, states := heap\<rparr>"
  have ids: "by_ids ?ss" using a(2) by (intro sort_key_by_ids) (simp add: built_def)
  have src: "source_ok (table r) (length (states r)) es (length heap) s" if "s \<in> set byID" for s
    using that a(2) by (auto simp: built_def)
  have "resp_ok ?r"
    using r a(2) ids src k by (auto simp: resp_ok_def table_wf_def built_def source_ok_def)
  moreover have "case table_find (Some ?ss) i of None \<Rightarrow> i \<notin> ent_SourceID ` set es
      | Some s \<Rightarrow> i \<in> ent_SourceID ` set es \<and> source_ok (table r) (length (states r)) es (length heap) s \<and> ts_id s = i" for i
  proof (cases "source_by_id ?ss i")
    case None
    then have "i \<notin> ent_SourceID ` set es" using a(2) by (simp add: source_by_id_None built_def)
    with None show ?thesis by (simp add: table_find_eq [OF ids])
  next
    case (Some s)
    then have "s \<in> set byID" "ts_id s = i" using source_by_id_SomeD [OF Some] by auto
    moreover have "ent_SourceID ` set es = ts_id ` set byID" using a(2) by (simp add: built_def)
    ultimately show ?thesis using src by (auto simp: table_find_eq [OF ids] Some)
  qed
  ultimately show ?thesis using a k by (intro exI [of _ ?r]) (simp add: SetTable_def cong: option.case_cong)
qed

lemma SetTable_refuses: "resp_ok r \<Longrightarrow> \<not> entries_ok es \<Longrightarrow> \<exists>err. SetTable r es = Inl err"
  using add_entries_spec [OF built_empty, of "states r" "table r" es] entries_ok_Nil
  by (auto simp: resp_ok_def SetTable_def)

text \<open>
  C5. A table refresh: \<^verbatim>\<open>SetTable\<close> succeeds exactly on tables whose ids and epochs are all above
  zero, with at most \<^verbatim>\<open>MaxEpochsPerSource\<close> distinct epochs per source. On success the lookup
  (a binary search) finds exactly the ids listed, with their epochs in the order listed; an id
  of the old table keeps its state, any other gets a state of its own, and no existing state is
  changed. The responder stays well formed.
\<close>

theorem SetTable_spec:
  assumes "resp_ok r"
  shows "(case SetTable r es of
      Inl err \<Rightarrow> \<not> entries_ok es
    | Inr r' \<Rightarrow> entries_ok es \<and> resp_ok r' \<and> startNs r' = startNs r \<and> lastAuth r' = lastAuth r
       \<and> (\<exists>k. states r' = states r @ replicate k fresh_state)
       \<and> (\<forall>i. case table_find (table r') i of
              None \<Rightarrow> i \<notin> ent_SourceID ` set es
            | Some s \<Rightarrow> i \<in> ent_SourceID ` set es \<and> ts_epochs s = map epoch_of (entries_of es i)
                \<and> (case table_find (table r) i of
                     Some prev \<Rightarrow> ts_state s = ts_state prev
                   | None \<Rightarrow> states r' ! ts_state s = fresh_state \<and> length (states r) \<le> ts_state s)))"
proof (cases "entries_ok es")
  case False
  with SetTable_refuses [OF assms] show ?thesis by fastforce
next
  case True
  obtain r' k where r': "SetTable r es = Inr r'" "resp_ok r'" "startNs r' = startNs r" "lastAuth r' = lastAuth r"
      "states r' = states r @ replicate k fresh_state"
    and f: "\<And>i. case table_find (table r') i of None \<Rightarrow> i \<notin> ent_SourceID ` set es
          | Some s \<Rightarrow> i \<in> ent_SourceID ` set es \<and> source_ok (table r) (length (states r)) es (length (states r')) s \<and> ts_id s = i"
    using SetTable_ok [OF assms True] by blast
  have "case table_find (table r') i of None \<Rightarrow> i \<notin> ent_SourceID ` set es
      | Some s \<Rightarrow> i \<in> ent_SourceID ` set es \<and> ts_epochs s = map epoch_of (entries_of es i)
           \<and> (case table_find (table r) i of Some prev \<Rightarrow> ts_state s = ts_state prev
              | None \<Rightarrow> states r' ! ts_state s = fresh_state \<and> length (states r) \<le> ts_state s)" for i
    using f [of i] r'(5) by (auto simp: source_ok_def nth_append split: option.splits)
  with r' True show ?thesis by auto
qed

definition sample_table :: "TableEntry list" where
  "sample_table =
     [\<lparr>ent_SourceID = 7, ent_Epoch = 3, ent_Key = replicate 32 1, ent_Retired = False\<rparr>,
      \<lparr>ent_SourceID = 5, ent_Epoch = 1, ent_Key = replicate 32 2, ent_Retired = False\<rparr>,
      \<lparr>ent_SourceID = 7, ent_Epoch = 2, ent_Key = replicate 32 3, ent_Retired = True\<rparr>]"

theorem SetTable_spec_witness:
  "\<exists>r'. SetTable (NewResponder 1000) sample_table = Inr r' \<and> resp_ok r'
     \<and> (\<exists>s. table_find (table r') 7 = Some s \<and> map te_epoch (ts_epochs s) = [3, 2])"
proof -
  have ok: "entries_ok sample_table"
    by (simp add: entries_ok_def sample_table_def epochs_ok_def entries_of_def MaxEpochsPerSource_def)
  have r: "resp_ok (NewResponder 1000)" by (simp add: resp_ok_New clock_defs)
  note s = SetTable_spec [OF r, of sample_table]
  obtain r' where r': "SetTable (NewResponder 1000) sample_table = Inr r'"
    using s ok by (auto split: sum.splits)
  with s have r: "resp_ok r'" and
    f: "case table_find (table r') 7 of None \<Rightarrow> 7 \<notin> ent_SourceID ` set sample_table
       | Some s \<Rightarrow> ts_epochs s = map epoch_of (entries_of sample_table 7)"
    by (simp, auto split: option.splits dest!: spec [of _ 7])
  have "7 \<in> ent_SourceID ` set sample_table" "map te_epoch (map epoch_of (entries_of sample_table 7)) = [3, 2]"
    by (auto simp: sample_table_def entries_of_def epoch_of_def)
  with f show ?thesis using r' r by (auto split: option.splits)
qed

section \<open>The decision on a verified request\<close>

text \<open>The same decision over the parsed request, without wrap-around and with the replay cache seen
  as a set: \<open>decides\<close> is the specification \<open>handle_verified\<close> is shown to implement.\<close>

definition fresh :: "int \<Rightarrow> int \<Rightarrow> int \<Rightarrow> bool" where
  "fresh start now sent \<longleftrightarrow> start \<le> sent \<and> now - sent \<le> FreshnessWindow \<and> sent - now \<le> FreshnessWindow"

definition refill :: "sourceState \<Rightarrow> int \<Rightarrow> int" where
  "refill st now = (if lastNs st \<noteq> 0 \<and> lastNs st < now then min creditNs (credit st + (now - lastNs st)) else credit st)"

definition named_step :: "sourceState \<Rightarrow> int \<Rightarrow> Verdict \<Rightarrow> sourceState \<times> Verdict" where
  "named_step st now v =
     (if lastNamed st \<noteq> 0 \<and> lastNamed st \<le> now \<and> now < lastNamed st + NamedReplyInterval
      then (st, DropNamedBudget) else (st\<lparr>lastNamed := now\<rparr>, v))"

inductive decides ::
  "(bytes \<Rightarrow> 64 word) \<Rightarrow> int \<Rightarrow> sourceState \<Rightarrow> bool \<Rightarrow> int \<Rightarrow> Request \<Rightarrow> sourceState \<Rightarrow> bool \<Rightarrow> Verdict \<Rightarrow> bool"
  for seed start st retired now req where
  d_retired: "retired \<Longrightarrow> named_step st now ReplyUnknownEpoch = (st', v) \<Longrightarrow>
     decides seed start st retired now req st' False v"
| d_stale: "\<not> retired \<Longrightarrow> \<not> fresh start now (SentUnixNano req) \<Longrightarrow> named_step st now ReplyStale = (st', v) \<Longrightarrow>
     decides seed start st retired now req st' False v"
| d_replay: "\<not> retired \<Longrightarrow> fresh start now (SentUnixNano req) \<Longrightarrow> Nonce req \<in> unexpired (cache_of seed st) now \<Longrightarrow>
     decides seed start st retired now req (st\<lparr>nonces := Some (cache_of seed st)\<rparr>) False DropReplay"
| d_full: "\<not> retired \<Longrightarrow> fresh start now (SentUnixNano req) \<Longrightarrow> Nonce req \<notin> unexpired (cache_of seed st) now \<Longrightarrow>
     Insert (cache_of seed st) (Nonce req) (SentUnixNano req + FreshnessWindow + 1) now = Some (c, False) \<Longrightarrow>
     named_step (st\<lparr>nonces := Some c\<rparr>) now ReplyRateLimited = (st', v) \<Longrightarrow>
     decides seed start st retired now req st' True v"
| d_limited: "\<not> retired \<Longrightarrow> fresh start now (SentUnixNano req) \<Longrightarrow> Nonce req \<notin> unexpired (cache_of seed st) now \<Longrightarrow>
     Insert (cache_of seed st) (Nonce req) (SentUnixNano req + FreshnessWindow + 1) now = Some (c, True) \<Longrightarrow>
     refill st now < costNs \<Longrightarrow>
     named_step (st\<lparr>nonces := Some c, credit := refill st now, lastNs := now\<rparr>) now ReplyRateLimited = (st', v) \<Longrightarrow>
     decides seed start st retired now req st' True v"
| d_ok: "\<not> retired \<Longrightarrow> fresh start now (SentUnixNano req) \<Longrightarrow> Nonce req \<notin> unexpired (cache_of seed st) now \<Longrightarrow>
     Insert (cache_of seed st) (Nonce req) (SentUnixNano req + FreshnessWindow + 1) now = Some (c, True) \<Longrightarrow>
     costNs \<le> refill st now \<Longrightarrow>
     decides seed start st retired now req
       (st\<lparr>nonces := Some c, credit := refill st now - costNs, lastNs := now\<rparr>) True ReplyOK"

inductive_cases decides_okE: "decides seed start st retired now req st' auth ReplyOK"

fun status_of :: "Verdict \<Rightarrow> Status" where
  "status_of ReplyStale = StatusStale"
| "status_of ReplyUnknownEpoch = StatusUnknownEpoch"
| "status_of ReplyRateLimited = StatusRateLimited"
| "status_of _ = StatusOK"

text \<open>What \<^verbatim>\<open>Handle\<close> leaves in the buffer and returns as its length.\<close>

definition answer :: "bytes \<Rightarrow> int \<Rightarrow> Request \<Rightarrow> bytes \<Rightarrow> Verdict \<Rightarrow> bytes \<times> nat" where
  "answer key now req out v =
     (if Replied v
      then (reply_bytes key \<lparr>rep_Status = status_of v, rep_Seq = Seq req, rep_Nonce = Nonce req, ResponderUnixNano = now\<rparr>
              @ drop ReplyLen out, ReplyLen)
      else (out, 0))"

lemma fresh_iff:
  assumes "0 \<le> start" and "clock_ok now" and "in_i64 sent"
  shows "(sent < start \<or> wrap64 (now - sent) > FreshnessWindow \<or> wrap64 (sent - now) > FreshnessWindow)
     \<longleftrightarrow> \<not> fresh start now sent"
proof (cases "sent < start")
  case False
  then have "wrap64 (now - sent) = now - sent" "wrap64 (sent - now) = sent - now"
    using assms by (simp_all add: clock_defs in_i64_def)
  then show ?thesis using False by (auto simp: fresh_def)
qed (simp add: fresh_def)

lemma fresh_expiry:
  "0 \<le> start \<Longrightarrow> clock_ok now \<Longrightarrow> fresh start now sent \<Longrightarrow>
     wrap64 (sent + FreshnessWindow + 1) = sent + FreshnessWindow + 1"
  by (simp add: fresh_def clock_defs)

lemma allow_eq:
  assumes "state_ok st" and "clock_ok now"
  shows "allow st now = (if refill st now < costNs then (st\<lparr>credit := refill st now, lastNs := now\<rparr>, False)
     else (st\<lparr>credit := refill st now - costNs, lastNs := now\<rparr>, True))"
proof -
  have "wrap64 (now - lastNs st) = now - lastNs st"
    and "lastNs st < now \<Longrightarrow> wrap64 (credit st + (now - lastNs st)) = credit st + (now - lastNs st)"
    using assms by (simp_all add: state_ok_def clock_defs)
  then show ?thesis by (simp add: allow_def refill_def Let_def)
qed

lemma named_eq:
  assumes "state_ok st" and "clock_ok now" and "length (Nonce req) = NonceLen"
    and "v \<in> {ReplyStale, ReplyUnknownEpoch, ReplyRateLimited}"
  shows "named st ep now (status_of v) (Seq req) (Nonce req) out =
     (case named_step st now v of (st', w) \<Rightarrow> (st', fst (answer (te_mac ep) now req out w),
         snd (answer (te_mac ep) now req out w), w))"
proof -
  have w: "wrap64 (now - lastNamed st) = now - lastNamed st"
    using assms by (simp add: state_ok_def clock_defs)
  have "writeReply (te_mac ep) (status_of v) (Seq req) (Nonce req) now = reply_bytes (te_mac ep)
      \<lparr>rep_Status = status_of v, rep_Seq = Seq req, rep_Nonce = Nonce req, ResponderUnixNano = now\<rparr>"
    using writeReply_eq [of "\<lparr>rep_Status = status_of v, rep_Seq = Seq req, rep_Nonce = Nonce req, ResponderUnixNano = now\<rparr>"] assms
    by (simp add: wf_Reply_def in_i64_def clock_defs)
  then show ?thesis using assms(4)
    by (auto simp: named_def named_step_def w answer_def StatusStale_def StatusUnknownEpoch_def
        StatusRateLimited_def)
qed

lemma ParseRequest_fields:
  assumes "ParseRequest pkt = Inr req"
  shows "un_be32 (drop reqOffSeq pkt) = Seq req" "subslice reqOffNonce reqOffPad pkt = Nonce req"
    "i64_of_u64 (un_be64 (drop reqOffSent pkt)) = SentUnixNano req"
    "un_be32 (drop reqOffSource pkt) = SourceID req" "un_be32 (drop reqOffEpoch pkt) = Epoch req"
    "length (Nonce req) = NonceLen" "in_i64 (SentUnixNano req)" "checkRequestFrame pkt = None"
    "length pkt = RequestLen"
  using assms
  by (auto simp: ParseRequest_def checkRequestFrame_def req_offsets NonceLen_def split: option.splits if_splits)

lemma named_step_cases:
  assumes "named_step st now v = (st', w)"
  shows "(w = v \<and> st' = st\<lparr>lastNamed := now\<rparr>) \<or> (w = DropNamedBudget \<and> st' = st)"
  using assms by (auto simp: named_step_def split: if_splits)

lemma state_ok_nonces: "state_ok st \<Longrightarrow> nc_inv c \<Longrightarrow> state_ok (st\<lparr>nonces := Some c\<rparr>)"
  by (simp add: state_ok_def)

lemma state_ok_credit:
  "state_ok st \<Longrightarrow> clock_ok now \<Longrightarrow> 0 \<le> x \<Longrightarrow> x \<le> creditNs \<Longrightarrow> state_ok (st\<lparr>credit := x, lastNs := now\<rparr>)"
  by (simp add: state_ok_def clock_ok_def)

lemma state_ok_named:
  "state_ok st \<Longrightarrow> clock_ok now \<Longrightarrow> named_step st now v = (st', w) \<Longrightarrow> state_ok st'"
  by (auto simp: state_ok_def clock_ok_def dest!: named_step_cases)

lemma refill_bounds: "state_ok st \<Longrightarrow> 0 \<le> refill st now \<and> refill st now \<le> creditNs"
  by (auto simp: refill_def state_ok_def creditNs_def second_def)

lemma refill_nonces [simp]: "refill (st\<lparr>nonces := c\<rparr>) now = refill st now"
  by (simp add: refill_def)

lemma handle_verified_decides:
  assumes st: "state_ok st" and start: "0 \<le> start" and now: "clock_ok now" and req: "ParseRequest pkt = Inr req"
  shows "\<exists>st' auth v. handle_verified seed start st ep now pkt out
       = Some (st', auth, fst (answer (te_mac ep) now req out v), snd (answer (te_mac ep) now req out v), v)
     \<and> decides seed start st (te_retired ep) now req st' auth v"
proof -
  note f = ParseRequest_fields [OF req]
  note nm = named_eq [OF _ now f(6)]
  let ?c = "cache_of seed st"
  have now0: "0 \<le> now" using now by (simp add: clock_ok_def)
  have c: "nc_inv ?c" using st by simp
  have seen: "Seen ?c (Nonce req) now = Some (Nonce req \<in> unexpired ?c now)" by (rule nc.seen_law [OF c])
  have cc: "(case nonces st of None \<Rightarrow> NewNonceCache seed | Some c \<Rightarrow> c) = ?c" by (simp add: cache_of_def)
  consider (ret) "te_retired ep" | (stale) "\<not> te_retired ep" "\<not> fresh start now (SentUnixNano req)"
    | (live) "\<not> te_retired ep" "fresh start now (SentUnixNano req)" by blast
  then show ?thesis
  proof cases
    case ret
    obtain st' v where n: "named_step st now ReplyUnknownEpoch = (st', v)" by fastforce
    with nm [OF st, of ReplyUnknownEpoch] ret have "handle_verified seed start st ep now pkt out
       = Some (st', False, fst (answer (te_mac ep) now req out v), snd (answer (te_mac ep) now req out v), v)"
      by (simp add: handle_verified_def f)
    then show ?thesis using d_retired [OF ret n] by blast
  next
    case stale
    obtain st' v where n: "named_step st now ReplyStale = (st', v)" by fastforce
    with nm [OF st, of ReplyStale] stale have "handle_verified seed start st ep now pkt out
       = Some (st', False, fst (answer (te_mac ep) now req out v), snd (answer (te_mac ep) now req out v), v)"
      unfolding handle_verified_def f Let_def fresh_iff [OF start now f(7)] by simp
    then show ?thesis using d_stale [OF stale n] by blast
  next
    case live
    note hv = handle_verified_def [of seed start st ep now pkt out, unfolded f Let_def fresh_iff [OF start now f(7)] cc seen
        fresh_expiry [OF start now live(2)]]
    show ?thesis
    proof (cases "Nonce req \<in> unexpired ?c now")
      case True
      then show ?thesis using d_replay [OF live True] live
        by (intro exI [of _ "st\<lparr>nonces := Some ?c\<rparr>"] exI [of _ False] exI [of _ DropReplay]) (simp add: hv answer_def)
    next
      case new: False
      obtain c' ok where i: "Insert ?c (Nonce req) (SentUnixNano req + FreshnessWindow + 1) now = Some (c', ok)"
        using nc.ins_returns [OF c now0] by blast
      have c': "state_ok (st\<lparr>nonces := Some c'\<rparr>)" by (rule state_ok_nonces [OF st nc.ins_inv [OF c now0 i]])
      consider (full) "ok = False" | (lim) "ok = True" "refill st now < costNs" | (ok) "ok = True" "costNs \<le> refill st now"
        by fastforce
      then show ?thesis
      proof cases
        case full
        obtain st' v where n: "named_step (st\<lparr>nonces := Some c'\<rparr>) now ReplyRateLimited = (st', v)" by fastforce
        with nm [OF c', of ReplyRateLimited] live new i full have "handle_verified seed start st ep now pkt out
           = Some (st', True, fst (answer (te_mac ep) now req out v), snd (answer (te_mac ep) now req out v), v)"
          by (simp add: hv)
        then show ?thesis using d_full [OF live new i [unfolded full] n] by blast
      next
        case lim
        let ?st = "st\<lparr>nonces := Some c', credit := refill st now, lastNs := now\<rparr>"
        have s: "state_ok ?st" using state_ok_credit [OF c' now] refill_bounds [OF st] by simp
        obtain st' v where n: "named_step ?st now ReplyRateLimited = (st', v)" by fastforce
        with nm [OF s, of ReplyRateLimited] live new i lim have "handle_verified seed start st ep now pkt out
           = Some (st', True, fst (answer (te_mac ep) now req out v), snd (answer (te_mac ep) now req out v), v)"
          by (simp add: hv allow_eq [OF c' now])
        then show ?thesis using d_limited [OF live new i [unfolded lim(1)] lim(2) n] by blast
      next
        case ok
        have "writeReply (te_mac ep) StatusOK (Seq req) (Nonce req) now @ drop ReplyLen out
            = fst (answer (te_mac ep) now req out ReplyOK)"
          using writeReply_eq [of "\<lparr>rep_Status = StatusOK, rep_Seq = Seq req, rep_Nonce = Nonce req, ResponderUnixNano = now\<rparr>"] f(6) now
          by (simp add: answer_def wf_Reply_def in_i64_def clock_defs)
        then show ?thesis using d_ok [OF live new i [unfolded ok(1)] ok(2)] live new i ok
          by (intro exI conjI, rule_tac [2] d_ok [OF live new i [unfolded ok(1)] ok(2)])
            (simp add: hv allow_eq [OF c' now] answer_def)
      qed
    qed
  qed
qed

lemma decides_state_ok:
  assumes "decides seed start st ret now req st' auth v" and st: "state_ok st" and now: "clock_ok now"
  shows "state_ok st'"
proof -
  have now0: "0 \<le> now" using now by (simp add: clock_ok_def)
  have inv: "state_ok (st\<lparr>nonces := Some c\<rparr>)" if "Insert (cache_of seed st) n e now = Some (c, ok)" for c n e ok
    using nc.ins_inv [OF nc_inv_cache_of [OF st] now0 that] by (rule state_ok_nonces [OF st])
  show ?thesis using assms(1)
  proof cases
    case (d_limited c)
    with inv [OF d_limited(5)] refill_bounds [OF st] show ?thesis
      by (intro state_ok_named [OF _ now d_limited(7)] state_ok_credit [of "st\<lparr>nonces := Some c\<rparr>", simplified] now) auto
  next
    case (d_ok c)
    have "costNs \<le> creditNs" "0 \<le> costNs" by (simp_all add: clock_defs)
    with d_ok inv [OF d_ok(7)] refill_bounds [OF st, of now] show ?thesis
      using state_ok_credit [of "st\<lparr>nonces := Some c\<rparr>", OF _ now, of "refill st now - costNs"] by simp
  qed (use st now inv state_ok_named state_ok_nonces nc_inv_cache_of in blast)+
qed

section \<open>What one datagram does\<close>

text \<open>A datagram is verified by an epoch of a source when it parses, the source and the epoch it
  names are in the table, and its tag verifies under that epoch's key.\<close>

definition verified_by ::
  "tableSource list option \<Rightarrow> bytes \<Rightarrow> Request \<Rightarrow> tableSource \<Rightarrow> tableEpoch \<Rightarrow> bool" where
  "verified_by t pkt req src ep \<longleftrightarrow> ParseRequest pkt = Inr req \<and> table_find t (SourceID req) = Some src
     \<and> find (\<lambda>ep. te_epoch ep = Epoch req) (ts_epochs src) = Some ep \<and> VerifyRequest pkt (te_mac ep)"

definition state_after :: "Responder \<Rightarrow> tableSource \<Rightarrow> int \<Rightarrow> sourceState \<Rightarrow> bool \<Rightarrow> Responder" where
  "state_after r src now st' auth =
     r\<lparr>states := (states r)[ts_state src := st'], lastAuth := if auth then now else lastAuth r\<rparr>"

lemma verified_by_det:
  "verified_by t pkt req src ep \<Longrightarrow> verified_by t pkt req' src' ep' \<Longrightarrow> req' = req \<and> src' = src \<and> ep' = ep"
  by (auto simp: verified_by_def)

lemma ParseRequest_ok: "checkRequestFrame pkt = None \<Longrightarrow> \<exists>req. ParseRequest pkt = Inr req"
  by (simp add: ParseRequest_def)

lemma handle_at_unverified:
  assumes "\<not> (ReplyLen \<le> length out \<and> (\<exists>req src ep. verified_by t pkt req src ep))"
  shows "\<exists>v. \<not> Authenticated v \<and> (\<forall>seed r now. handle_at t seed r now pkt out = Some (r, out, 0, v))"
proof (cases "length pkt = RequestLen \<and> ReplyLen \<le> length out \<and> checkRequestFrame pkt = None")
  case False
  then consider "length pkt \<noteq> RequestLen \<or> length out < ReplyLen"
    | "length pkt = RequestLen" "\<not> length out < ReplyLen" "checkRequestFrame pkt \<noteq> None" by linarith
  then show ?thesis
    by cases (intro exI [of _ DropLength] exI [of _ DropMalformed]; auto simp: handle_at_def)+
next
  case True
  then obtain req where req: "ParseRequest pkt = Inr req" using ParseRequest_ok by blast
  note f = ParseRequest_fields [OF req]
  show ?thesis
  proof (cases "\<exists>src ep. table_find t (SourceID req) = Some src
        \<and> find (\<lambda>ep. te_epoch ep = Epoch req) (ts_epochs src) = Some ep")
    case False
    then show ?thesis using True
      by (cases "table_find t (SourceID req)") (auto simp: handle_at_def f split: option.splits)
  next
    case found: True
    then obtain src ep where se: "table_find t (SourceID req) = Some src"
        "find (\<lambda>ep. te_epoch ep = Epoch req) (ts_epochs src) = Some ep" by blast
    with assms True req have "\<not> VerifyRequest pkt (te_mac ep)" by (auto simp: verified_by_def)
    then show ?thesis using True se by (simp add: handle_at_def f VerifyRequest_def)
  qed
qed

lemma handle_at_step:
  assumes "verified_by t pkt req src ep" and "ReplyLen \<le> length out"
  shows "handle_at t seed r now pkt out =
     (case handle_verified seed (startNs r) (states r ! ts_state src) ep now pkt out of
        None \<Rightarrow> None
      | Some (st', auth, out', k, v) \<Rightarrow> Some (state_after r src now st' auth, out', k, v))"
proof -
  from assms have req: "ParseRequest pkt = Inr req" by (simp add: verified_by_def)
  show ?thesis using assms unfolding state_after_def
    by (simp add: handle_at_def ParseRequest_fields [OF req] verified_by_def VerifyRequest_def)
qed

lemma handle_at_verified:
  assumes v: "verified_by t pkt req src ep" and out: "ReplyLen \<le> length out" and r: "resp_ok r"
    and t: "table_wf (length (states r)) t" and now: "clock_ok now"
  shows "\<exists>st' auth v. handle_at t seed r now pkt out = Some (state_after r src now st' auth,
        fst (answer (te_mac ep) now req out v), snd (answer (te_mac ep) now req out v), v)
     \<and> decides seed (startNs r) (states r ! ts_state src) (te_retired ep) now req st' auth v
     \<and> handle_verified seed (startNs r) (states r ! ts_state src) ep now pkt out
        = Some (st', auth, fst (answer (te_mac ep) now req out v), snd (answer (te_mac ep) now req out v), v)"
proof -
  from v have req: "ParseRequest pkt = Inr req" by (simp add: verified_by_def)
  note f = ParseRequest_fields [OF req]
  from v have "ts_state src < length (states r)"
    using table_find_mem [OF t] by (auto simp: verified_by_def)
  then have "state_ok (states r ! ts_state src)" using r by (simp add: resp_ok_def)
  moreover have "0 \<le> startNs r" using r by (simp add: resp_ok_def)
  ultimately obtain st' auth w where
    h: "handle_verified seed (startNs r) (states r ! ts_state src) ep now pkt out
       = Some (st', auth, fst (answer (te_mac ep) now req out w), snd (answer (te_mac ep) now req out w), w)"
      "decides seed (startNs r) (states r ! ts_state src) (te_retired ep) now req st' auth w"
    using handle_verified_decides [OF _ _ now req] by blast
  have "handle_at t seed r now pkt out = Some (state_after r src now st' auth,
        fst (answer (te_mac ep) now req out w), snd (answer (te_mac ep) now req out w), w)"
    using handle_at_step [OF v out] h(1) by simp
  with h show ?thesis by blast
qed

lemma decides_authenticated: "decides seed start st ret now req st' auth v \<Longrightarrow> Authenticated v"
  by (induction rule: decides.induct) (auto dest!: named_step_cases)

lemma state_after_ok:
  "resp_ok r \<Longrightarrow> state_ok st' \<Longrightarrow> resp_ok (state_after r src now st' auth)"
  by (auto simp: resp_ok_def state_after_def dest: set_update_subset_insert [THEN subsetD])

lemma state_after_simps [simp]:
  "table (state_after r src now st' auth) = table r"
  "startNs (state_after r src now st' auth) = startNs r"
  "states (state_after r src now st' auth) = (states r)[ts_state src := st']"
  "length (states (state_after r src now st' auth)) = length (states r)"
  by (simp_all add: state_after_def)

text \<open>What \<^verbatim>\<open>Handle\<close> does, as one case distinction every later proof starts from.\<close>

lemma Handle_cases:
  assumes r: "resp_ok r" and now: "clock_ok now"
  obtains (dropped) v where "Handle seed r now pkt out = Some (r, out, 0, v)" "\<not> Authenticated v"
      "\<not> (ReplyLen \<le> length out \<and> (\<exists>req src ep. verified_by (table r) pkt req src ep))"
  | (verified) req src ep st' auth v where "verified_by (table r) pkt req src ep" "ReplyLen \<le> length out"
      "Handle seed r now pkt out = Some (state_after r src now st' auth,
        fst (answer (te_mac ep) now req out v), snd (answer (te_mac ep) now req out v), v)"
      "decides seed (startNs r) (states r ! ts_state src) (te_retired ep) now req st' auth v"
      "state_ok (states r ! ts_state src)" "state_ok st'" "ts_state src < length (states r)"
      "handle_verified seed (startNs r) (states r ! ts_state src) ep now pkt out
        = Some (st', auth, fst (answer (te_mac ep) now req out v), snd (answer (te_mac ep) now req out v), v)"
proof (cases "ReplyLen \<le> length out \<and> (\<exists>req src ep. verified_by (table r) pkt req src ep)")
  case False
  then show ?thesis using handle_at_unverified [OF False] dropped unfolding Handle_def by blast
next
  case True
  then obtain req src ep where v: "verified_by (table r) pkt req src ep" "ReplyLen \<le> length out" by blast
  from r have t: "table_wf (length (states r)) (table r)" by (simp add: resp_ok_def)
  then have l: "ts_state src < length (states r)"
    using v table_find_mem [OF t] by (auto simp: verified_by_def)
  then have s: "state_ok (states r ! ts_state src)" using r by (simp add: resp_ok_def)
  obtain st' auth w where h: "handle_at (table r) seed r now pkt out = Some (state_after r src now st' auth,
        fst (answer (te_mac ep) now req out w), snd (answer (te_mac ep) now req out w), w)"
     "decides seed (startNs r) (states r ! ts_state src) (te_retired ep) now req st' auth w"
     "handle_verified seed (startNs r) (states r ! ts_state src) ep now pkt out
        = Some (st', auth, fst (answer (te_mac ep) now req out w), snd (answer (te_mac ep) now req out w), w)"
    using handle_at_verified [OF v r t now] by blast
  then show ?thesis
    using verified [OF v h(1) [folded Handle_def] h(2) s decides_state_ok [OF h(2) s now] l h(3)] by blast
qed

lemma Handle_returns:
  assumes "resp_ok r" and "clock_ok now"
  shows "\<exists>r' out' k v. Handle seed r now pkt out = Some (r', out', k, v) \<and> resp_ok r' \<and> table r' = table r"
  by (rule Handle_cases [OF assms, of seed pkt out]) (auto intro: state_after_ok assms)

lemma answer_replied:
  assumes "Replied v" and "ReplyLen \<le> length out" and "length (Nonce req) = NonceLen" and "clock_ok now"
  shows "\<exists>rep. answer key now req out v = (rep @ drop ReplyLen out, ReplyLen) \<and> length rep = ReplyLen
     \<and> ParseReply rep key = Inr \<lparr>rep_Status = status_of v, rep_Seq = Seq req, rep_Nonce = Nonce req, ResponderUnixNano = now\<rparr>"
proof -
  let ?r = "\<lparr>rep_Status = status_of v, rep_Seq = Seq req, rep_Nonce = Nonce req, ResponderUnixNano = now\<rparr>"
  have "wf_Reply ?r" using assms by (simp add: wf_Reply_def in_i64_def clock_defs)
  moreover have "known_Status (status_of v)"
    by (cases v) (simp_all add: known_Status_def StatusOK_def StatusStale_def StatusUnknownEpoch_def
        StatusRateLimited_def word_le_nat_alt)
  ultimately show ?thesis using assms(1)
    by (intro exI [of _ "reply_bytes key ?r"]) (simp add: answer_def ParseReply_reply_bytes)
qed

text \<open>
  C2. Only authenticated requests are answered, and an answer is never longer than its request.
  For every datagram and every buffer \<^verbatim>\<open>Handle\<close> returns; a verdict is authenticated exactly when
  the buffer can hold a reply and the datagram's tag verifies under a key the table holds for the
  source and epoch it names; otherwise the responder is unchanged. A reply is a \<^verbatim>\<open>ReplyLen\<close> prefix
  of the buffer, shorter than the request, that the source parses under that key to the verdict's
  status, the request's sequence number and nonce, and the responder's time; without a reply the
  buffer is not written.
\<close>

theorem Handle_answers_authenticated:
  assumes r: "resp_ok r" and now: "clock_ok now"
  shows "\<exists>r' out' k v. Handle seed r now pkt out = Some (r', out', k, v) \<and> resp_ok r' \<and> table r' = table r
     \<and> (Authenticated v \<longleftrightarrow> ReplyLen \<le> length out \<and> (\<exists>req src ep. verified_by (table r) pkt req src ep))
     \<and> (\<not> Authenticated v \<longrightarrow> r' = r)
     \<and> (if Replied v
        then k = ReplyLen \<and> k < length pkt \<and> drop ReplyLen out' = drop ReplyLen out
          \<and> (\<exists>req src ep. verified_by (table r) pkt req src ep
              \<and> ParseReply (take k out') (te_mac ep) = Inr \<lparr>rep_Status = status_of v, rep_Seq = Seq req,
                    rep_Nonce = Nonce req, ResponderUnixNano = now\<rparr>)
        else k = 0 \<and> out' = out)"
  using r now
proof (cases rule: Handle_cases [of r now seed pkt out])
  case (dropped v)
  moreover from dropped have "\<not> Replied v" by (cases v) simp_all
  ultimately show ?thesis using r by (intro exI conjI) (assumption | simp)+
next
  case (verified req src ep st' auth v)
  have ok: "resp_ok (state_after r src now st' auth)" using r verified(6) by (rule state_after_ok)
  have a: "Authenticated v" by (rule decides_authenticated [OF verified(4)])
  have f: "length (Nonce req) = NonceLen" "length pkt = RequestLen"
    using verified(1) ParseRequest_fields [of pkt req] by (simp_all add: verified_by_def)
  show ?thesis
  proof (cases "Replied v")
    case False
    with verified ok a show ?thesis by (intro exI conjI) (assumption | simp add: answer_def | blast)+
  next
    case True
    obtain rep where rep: "answer (te_mac ep) now req out v = (rep @ drop ReplyLen out, ReplyLen)"
        "length rep = ReplyLen" "ParseReply rep (te_mac ep) = Inr \<lparr>rep_Status = status_of v, rep_Seq = Seq req,
           rep_Nonce = Nonce req, ResponderUnixNano = now\<rparr>"
      using answer_replied [OF True verified(2) f(1) now] by blast
    have "Handle seed r now pkt out = Some (state_after r src now st' auth, rep @ drop ReplyLen out, ReplyLen, v)"
      using verified(3) rep(1) by simp
    moreover have "ReplyLen < length pkt" using f(2) by (simp add: ReplyLen_def RequestLen_def)
    moreover have "\<exists>req src ep. verified_by (table r) pkt req src ep
        \<and> ParseReply (take ReplyLen (rep @ drop ReplyLen out)) (te_mac ep)
          = Inr \<lparr>rep_Status = status_of v, rep_Seq = Seq req, rep_Nonce = Nonce req, ResponderUnixNano = now\<rparr>"
      using verified(1) rep(2,3) by (intro exI) simp
    ultimately show ?thesis using True ok a rep(2) verified(1,2) by (intro exI conjI) (assumption | simp | blast)+
  qed
qed

text \<open>The decision for a verified request, over the set of unexpired nonces.\<close>

lemma Handle_verified_iff:
  assumes r: "resp_ok r" and now: "clock_ok now" and v: "verified_by (table r) pkt req src ep"
    and out: "ReplyLen \<le> length out" and h: "Handle seed r now pkt out = Some (r', out', k, w)"
  shows "\<exists>st' auth. r' = state_after r src now st' auth \<and> ts_state src < length (states r) \<and> state_ok (states r ! ts_state src)
     \<and> decides seed (startNs r) (states r ! ts_state src) (te_retired ep) now req st' auth w"
  using r now
proof (cases rule: Handle_cases [of r now seed pkt out])
  case (dropped w')
  with v out show ?thesis by blast
next
  case (verified req' src' ep' st' auth w')
  with verified_by_det [OF v verified(1)] h show ?thesis by auto
qed

lemma decides_verdict:
  assumes "decides seed start st ret now req st' auth v" and st: "state_ok st" and now: "clock_ok now"
  shows "(v = ReplyOK \<longleftrightarrow> \<not> ret \<and> fresh start now (SentUnixNano req) \<and> Nonce req \<notin> unexpired (cache_of seed st) now
        \<and> card (unexpired (cache_of seed st) now) < NonceCacheSize \<and> costNs \<le> refill st now)
     \<and> (v = DropReplay \<longleftrightarrow> \<not> ret \<and> fresh start now (SentUnixNano req) \<and> Nonce req \<in> unexpired (cache_of seed st) now)
     \<and> (auth \<longleftrightarrow> \<not> ret \<and> fresh start now (SentUnixNano req) \<and> Nonce req \<notin> unexpired (cache_of seed st) now)"
proof -
  have now0: "0 \<le> now" using now by (simp add: clock_ok_def)
  note full = nc.ins_ok_iff [OF nc_inv_cache_of [OF st] now0]
  show ?thesis using assms(1)
  proof cases
    case (d_full c)
    with full [OF d_full(5)] show ?thesis by (auto dest!: named_step_cases)
  next
    case (d_limited c)
    then show ?thesis by (auto dest!: named_step_cases)
  next
    case (d_ok c)
    with full [OF d_ok(7)] show ?thesis by simp
  qed (auto dest!: named_step_cases)
qed

text \<open>
  C4. Which verified requests are answered ok: exactly those of an epoch that is not retired, sent no
  earlier than the responder's start and within \<^verbatim>\<open>FreshnessWindow\<close> of now either way, whose nonce
  is not held unexpired, when fewer than \<^verbatim>\<open>NonceCacheSize\<close> nonces are held and the source's
  refilled credit covers one request. A replay is reported exactly for a fresh request whose
  nonce is held, and the time of the last authenticated request moves to now exactly for fresh
  requests with a new nonce.
\<close>

theorem Handle_ok_iff:
  assumes r: "resp_ok r" and now: "clock_ok now" and v: "verified_by (table r) pkt req src ep"
    and out: "ReplyLen \<le> length out"
  shows "\<exists>r' out' k v. Handle seed r now pkt out = Some (r', out', k, v) \<and>
     (let st = states r ! ts_state src; held = unexpired (cache_of seed st) now;
          timely = (\<not> te_retired ep \<and> fresh (startNs r) now (SentUnixNano req))
      in (v = ReplyOK \<longleftrightarrow> timely \<and> Nonce req \<notin> held \<and> card held < NonceCacheSize \<and> costNs \<le> refill st now)
       \<and> (v = DropReplay \<longleftrightarrow> timely \<and> Nonce req \<in> held)
       \<and> LastAuthenticated r' = (if timely \<and> Nonce req \<notin> held then Some now else LastAuthenticated r))"
proof -
  obtain r' out' k w where h: "Handle seed r now pkt out = Some (r', out', k, w)"
    using Handle_returns [OF r now] by blast
  from Handle_verified_iff [OF r now v out h] obtain st' auth where
    d: "r' = state_after r src now st' auth" "state_ok (states r ! ts_state src)"
       "decides seed (startNs r) (states r ! ts_state src) (te_retired ep) now req st' auth w" by blast
  have "now \<noteq> 0" using now by (simp add: clock_ok_def)
  with h decides_verdict [OF d(3,2) now] show ?thesis
    unfolding Let_def d(1) by (intro exI conjI) (assumption | auto simp: LastAuthenticated_def state_after_def)+
qed

section \<open>Sequences of datagrams and refreshes\<close>

datatype op = OpTable "TableEntry list" | OpHandle "bytes \<Rightarrow> 64 word" int bytes bytes

fun step :: "op \<Rightarrow> Responder \<Rightarrow> (Responder \<times> Verdict option) option" where
  "step (OpTable es) r = (case SetTable r es of Inl err \<Rightarrow> Some (r, None) | Inr r' \<Rightarrow> Some (r', None))"
| "step (OpHandle seed now pkt out) r =
     (case Handle seed r now pkt out of None \<Rightarrow> None | Some (r', out', k, v) \<Rightarrow> Some (r', Some v))"

fun run :: "op list \<Rightarrow> Responder \<Rightarrow> (Responder \<times> Verdict option list) option" where
  "run [] r = Some (r, [])"
| "run (x # xs) r =
     (case step x r of None \<Rightarrow> None
      | Some (r', v) \<Rightarrow> (case run xs r' of None \<Rightarrow> None | Some (r'', vs) \<Rightarrow> Some (r'', v # vs)))"

text \<open>The clock of a sequence never runs backwards, and the tables set on the way keep a source.\<close>

fun clock_run :: "int \<Rightarrow> op list \<Rightarrow> bool" where
  "clock_run t [] = True"
| "clock_run t (OpTable es # xs) = clock_run t xs"
| "clock_run t (OpHandle seed now pkt out # xs) = (t \<le> now \<and> clock_ok now \<and> clock_run now xs)"

fun clock_end :: "int \<Rightarrow> op list \<Rightarrow> int" where
  "clock_end t [] = t"
| "clock_end t (OpTable es # xs) = clock_end t xs"
| "clock_end t (OpHandle seed now pkt out # xs) = clock_end now xs"

definition keeps :: "32 word \<Rightarrow> op list \<Rightarrow> bool" where
  "keeps i ops \<longleftrightarrow> list_all (\<lambda>x. case x of OpTable es \<Rightarrow> i \<in> ent_SourceID ` set es | OpHandle _ _ _ _ \<Rightarrow> True) ops"

definition source_state :: "Responder \<Rightarrow> 32 word \<Rightarrow> sourceState option" where
  "source_state r i = map_option (\<lambda>s. states r ! ts_state s) (table_find (table r) i)"

lemma keeps_simps [simp]:
  "keeps i []"
  "keeps i (OpTable es # xs) \<longleftrightarrow> i \<in> ent_SourceID ` set es \<and> keeps i xs"
  "keeps i (OpHandle seed now pkt out # xs) \<longleftrightarrow> keeps i xs"
  by (auto simp: keeps_def)

lemma SetTable_source_state:
  assumes r: "resp_ok r" and s: "SetTable r es = Inr r'" and i: "i \<in> ent_SourceID ` set es"
  shows "source_state r' i = (case source_state r i of None \<Rightarrow> Some fresh_state | Some st \<Rightarrow> Some st)"
proof -
  have "entries_ok es" using SetTable_refuses [OF r, of es] s by auto
  then obtain k where k: "states r' = states r @ replicate k fresh_state" and
    f: "case table_find (table r') i of None \<Rightarrow> i \<notin> ent_SourceID ` set es
          | Some s \<Rightarrow> source_ok (table r) (length (states r)) es (length (states r')) s \<and> ts_id s = i"
    using SetTable_ok [OF r, of es] s by (auto split: option.splits dest!: spec [of _ i])
  from f i obtain s where s: "table_find (table r') i = Some s"
      "source_ok (table r) (length (states r)) es (length (states r')) s" "ts_id s = i"
    by (auto split: option.splits)
  show ?thesis
  proof (cases "table_find (table r) i")
    case None
    with s k show ?thesis by (auto simp: source_state_def source_ok_def nth_append)
  next
    case (Some prev)
    have "ts_state prev < length (states r)" using r table_find_mem [OF _ Some] by (auto simp: resp_ok_def)
    with Some s k show ?thesis by (simp add: source_state_def source_ok_def nth_append)
  qed
qed

lemma SetTable_resp_ok: "resp_ok r \<Longrightarrow> SetTable r es = Inr r' \<Longrightarrow> resp_ok r'"
  using SetTable_ok [of r es] SetTable_refuses [of r es] by (cases "entries_ok es") auto

lemma source_state_after:
  assumes "resp_ok r" and "table_find (table r) j = Some src"
  shows "source_state (state_after r src now st' auth) i = (if i = j then Some st' else source_state r i)"
proof -
  have t: "table_wf (length (states r)) (table r)" using assms(1) by (simp add: resp_ok_def)
  have "ts_state src < length (states r)" using table_find_mem [OF t assms(2)] by auto
  moreover have "ts_state s \<noteq> ts_state src" if "table_find (table r) i = Some s" "i \<noteq> j" for s
    using that table_find_state_inj [OF t that(1) assms(2)] by blast
  ultimately show ?thesis using assms(2)
    by (cases "table_find (table r) i") (auto simp: source_state_def nth_list_update)
qed

lemma source_state_ok: "resp_ok r \<Longrightarrow> source_state r i = Some st \<Longrightarrow> state_ok st"
  using table_find_mem [of "length (states r)" "table r" i] by (auto simp: source_state_def resp_ok_def)

lemma step_returns:
  "resp_ok r \<Longrightarrow> clock_run t [x] \<Longrightarrow> \<exists>r' v. step x r = Some (r', v) \<and> resp_ok r'"
proof (cases x)
  case (OpTable es)
  assume "resp_ok r"
  with OpTable show ?thesis using SetTable_resp_ok [of r es] by (cases "SetTable r es") auto
next
  case (OpHandle seed now pkt out)
  assume "resp_ok r" "clock_run t [x]"
  then obtain r' out' k v where "Handle seed r now pkt out = Some (r', out', k, v)" "resp_ok r'"
    using OpHandle Handle_returns [of r now seed pkt out] by auto
  with OpHandle show ?thesis by simp
qed

lemma run_returns:
  "resp_ok r \<Longrightarrow> clock_run t xs \<Longrightarrow> \<exists>r' vs. run xs r = Some (r', vs) \<and> resp_ok r' \<and> length vs = length xs"
proof (induction xs arbitrary: r t)
  case (Cons x xs)
  have c: "clock_run t [x]" "\<exists>t'. clock_run t' xs" using Cons.prems(2) by (cases x; auto)+
  obtain r' v where "step x r = Some (r', v)" "resp_ok r'" using step_returns [OF Cons.prems(1) c(1)] by blast
  with Cons.IH c(2) show ?case by fastforce
qed simp

text \<open>
  A mark is a fact about one source's state that a decision on that source keeps as time
  passes. What \<open>source_mark\<close> gives is that a mark made once holds at every later point of a sequence
  whose tables keep the source, whatever else is handled in between. The bounds below are marks.
\<close>

locale source_mark =
  fixes marked :: "sourceState \<Rightarrow> int \<Rightarrow> bool"
  assumes mark_time: "marked st t \<Longrightarrow> t \<le> t' \<Longrightarrow> marked st t'"
    and mark_decides: "marked st now \<Longrightarrow> state_ok st \<Longrightarrow> clock_ok now \<Longrightarrow>
          decides seed start st ret now req st' auth v \<Longrightarrow> marked st' now"
begin

lemma Handle_keeps:
  assumes r: "resp_ok r" and now: "clock_ok now" and st: "source_state r i = Some st" and m: "marked st now"
    and h: "Handle seed r now pkt out = Some (r', out', k, v)"
  shows "\<exists>st'. source_state r' i = Some st' \<and> marked st' now"
  using r now
proof (cases rule: Handle_cases [of r now seed pkt out])
  case (dropped v)
  with h st m show ?thesis by auto
next
  case (verified req src ep st' auth v')
  have f: "table_find (table r) (SourceID req) = Some src" using verified(1) by (simp add: verified_by_def)
  have "r' = state_after r src now st' auth" using h verified(3) by simp
  then have e: "source_state r' i = (if i = SourceID req then Some st' else source_state r i)"
    using source_state_after [OF r f] by simp
  show ?thesis
  proof (cases "i = SourceID req")
    case True
    then have "states r ! ts_state src = st" using st f by (simp add: source_state_def)
    with verified(4,5) mark_decides [OF m _ now] e True show ?thesis by auto
  next
    case False
    with e st m show ?thesis by simp
  qed
qed

lemma run_keeps:
  "resp_ok r \<Longrightarrow> clock_run t xs \<Longrightarrow> keeps i xs \<Longrightarrow> source_state r i = Some st \<Longrightarrow> marked st t \<Longrightarrow>
     run xs r = Some (r', vs) \<Longrightarrow> \<exists>st'. source_state r' i = Some st' \<and> marked st' (clock_end t xs)"
proof (induction xs arbitrary: r t st vs)
  case (Cons x xs)
  show ?case
  proof (cases x)
    case (OpTable es)
    obtain r1 v vs' where r1: "step x r = Some (r1, v)" "run xs r1 = Some (r', vs')" "resp_ok r1"
      using Cons.prems(6) step_returns [OF Cons.prems(1), of t x] OpTable by (auto split: option.splits)
    have "source_state r1 i = Some st"
      using r1(1) SetTable_source_state [OF Cons.prems(1)] Cons.prems(3,4) OpTable by (auto split: sum.splits)
    with Cons.IH [OF r1(3) _ _ _ Cons.prems(5) r1(2)] Cons.prems(2,3) OpTable show ?thesis by simp
  next
    case (OpHandle seed now pkt out)
    with Cons.prems(2) have t: "t \<le> now" "clock_ok now" "clock_run now xs" by auto
    obtain r1 out' k v vs' where r1: "Handle seed r now pkt out = Some (r1, out', k, v)"
        "run xs r1 = Some (r', vs')" "resp_ok r1"
      using Handle_returns [OF Cons.prems(1) t(2), of seed pkt out] Cons.prems(6) OpHandle
      by (auto split: option.splits)
    obtain st1 where "source_state r1 i = Some st1" "marked st1 now"
      using Handle_keeps [OF Cons.prems(1) t(2) Cons.prems(4) mark_time [OF Cons.prems(5) t(1)] r1(1)] by blast
    with Cons.IH [OF r1(3) t(3) _ _ _ r1(2)] Cons.prems(3) OpHandle show ?thesis by simp
  qed
qed auto

end

subsection \<open>Marks of the responder\<close>

definition holds_nonce :: "bytes \<Rightarrow> int \<Rightarrow> sourceState \<Rightarrow> int \<Rightarrow> bool" where
  "holds_nonce n e st t \<longleftrightarrow> (\<exists>c. nonces st = Some c \<and> (\<forall>t' \<ge> t. t' < e \<longrightarrow> n \<in> unexpired c t'))"

definition named_since :: "int \<Rightarrow> sourceState \<Rightarrow> int \<Rightarrow> bool" where
  "named_since t0 st t \<longleftrightarrow> t0 \<le> lastNamed st \<and> lastNamed st \<le> t"

lemma named_step_nonces: "named_step st now v = (st', w) \<Longrightarrow> nonces st' = nonces st"
  by (auto dest!: named_step_cases)

lemma holds_nonce_insert:
  assumes st: "state_ok st" and now: "0 \<le> now" and m: "holds_nonce n e st now"
    and new: "x \<notin> unexpired (cache_of seed st) now" and i: "Insert (cache_of seed st) x e' now = Some (c', ok)"
    and st': "nonces st' = Some c'"
  shows "holds_nonce n e st' now"
proof -
  from m obtain c where c: "nonces st = Some c" "\<And>t'. now \<le> t' \<Longrightarrow> t' < e \<Longrightarrow> n \<in> unexpired c t'"
    by (auto simp: holds_nonce_def)
  then have cc: "cache_of seed st = c" and inv: "nc_inv c" using st by (auto simp: cache_of_def state_ok_def)
  have "Seen c x now = Some False" using new cc nc.seen_law [OF inv] by simp
  then have "n \<in> unexpired c' t'" if "now \<le> t'" "t' < e" for t'
    using that c(2) nc.ins_unseen_keeps [OF inv now _ i [unfolded cc] that(1)] by blast
  then show ?thesis using st' by (simp add: holds_nonce_def)
qed

interpretation held: source_mark "holds_nonce n e" for n e
proof
  fix st t t'
  assume "holds_nonce n e st t" "t \<le> t'"
  then show "holds_nonce n e st t'" by (fastforce simp: holds_nonce_def)
next
  fix st now seed start ret req st' auth v
  assume m: "holds_nonce n e st now" and st: "state_ok st" and now: "clock_ok now"
    and d: "decides seed start st ret now req st' auth v"
  from now have now0: "0 \<le> now" by (simp add: clock_ok_def)
  note ins = holds_nonce_insert [OF st now0 m]
  from d show "holds_nonce n e st' now"
  proof cases
    case d_replay
    with m show ?thesis by (auto simp: holds_nonce_def cache_of_def)
  next
    case (d_full c)
    from ins [OF d_full(4,5)] named_step_nonces [OF d_full(6)] show ?thesis by simp
  next
    case (d_limited c)
    from ins [OF d_limited(4,5)] named_step_nonces [OF d_limited(7)] show ?thesis by simp
  next
    case (d_ok c)
    from ins [OF d_ok(6,7)] d_ok(1) show ?thesis by simp
  qed (use m named_step_nonces in \<open>auto simp: holds_nonce_def\<close>)
qed

interpretation last_named: source_mark "named_since t0" for t0
proof
  fix st now seed start ret req st' auth v
  assume m: "named_since t0 st now" and d: "decides seed start st ret now req st' auth v"
  from d show "named_since t0 st' now"
    by cases (use m in \<open>auto simp: named_since_def dest!: named_step_cases\<close>)
qed (auto simp: named_since_def)

lemma run_append:
  "run (xs @ ys) r = (case run xs r of None \<Rightarrow> None | Some (r1, vs) \<Rightarrow>
     (case run ys r1 of None \<Rightarrow> None | Some (r2, ws) \<Rightarrow> Some (r2, vs @ ws)))"
  by (induction xs arbitrary: r) (auto split: option.splits)

lemma clock_run_append: "clock_run t (xs @ ys) \<longleftrightarrow> clock_run t xs \<and> clock_run (clock_end t xs) ys"
  by (induction t xs rule: clock_run.induct) auto

text \<open>A sequence from one datagram to another, taken apart.\<close>

lemma run_between:
  assumes r: "resp_ok r"
    and clk: "clock_run t (OpHandle s1 t1 p1 o1 # mid @ [OpHandle s2 t2 p2 o2])"
    and run: "run (OpHandle s1 t1 p1 o1 # mid @ [OpHandle s2 t2 p2 o2]) r = Some (r', vs)"
  obtains r1 o1' k1 v1 r2 ws o2' k2 v2 where
    "Handle s1 r t1 p1 o1 = Some (r1, o1', k1, v1)" "resp_ok r1" "run mid r1 = Some (r2, ws)" "resp_ok r2"
    "Handle s2 r2 t2 p2 o2 = Some (r', o2', k2, v2)" "hd vs = Some v1" "last vs = Some v2"
    "clock_ok t1" "clock_run t1 mid" "clock_end t1 mid \<le> t2" "clock_ok t2"
proof -
  from clk have c: "clock_ok t1" "clock_run t1 mid" "clock_end t1 mid \<le> t2" "clock_ok t2"
    by (auto simp: clock_run_append)
  obtain r1 o1' k1 v1 where h1: "Handle s1 r t1 p1 o1 = Some (r1, o1', k1, v1)" "resp_ok r1"
    using Handle_returns [OF r c(1)] by blast
  obtain r2 ws where m: "run mid r1 = Some (r2, ws)" "resp_ok r2"
    using run_returns [OF h1(2) c(2)] by blast
  obtain r3 o2' k2 v2 where h2: "Handle s2 r2 t2 p2 o2 = Some (r3, o2', k2, v2)"
    using Handle_returns [OF m(2) c(4)] by blast
  with run h1 m have "r' = r3" "vs = Some v1 # ws @ [Some v2]" by (auto simp: run_append)
  with h1 m h2 c that show ?thesis by auto
qed

lemma Handle_ok_marks:
  assumes r: "resp_ok r" and now: "clock_ok now" and p: "ParseRequest pkt = Inr req"
    and h: "Handle seed r now pkt out = Some (r', out', k, ReplyOK)"
  shows "\<exists>st'. source_state r' (SourceID req) = Some st'
     \<and> holds_nonce (Nonce req) (SentUnixNano req + FreshnessWindow + 1) st' now"
  using r now
proof (cases rule: Handle_cases [of r now seed pkt out])
  case (dropped v)
  with h show ?thesis by auto
next
  case (verified req' src ep st' auth v)
  with p h have req: "req' = req" and d: "r' = state_after r src now st' auth" "v = ReplyOK"
    and f: "table_find (table r) (SourceID req) = Some src"
    by (auto simp: verified_by_def)
  have now0: "0 \<le> now" using now by (simp add: clock_ok_def)
  from verified(4) obtain c where c: "nonces st' = Some c"
      "Insert (cache_of seed (states r ! ts_state src)) (Nonce req) (SentUnixNano req + FreshnessWindow + 1) now = Some (c, True)"
    unfolding d req by (auto elim!: decides_okE dest: named_step_cases)
  have "holds_nonce (Nonce req) (SentUnixNano req + FreshnessWindow + 1) st' now"
    using nc.ins_holds [OF nc_inv_cache_of [OF verified(5)] now0 c(2)] c(1) by (simp add: holds_nonce_def)
  then show ?thesis using source_state_after [OF r f] d by simp
qed

text \<open>
  C1. No request is answered ok twice. Take any sequence of datagrams and table refreshes under a
  clock that does not run backwards: when a datagram has been answered ok, and every table set
  after it keeps its source, the same datagram is never answered ok again, however late, however
  many other datagrams came between, and whatever the hash seeds are.
\<close>

theorem replayed_request_not_answered:
  assumes r: "resp_ok r"
    and clk: "clock_run t (OpHandle s1 t1 pkt o1 # mid @ [OpHandle s2 t2 pkt o2])"
    and run: "run (OpHandle s1 t1 pkt o1 # mid @ [OpHandle s2 t2 pkt o2]) r = Some (r', vs)"
    and p: "ParseRequest pkt = Inr req" and k: "keeps (SourceID req) mid" and ok: "hd vs = Some ReplyOK"
  shows "last vs \<noteq> Some ReplyOK"
proof
  assume again: "last vs = Some ReplyOK"
  obtain r1 o1' k1 w1 r2 ws o2' k2 w2 where
    h1: "Handle s1 r t1 pkt o1 = Some (r1, o1', k1, w1)" "resp_ok r1"
    and m: "run mid r1 = Some (r2, ws)" "resp_ok r2"
    and h2: "Handle s2 r2 t2 pkt o2 = Some (r', o2', k2, w2)"
    and w: "hd vs = Some w1" "last vs = Some w2"
    and c: "clock_ok t1" "clock_run t1 mid" "clock_end t1 mid \<le> t2" "clock_ok t2"
    by (rule run_between [OF r clk run])
  have [simp]: "w1 = ReplyOK" "w2 = ReplyOK" using w ok again by simp_all
  let ?e = "SentUnixNano req + FreshnessWindow + 1"
  obtain st1 where "source_state r1 (SourceID req) = Some st1" "holds_nonce (Nonce req) ?e st1 t1"
    using Handle_ok_marks [OF r c(1) p, of s1 o1] h1(1) by auto
  then obtain st2 where st2: "source_state r2 (SourceID req) = Some st2"
      "holds_nonce (Nonce req) ?e st2 (clock_end t1 mid)"
    using held.run_keeps [OF h1(2) c(2) k _ _ m(1)] by blast
  then have held: "holds_nonce (Nonce req) ?e st2 t2" using held.mark_time c(3) by blast
  show False using m(2) c(4)
  proof (cases rule: Handle_cases [of r2 t2 s2 pkt o2])
    case (dropped v)
    with h2 show False by auto
  next
    case (verified req' src ep st' auth v)
    then have "req' = req" "v = ReplyOK" "states r2 ! ts_state src = st2"
      using p h2 st2(1) by (auto simp: verified_by_def source_state_def)
    with decides_verdict [OF verified(4,5) c(4)]
    have "fresh (startNs r2) t2 (SentUnixNano req)" "Nonce req \<notin> unexpired (cache_of s2 st2) t2" by simp_all
    then show False using held by (auto simp: holds_nonce_def cache_of_def fresh_def)
  qed
qed

definition is_named :: "Verdict \<Rightarrow> bool" where
  "is_named v \<longleftrightarrow> Replied v \<and> v \<noteq> ReplyOK"

lemma is_named_simps [simp]:
  "\<not> is_named DropNamedBudget" "\<not> is_named DropReplay" "\<not> is_named ReplyOK" "is_named ReplyStale"
  "is_named ReplyUnknownEpoch" "is_named ReplyRateLimited"
  by (simp_all add: is_named_def)

lemma decides_named:
  assumes "decides seed start st ret now req st' auth v" and "is_named v" and "clock_ok now"
  shows "lastNamed st' = now \<and> (lastNamed st = 0 \<or> now < lastNamed st \<or> lastNamed st + NamedReplyInterval \<le> now)"
  using assms by (cases rule: decides.cases) (auto simp: named_step_def split: if_splits)

lemma Handle_named:
  assumes r: "resp_ok r" and now: "clock_ok now" and p: "ParseRequest pkt = Inr req"
    and h: "Handle seed r now pkt out = Some (r', out', k, v)" and v: "is_named v"
  shows "\<exists>st st'. source_state r (SourceID req) = Some st \<and> source_state r' (SourceID req) = Some st'
     \<and> lastNamed st' = now \<and> (lastNamed st = 0 \<or> now < lastNamed st \<or> lastNamed st + NamedReplyInterval \<le> now)"
  using r now
proof (cases rule: Handle_cases [of r now seed pkt out])
  case (dropped w)
  then have "\<not> is_named v" using h by (cases v) (auto simp: is_named_def)
  with v show ?thesis by simp
next
  case (verified req' src ep st' auth w)
  with p h have req: "req' = req" and d: "r' = state_after r src now st' auth" "w = v"
    and f: "table_find (table r) (SourceID req) = Some src"
    by (auto simp: verified_by_def)
  have "source_state r (SourceID req) = Some (states r ! ts_state src)" using f by (simp add: source_state_def)
  with decides_named [OF verified(4) _ now] v d source_state_after [OF r f] show ?thesis by simp
qed

text \<open>
  C7. The budget of non-ok replies: in any sequence under a clock that does not run backwards, two
  replies with a status other than ok to the same source, whose tables between them keep it, are
  at least \<^verbatim>\<open>NamedReplyInterval\<close> apart.
\<close>

theorem named_replies_apart:
  assumes r: "resp_ok r"
    and clk: "clock_run t (OpHandle s1 t1 p1 o1 # mid @ [OpHandle s2 t2 p2 o2])"
    and run: "run (OpHandle s1 t1 p1 o1 # mid @ [OpHandle s2 t2 p2 o2]) r = Some (r', vs)"
    and p1: "ParseRequest p1 = Inr q1" and p2: "ParseRequest p2 = Inr q2" and same: "SourceID q1 = SourceID q2"
    and k: "keeps (SourceID q1) mid" and n1: "hd vs = Some v1" "is_named v1" and n2: "last vs = Some v2" "is_named v2"
  shows "t1 + NamedReplyInterval \<le> t2"
proof -
  obtain r1 o1' k1 w1 r2 ws o2' k2 w2 where
    h1: "Handle s1 r t1 p1 o1 = Some (r1, o1', k1, w1)" "resp_ok r1"
    and m: "run mid r1 = Some (r2, ws)" "resp_ok r2"
    and h2: "Handle s2 r2 t2 p2 o2 = Some (r', o2', k2, w2)"
    and w: "hd vs = Some w1" "last vs = Some w2"
    and c: "clock_ok t1" "clock_run t1 mid" "clock_end t1 mid \<le> t2" "clock_ok t2"
    by (rule run_between [OF r clk run])
  have v: "w1 = v1" "w2 = v2" using w n1(1) n2(1) by simp_all
  obtain st1 where st1: "source_state r1 (SourceID q1) = Some st1" "named_since t1 st1 t1"
    using Handle_named [OF r c(1) p1 h1(1) [unfolded v] n1(2)] by (auto simp: named_since_def)
  obtain st2 where st2: "source_state r2 (SourceID q1) = Some st2" "named_since t1 st2 (clock_end t1 mid)"
    using last_named.run_keeps [OF h1(2) c(2) k st1 m(1)] by blast
  with Handle_named [OF m(2) c(4) p2 h2 [unfolded v] n2(2)] same c(3) c(1) show ?thesis
    by (auto simp: named_since_def clock_ok_def)
qed

subsection \<open>The rate of ok replies\<close>

definition from_source :: "32 word \<Rightarrow> op \<Rightarrow> bool" where
  "from_source i x \<longleftrightarrow> (case x of OpTable _ \<Rightarrow> False
     | OpHandle _ _ pkt _ \<Rightarrow> (case ParseRequest pkt of Inr req \<Rightarrow> SourceID req = i | Inl _ \<Rightarrow> False))"

definition ok_count :: "32 word \<Rightarrow> op list \<Rightarrow> Verdict option list \<Rightarrow> nat" where
  "ok_count i ops vs = length (filter (\<lambda>(x, v). from_source i x \<and> v = Some ReplyOK) (zip ops vs))"

lemma decides_refill:
  assumes "decides seed start st ret now req st' auth v" and "lastNs st \<le> now"
  shows "lastNs st' \<le> now \<and> refill st' now + (if v = ReplyOK then costNs else 0) \<le> refill st now"
  using assms by (cases rule: decides.cases) (auto simp: refill_def dest!: named_step_cases)

lemma refill_time: "lastNs st \<le> t \<Longrightarrow> t \<le> t' \<Longrightarrow> refill st t' \<le> refill st t + (t' - t)"
  by (auto simp: refill_def)

lemma Handle_refill:
  assumes r: "resp_ok r" and now: "clock_ok now" and st: "source_state r i = Some st" "lastNs st \<le> now"
    and h: "Handle seed r now pkt out = Some (r', out', k, v)"
  shows "\<exists>st'. source_state r' i = Some st' \<and> lastNs st' \<le> now \<and>
     refill st' now + (if from_source i (OpHandle seed now pkt out) \<and> v = ReplyOK then costNs else 0) \<le> refill st now"
  using r now
proof (cases rule: Handle_cases [of r now seed pkt out])
  case (dropped w)
  then have "v \<noteq> ReplyOK" "r' = r" using h by auto
  with st show ?thesis by simp
next
  case (verified req src ep st' auth w)
  with h have d: "r' = state_after r src now st' auth" "w = v"
    and f: "table_find (table r) (SourceID req) = Some src" and p: "ParseRequest pkt = Inr req"
    by (auto simp: verified_by_def)
  show ?thesis
  proof (cases "i = SourceID req")
    case True
    then have "states r ! ts_state src = st" using st f by (simp add: source_state_def)
    with decides_refill [OF verified(4)] st True d source_state_after [OF r f] p show ?thesis
      by (simp add: from_source_def)
  next
    case False
    with st d source_state_after [OF r f] p show ?thesis by (simp add: from_source_def)
  qed
qed

lemma ok_count_Cons:
  "ok_count i (x # xs) (v # vs) = (if from_source i x \<and> v = Some ReplyOK then 1 else 0) + ok_count i xs vs"
  by (simp add: ok_count_def)

lemma run_refill:
  "resp_ok r \<Longrightarrow> clock_run t ops \<Longrightarrow> keeps i ops \<Longrightarrow> source_state r i = Some st \<Longrightarrow> lastNs st \<le> t \<Longrightarrow>
     run ops r = Some (r', vs) \<Longrightarrow>
     \<exists>st'. costNs * int (ok_count i ops vs) + refill st' (clock_end t ops) \<le> refill st t + (clock_end t ops - t)
       \<and> state_ok st'"
proof (induction ops arbitrary: r t st vs)
  case Nil
  then show ?case using source_state_ok by (auto simp: ok_count_def)
next
  case (Cons x xs)
  show ?case
  proof (cases x)
    case (OpTable es)
    obtain r1 v vs' where r1: "step x r = Some (r1, v)" "run xs r1 = Some (r', vs')" "resp_ok r1" "vs = v # vs'"
      using Cons.prems(6) step_returns [OF Cons.prems(1), of t x] OpTable by (auto split: option.splits)
    have "source_state r1 i = Some st"
      using r1(1) SetTable_source_state [OF Cons.prems(1)] Cons.prems(3,4) OpTable by (auto split: sum.splits)
    with Cons.IH [OF r1(3) _ _ _ Cons.prems(5) r1(2)] Cons.prems(2,3) OpTable r1(4) show ?thesis
      by (simp add: ok_count_Cons from_source_def)
  next
    case (OpHandle seed now pkt out)
    with Cons.prems(2) have t: "t \<le> now" "clock_ok now" "clock_run now xs" by auto
    obtain r1 out' k v vs' where r1: "Handle seed r now pkt out = Some (r1, out', k, v)"
        "run xs r1 = Some (r', vs')" "resp_ok r1" "vs = Some v # vs'"
      using Handle_returns [OF Cons.prems(1) t(2), of seed pkt out] Cons.prems(6) OpHandle
      by (auto split: option.splits)
    have l: "lastNs st \<le> now" using Cons.prems(5) t(1) by simp
    obtain st1 where st1: "source_state r1 i = Some st1" "lastNs st1 \<le> now"
       "refill st1 now + (if from_source i x \<and> v = ReplyOK then costNs else 0) \<le> refill st now"
      using Handle_refill [OF Cons.prems(1) t(2) Cons.prems(4) l r1(1)] OpHandle by auto
    obtain st2 where st2: "costNs * int (ok_count i xs vs') + refill st2 (clock_end now xs)
         \<le> refill st1 now + (clock_end now xs - now)" "state_ok st2"
      using Cons.IH [OF r1(3) t(3) _ st1(1,2) r1(2)] Cons.prems(3) OpHandle by auto
    have "costNs * int (ok_count i (x # xs) vs)
        = (if from_source i x \<and> v = ReplyOK then costNs else 0) + costNs * int (ok_count i xs vs')"
      by (simp add: r1(4) ok_count_Cons distrib_left)
    with st1(3) st2 refill_time [OF Cons.prems(5) t(1)] OpHandle show ?thesis
      by (intro exI [of _ st2]) auto
  qed
qed

text \<open>
  C6. The rate of a source: over any sequence under a clock that does not run backwards, whose
  tables keep the source, the ok replies to it cost at most the full credit of one second plus
  the time that passed, at \<^verbatim>\<open>costNs\<close> a reply. So no source gets more than \<^verbatim>\<open>SourceRatePerSecond\<close>
  ok replies a second beyond one initial burst of the same number.
\<close>

theorem ok_replies_rate:
  assumes "resp_ok r" and "clock_run t ops" and "keeps i ops" and "source_state r i = Some st" and "lastNs st \<le> t"
    and "run ops r = Some (r', vs)"
  shows "costNs * int (ok_count i ops vs) \<le> creditNs + (clock_end t ops - t)"
proof -
  obtain st' where "costNs * int (ok_count i ops vs) + refill st' (clock_end t ops) \<le> refill st t + (clock_end t ops - t)"
      "state_ok st'"
    using run_refill [OF assms] by blast
  with refill_bounds [of st' "clock_end t ops"] refill_bounds [OF source_state_ok [OF assms(1,4)], of t]
  show ?thesis by linarith
qed

section \<open>A refresh while a datagram is handled\<close>

lemma start_source_heap:
  assumes "start_source old i heap = (src, heap')"
  shows "\<exists>k. heap' = heap @ replicate k fresh_state
     \<and> (\<forall>h2. length h2 = length heap \<longrightarrow> start_source old i h2 = (src, h2 @ replicate k fresh_state))"
proof (cases "table_find old i")
  case None
  with assms show ?thesis by (intro exI [of _ 1]) (auto simp: start_source_def)
next
  case (Some prev)
  with assms show ?thesis by (intro exI [of _ 0]) (auto simp: start_source_def)
qed

lemma add_entry_heap:
  assumes "add_entry old e (byID, heap) = Inr (byID', heap')"
  shows "\<exists>k. heap' = heap @ replicate k fresh_state
     \<and> (\<forall>h2. length h2 = length heap \<longrightarrow> add_entry old e (byID, h2) = Inr (byID', h2 @ replicate k fresh_state))"
proof (cases "source_by_id byID (ent_SourceID e)")
  case None
  obtain src heap1 where s: "start_source old (ent_SourceID e) heap = (src, heap1)" by fastforce
  obtain k where k: "heap1 = heap @ replicate k fresh_state"
      "\<And>h2. length h2 = length heap \<Longrightarrow> start_source old (ent_SourceID e) h2 = (src, h2 @ replicate k fresh_state)"
    using start_source_heap [OF s] by blast
  with assms None s show ?thesis
    by (intro exI [of _ k]) (auto simp: add_entry_def Let_def split: if_splits)
next
  case (Some src)
  with assms show ?thesis by (intro exI [of _ 0]) (auto simp: add_entry_def Let_def split: if_splits)
qed

lemma add_entries_heap:
  "add_entries old es (byID, heap) = Inr (byID', heap') \<Longrightarrow> \<exists>k. heap' = heap @ replicate k fresh_state
     \<and> (\<forall>h2. length h2 = length heap \<longrightarrow> add_entries old es (byID, h2) = Inr (byID', h2 @ replicate k fresh_state))"
proof (induction es arbitrary: byID heap)
  case Nil
  then show ?case by (intro exI [of _ 0]) simp
next
  case (Cons e es)
  then obtain byID1 heap1 where s: "add_entry old e (byID, heap) = Inr (byID1, heap1)"
      "add_entries old es (byID1, heap1) = Inr (byID', heap')" by (auto split: sum.splits)
  obtain k where k: "heap1 = heap @ replicate k fresh_state"
      "\<And>h2. length h2 = length heap \<Longrightarrow> add_entry old e (byID, h2) = Inr (byID1, h2 @ replicate k fresh_state)"
    using add_entry_heap [OF s(1)] by blast
  obtain m where m: "heap' = heap1 @ replicate m fresh_state"
      "\<And>h2. length h2 = length heap1 \<Longrightarrow> add_entries old es (byID1, h2) = Inr (byID', h2 @ replicate m fresh_state)"
    using Cons.IH [OF s(2)] by blast
  show ?case
    using k m by (intro exI [of _ "k + m"]) (simp add: replicate_add)
qed

text \<open>
  C8. \<^verbatim>\<open>SetTable\<close> may run at any point of a \<^verbatim>\<open>Handle\<close> that has already loaded its table: the
  reply, the verdict and the state left behind are those of the two calls one after the other,
  the datagram first. In particular a nonce or a budget recorded by a \<^verbatim>\<open>Handle\<close> that overlaps a
  refresh is not lost.
\<close>

theorem SetTable_during_Handle:
  assumes r: "resp_ok r" and now: "clock_ok now" and s: "SetTable r es = Inr r1"
  shows "\<exists>r' r'' out' k v. Handle seed r now pkt out = Some (r', out', k, v)
     \<and> SetTable r' es = Inr r''
     \<and> handle_at (table r) seed r1 now pkt out = Some (r'', out', k, v)"
proof -
  obtain byID heap where a: "add_entries (table r) es ([], states r) = Inr (byID, heap)"
      and r1: "r1 = r\<lparr>table := Some (sort_key ts_id byID), states := heap\<rparr>"
    using s by (auto simp: SetTable_def split: sum.splits)
  obtain k where k: "heap = states r @ replicate k fresh_state"
      "\<And>h2. length h2 = length (states r) \<Longrightarrow>
         add_entries (table r) es ([], h2) = Inr (byID, h2 @ replicate k fresh_state)"
    using add_entries_heap [OF a] by blast
  show ?thesis using r now
  proof (cases rule: Handle_cases [of r now seed pkt out])
    case (dropped v)
    obtain w where "\<forall>seed r' now. handle_at (table r) seed r' now pkt out = Some (r', out, 0, w)"
      using handle_at_unverified [OF dropped(3)] by blast
    then show ?thesis using s unfolding Handle_def by blast
  next
    case (verified req src ep st' auth v)
    let ?r'' = "r1\<lparr>states := (states r)[ts_state src := st'] @ replicate k fresh_state, lastAuth := if auth then now else lastAuth r\<rparr>"
    have "SetTable (state_after r src now st' auth) es = Inr ?r''"
      using k(2) [of "(states r)[ts_state src := st']"] by (simp add: SetTable_def r1 state_after_def)
    moreover have "handle_at (table r) seed r1 now pkt out = Some (?r'', fst (answer (te_mac ep) now req out v),
        snd (answer (te_mac ep) now req out v), v)"
    proof -
      have "handle_verified seed (startNs r1) (states r1 ! ts_state src) ep now pkt out
          = handle_verified seed (startNs r) (states r ! ts_state src) ep now pkt out"
        using verified(7) k(1) by (simp add: r1 nth_append)
      moreover have "(states r1)[ts_state src := st'] = (states r)[ts_state src := st'] @ replicate k fresh_state"
        using verified(7) k(1) by (simp add: r1 list_update_append)
      ultimately show ?thesis
        using handle_at_step [OF verified(1,2), of seed r1 now] verified(8)
        by (simp add: state_after_def r1)
    qed
    ultimately show ?thesis using verified(3) by blast
  qed
qed

section \<open>A sample responder\<close>

definition sample_start :: int where "sample_start = 1600000000000000000"
definition sample_now :: int where "sample_now = 1700000000000000000"
definition sample_seed :: "bytes \<Rightarrow> 64 word" where "sample_seed n = 5"
definition sample_out :: bytes where "sample_out = replicate 64 0"

definition sample_source :: tableSource where
  "sample_source = \<lparr>ts_id = 7, ts_epochs = [\<lparr>te_epoch = 3, te_retired = False, te_mac = replicate 32 1\<rparr>,
      \<lparr>te_epoch = 2, te_retired = True, te_mac = replicate 32 3\<rparr>], ts_state = 0\<rparr>"

definition sample_epoch :: tableEpoch where
  "sample_epoch = \<lparr>te_epoch = 3, te_retired = False, te_mac = replicate 32 1\<rparr>"

definition sample_responder :: Responder where
  "sample_responder = \<lparr>startNs = sample_start,
     table = Some [\<lparr>ts_id = 5, ts_epochs = [\<lparr>te_epoch = 1, te_retired = False, te_mac = replicate 32 2\<rparr>], ts_state = 1\<rparr>,
        sample_source], lastAuth = 0, states = [fresh_state, fresh_state]\<rparr>"

definition sample_pkt :: bytes where "sample_pkt = request_bytes (replicate 32 1) sample_request"

lemma sample_start_ok: "resp_ok (NewResponder sample_start)"
  by (simp add: resp_ok_New sample_start_def clock_defs)

lemma sample_SetTable: "SetTable (NewResponder sample_start) sample_table = Inr sample_responder"
  by (simp add: SetTable_def NewResponder_def sample_table_def add_entry_def Let_def source_by_id_def
      start_source_def table_find_def put_source_def sample_responder_def sample_source_def MaxEpochsPerSource_def)

lemma sample_resp_ok: "resp_ok sample_responder"
  by (rule SetTable_resp_ok [OF sample_start_ok sample_SetTable])

lemma sample_clock: "clock_ok sample_now"
  by (simp add: sample_now_def clock_defs)

lemma sample_find: "table_find (table sample_responder) 7 = Some sample_source"
proof -
  have "by_ids (the (table sample_responder))"
    by (simp add: by_ids_def sample_responder_def sample_source_def)
  then show ?thesis
    by (simp add: table_find_eq sample_responder_def) (simp add: source_by_id_def sample_source_def)
qed

lemma sample_parse: "ParseRequest sample_pkt = Inr sample_request \<and> VerifyRequest sample_pkt (replicate 32 1)"
  by (subst verified_request_iff)
    (simp add: sample_pkt_def wf_Request_def sample_request_def in_i64_def NonceLen_def)

lemma sample_verified:
  "table r = table sample_responder \<Longrightarrow> verified_by (table r) sample_pkt sample_request sample_source sample_epoch"
  using sample_parse sample_find
  by (simp add: verified_by_def sample_request_def sample_source_def sample_epoch_def)

lemma sample_state: "source_state sample_responder 7 = Some fresh_state"
  using sample_find by (simp add: source_state_def sample_responder_def) (simp add: sample_source_def)

lemma sample_out_len: "ReplyLen \<le> length sample_out"
  by (simp add: sample_out_def ReplyLen_def)

lemma sample_answered:
  "\<exists>r' out' k. Handle sample_seed sample_responder sample_now sample_pkt sample_out = Some (r', out', k, ReplyOK)"
proof -
  obtain r' out' k v where h: "Handle sample_seed sample_responder sample_now sample_pkt sample_out = Some (r', out', k, v)"
    using Handle_returns [OF sample_resp_ok sample_clock] by blast
  obtain st' auth where d: "decides sample_seed (startNs sample_responder) (states sample_responder ! ts_state sample_source)
      (te_retired sample_epoch) sample_now sample_request st' auth v"
    using Handle_verified_iff [OF sample_resp_ok sample_clock sample_verified [OF refl] sample_out_len h] by blast
  have st: "states sample_responder ! ts_state sample_source = fresh_state"
    by (simp add: sample_responder_def sample_source_def)
  have "fresh (startNs sample_responder) sample_now (SentUnixNano sample_request)"
    by (simp add: fresh_def sample_responder_def sample_start_def sample_now_def sample_request_def clock_defs)
  moreover have "cache_of sample_seed fresh_state = NewNonceCache sample_seed" "costNs \<le> refill fresh_state sample_now"
    by (simp_all add: cache_of_def fresh_state_def refill_def clock_defs)
  ultimately have "v = ReplyOK"
    using decides_verdict [OF d [unfolded st] state_ok_fresh sample_clock]
    by (simp add: sample_epoch_def NonceCacheSize_def SourceRatePerSecond_def NonceWindow_def FreshnessWindow_def second_def)
  with h show ?thesis by blast
qed

lemma sample_stale:
  assumes r: "resp_ok r" "table r = table sample_responder" "startNs r = sample_start" and st: "source_state r 7 = Some st"
    and now: "clock_ok now" "sample_now + 100 * second \<le> now" and due: "lastNamed st = 0 \<or> lastNamed st + second \<le> now"
  shows "\<exists>r' out' k. Handle sample_seed r now sample_pkt sample_out = Some (r', out', k, ReplyStale)
     \<and> resp_ok r' \<and> table r' = table r \<and> startNs r' = startNs r \<and> source_state r' 7 = Some (st\<lparr>lastNamed := now\<rparr>)"
proof -
  have f: "table_find (table r) 7 = Some sample_source" using sample_find r(2) by simp
  obtain r' out' k v where h: "Handle sample_seed r now sample_pkt sample_out = Some (r', out', k, v)" "resp_ok r'"
    using Handle_returns [OF r(1) now(1)] by blast
  obtain st' auth where d: "decides sample_seed (startNs r) (states r ! ts_state sample_source)
      (te_retired sample_epoch) now sample_request st' auth v" "r' = state_after r sample_source now st' auth"
    using Handle_verified_iff [OF r(1) now(1) sample_verified [OF r(2)] sample_out_len h(1)] by blast
  have s: "states r ! ts_state sample_source = st" using st f by (simp add: source_state_def)
  have "\<not> fresh (startNs r) now (SentUnixNano sample_request)"
    using now(2) by (simp add: fresh_def sample_now_def sample_request_def FreshnessWindow_def second_def)
  then have "named_step st now ReplyStale = (st', v)"
    by (rule_tac decides.cases [OF d(1)]) (simp_all add: sample_epoch_def s)
  then have "v = ReplyStale" "st' = st\<lparr>lastNamed := now\<rparr>"
    using due by (auto simp: named_step_def NamedReplyInterval_def split: if_splits)
  with h d(2) source_state_after [OF r(1) f] show ?thesis by simp
qed

theorem Handle_answers_authenticated_witness:
  "\<exists>r' out' k v. Handle sample_seed sample_responder sample_now sample_pkt sample_out = Some (r', out', k, v)
     \<and> Authenticated v \<and> resp_ok r'"
  using Handle_answers_authenticated [OF sample_resp_ok sample_clock, of sample_seed sample_pkt sample_out]
    sample_verified [OF refl] sample_out_len by blast

theorem Handle_ok_iff_witness:
  "\<exists>r' out' k. Handle sample_seed sample_responder sample_now sample_pkt sample_out = Some (r', out', k, ReplyOK)
     \<and> LastAuthenticated r' = Some sample_now"
proof -
  obtain r0 o0 k0 where h: "Handle sample_seed sample_responder sample_now sample_pkt sample_out = Some (r0, o0, k0, ReplyOK)"
    using sample_answered by blast
  from Handle_ok_iff [OF sample_resp_ok sample_clock sample_verified [OF refl] sample_out_len, of sample_seed] h
  show ?thesis unfolding Let_def by (auto split: if_splits)
qed

theorem replayed_request_not_answered_witness:
  "\<exists>r' vs. run (OpHandle sample_seed sample_now sample_pkt sample_out # [OpTable sample_table]
        @ [OpHandle sample_seed (sample_now + 1) sample_pkt sample_out]) sample_responder = Some (r', vs)
     \<and> hd vs = Some ReplyOK \<and> last vs \<noteq> Some ReplyOK" (is "\<exists>r' vs. run ?ops _ = _ \<and> _")
proof -
  have clk: "clock_run 1 ?ops" using sample_clock by (simp add: sample_now_def clock_defs)
  obtain r' vs where run: "run ?ops sample_responder = Some (r', vs)" using run_returns [OF sample_resp_ok clk] by blast
  have k: "keeps (SourceID sample_request) [OpTable sample_table]"
    by (simp add: sample_request_def sample_table_def)
  have "hd vs = Some ReplyOK" using run sample_answered by (auto split: option.splits)
  with run show ?thesis
    using replayed_request_not_answered [OF sample_resp_ok clk run sample_parse [THEN conjunct1] k] by blast
qed

theorem named_replies_apart_witness:
  "\<exists>r' vs. run (OpHandle sample_seed (sample_now + 100 * second) sample_pkt sample_out # []
        @ [OpHandle sample_seed (sample_now + 101 * second) sample_pkt sample_out]) sample_responder = Some (r', vs)
     \<and> vs = [Some ReplyStale, Some ReplyStale]
     \<and> sample_now + 100 * second + NamedReplyInterval \<le> sample_now + 101 * second"
    (is "\<exists>r' vs. run ?ops _ = _ \<and> _")
proof -
  have c: "clock_ok (sample_now + 100 * second)" "clock_ok (sample_now + 101 * second)"
    by (simp_all add: sample_now_def clock_defs)
  then have clk: "clock_run 1 ?ops" by (simp add: sample_now_def second_def)
  obtain r1 o1 k1 where h1: "Handle sample_seed sample_responder (sample_now + 100 * second) sample_pkt sample_out
        = Some (r1, o1, k1, ReplyStale)" "resp_ok r1" "table r1 = table sample_responder" "startNs r1 = sample_start"
        "source_state r1 7 = Some (fresh_state\<lparr>lastNamed := sample_now + 100 * second\<rparr>)"
    using sample_stale [OF sample_resp_ok refl _ sample_state c(1)]
    by (auto simp: sample_responder_def fresh_state_def)
  obtain r2 o2 k2 where h2: "Handle sample_seed r1 (sample_now + 101 * second) sample_pkt sample_out
        = Some (r2, o2, k2, ReplyStale)"
    using sample_stale [OF h1(2-5) c(2)] by (auto simp: second_def)
  have run: "run ?ops sample_responder = Some (r2, [Some ReplyStale, Some ReplyStale])"
    using h1(1) h2 by simp
  have "sample_now + 100 * second + NamedReplyInterval \<le> sample_now + 101 * second"
    by (rule named_replies_apart [OF sample_resp_ok clk run sample_parse [THEN conjunct1] sample_parse [THEN conjunct1] refl,
        of ReplyStale ReplyStale]) simp_all
  with run show ?thesis by blast
qed

theorem ok_replies_rate_witness:
  "\<exists>r' vs. run [OpHandle sample_seed sample_now sample_pkt sample_out] sample_responder = Some (r', vs)
     \<and> ok_count 7 [OpHandle sample_seed sample_now sample_pkt sample_out] vs = 1
     \<and> costNs * 1 \<le> creditNs + (sample_now - sample_now)"
proof -
  let ?ops = "[OpHandle sample_seed sample_now sample_pkt sample_out]"
  obtain r' where run: "run ?ops sample_responder = Some (r', [Some ReplyOK])" using sample_answered by auto
  have clk: "clock_run sample_now ?ops" using sample_clock by simp
  have n: "ok_count 7 ?ops [Some ReplyOK] = 1"
    using sample_parse by (simp add: ok_count_def from_source_def) (simp add: sample_request_def)
  have "lastNs fresh_state \<le> sample_now" by (simp add: fresh_state_def sample_now_def)
  from ok_replies_rate [OF sample_resp_ok clk _ sample_state this run] n run show ?thesis by simp
qed

theorem SetTable_during_Handle_witness:
  "\<exists>r1 r' r'' out' k. SetTable sample_responder sample_table = Inr r1
     \<and> Handle sample_seed sample_responder sample_now sample_pkt sample_out = Some (r', out', k, ReplyOK)
     \<and> SetTable r' sample_table = Inr r''
     \<and> handle_at (table sample_responder) sample_seed r1 sample_now sample_pkt sample_out = Some (r'', out', k, ReplyOK)"
proof -
  have "entries_ok sample_table"
    by (simp add: entries_ok_def sample_table_def epochs_ok_def entries_of_def MaxEpochsPerSource_def)
  then obtain r1 where r1: "SetTable sample_responder sample_table = Inr r1"
    using SetTable_ok [OF sample_resp_ok] by blast
  from SetTable_during_Handle [OF sample_resp_ok sample_clock r1, of sample_seed sample_pkt sample_out] r1 sample_answered
  show ?thesis by fastforce
qed

end
