(* ===== verification/Go_Json.thy ===== *)
theory Go_Json
  imports Go_Strings
begin

text \<open>
  What the sources use of \<^verbatim>\<open>encoding/json\<close> and \<^verbatim>\<open>strconv\<close> on JSON texts: the string literals
  \<^verbatim>\<open>json.Unmarshal\<close> accepts and what it decodes them to (escapes, surrogate pairs, replacement of
  invalid UTF-8), the strings \<^verbatim>\<open>json.Marshal\<close> writes, and the numbers \<^verbatim>\<open>strconv.ParseFloat\<close>
  refuses as out of range.
\<close>

section \<open>Escapes\<close>

definition hex_val :: "char \<Rightarrow> nat option" where
  "hex_val c =
     (let n = ord c in
      if 48 \<le> n \<and> n \<le> 57 then Some (n - 48)
      else if 97 \<le> n \<and> n \<le> 102 then Some (n - 87)
      else if 65 \<le> n \<and> n \<le> 70 then Some (n - 55)
      else None)"

definition hex_digit :: "char \<Rightarrow> bool" where
  "hex_digit c \<longleftrightarrow> hex_val c \<noteq> None"

text \<open>The code unit of a \<^verbatim>\<open>\u\<close> escape at the start of a text.\<close>

fun getu4 :: "string \<Rightarrow> nat option" where
  "getu4 (b # u # c1 # c2 # c3 # c4 # s) =
     (if b = CHR 0x5C \<and> u = CHR ''u'' then
        (case (hex_val c1, hex_val c2, hex_val c3, hex_val c4) of
           (Some h1, Some h2, Some h3, Some h4) \<Rightarrow> Some (((h1 * 16 + h2) * 16 + h3) * 16 + h4)
         | _ \<Rightarrow> None)
      else None)"
| "getu4 _ = None"

definition IsSurrogate :: "nat \<Rightarrow> bool" where
  "IsSurrogate r \<longleftrightarrow> 0xD800 \<le> r \<and> r < 0xE000"

text \<open>\<^verbatim>\<open>utf16.DecodeRune\<close>; \<open>None\<close> stands for the code unit \<^verbatim>\<open>-1\<close>.\<close>

definition utf16_DecodeRune :: "nat \<Rightarrow> nat option \<Rightarrow> nat" where
  "utf16_DecodeRune r1 r2 =
     (case r2 of None \<Rightarrow> RuneError
      | Some r2 \<Rightarrow>
          if 0xD800 \<le> r1 \<and> r1 < 0xDC00 \<and> 0xDC00 \<le> r2 \<and> r2 < 0xE000
          then (r1 - 0xD800) * 0x400 + (r2 - 0xDC00) + 0x10000
          else RuneError)"

text \<open>The one-letter escapes and what they stand for.\<close>

definition simple_escape :: "char \<Rightarrow> char option" where
  "simple_escape e =
     (if e = CHR 0x22 \<or> e = CHR 0x5C \<or> e = CHR ''/'' then Some e
      else if e = CHR ''b'' then Some (CHR 0x08)
      else if e = CHR ''f'' then Some (CHR 0x0C)
      else if e = CHR ''n'' then Some (CHR 0x0A)
      else if e = CHR ''r'' then Some (CHR 0x0D)
      else if e = CHR ''t'' then Some (CHR 0x09)
      else None)"

section \<open>String literals\<close>

text \<open>\<open>str_body\<close> is what the validating scanner of \<^verbatim>\<open>encoding/json\<close> admits between the quotes.\<close>

fun str_body :: "string \<Rightarrow> bool" where
  "str_body [] = True"
| "str_body (c # s) =
     (if c = CHR 0x5C then
        (case s of
           [] \<Rightarrow> False
         | e # s' \<Rightarrow>
             if simple_escape e \<noteq> None then str_body s'
             else if e = CHR ''u'' then
               (case s' of
                  c1 # c2 # c3 # c4 # s'' \<Rightarrow>
                    hex_digit c1 \<and> hex_digit c2 \<and> hex_digit c3 \<and> hex_digit c4 \<and> str_body s''
                | _ \<Rightarrow> False)
             else False)
      else if c = CHR 0x22 \<or> ord c < 0x20 then False
      else str_body s)"

text \<open>\<open>unquote_loop\<close> is the decoding of a literal's contents by \<^verbatim>\<open>unquote\<close> of
  \<^verbatim>\<open>encoding/json\<close>.\<close>

function unquote_loop :: "string \<Rightarrow> string option" where
  "unquote_loop s =
     (case s of
        [] \<Rightarrow> Some []
      | c # t \<Rightarrow>
          if c = CHR 0x5C then
            (case t of
               [] \<Rightarrow> None
             | e # t' \<Rightarrow>
                 if e = CHR ''u'' then
                   (case getu4 s of
                      None \<Rightarrow> None
                    | Some r \<Rightarrow>
                        let t6 = drop 6 s; r' = utf16_DecodeRune r (getu4 t6) in
                        if IsSurrogate r then
                          if r' \<noteq> RuneError then map_option ((@) (utf8_bytes r')) (unquote_loop (drop 12 s))
                          else map_option ((@) (utf8_bytes RuneError)) (unquote_loop t6)
                        else map_option ((@) (utf8_bytes r)) (unquote_loop t6))
                 else if e = CHR 0x27 then map_option ((@) [e]) (unquote_loop t')
                 else (case simple_escape e of
                         None \<Rightarrow> None
                       | Some x \<Rightarrow> map_option ((@) [x]) (unquote_loop t')))
          else if c = CHR 0x22 \<or> ord c < 0x20 then None
          else if ord c < 0x80 then map_option ((@) [c]) (unquote_loop t)
          else map_option ((@) (utf8_bytes (fst (DecodeRune s)))) (unquote_loop (drop (snd (DecodeRune s)) s)))"
  by pat_completeness auto

termination
proof (relation "measure length", goal_cases)
  case (8 s c t)
  then show ?case using DecodeRune_width [of s] by auto
qed auto

declare unquote_loop.simps [simp del]

definition quoted :: "string \<Rightarrow> bool" where
  "quoted raw \<longleftrightarrow> 2 \<le> length raw \<and> hd raw = CHR 0x22 \<and> last raw = CHR 0x22"

definition contents :: "string \<Rightarrow> string" where
  "contents raw = butlast (tl raw)"

text \<open>\<^verbatim>\<open>json.Unmarshal\<close> of a quoted text into a string: the text is validated first.\<close>

definition Unmarshal_string :: "string \<Rightarrow> string option" where
  "Unmarshal_string raw =
     (if quoted raw \<and> str_body (contents raw) then unquote_loop (contents raw) else None)"

section \<open>Numbers out of range\<close>

text \<open>
  \<^verbatim>\<open>strconv.ParseFloat(w, 64)\<close> on a JSON number refuses exactly what rounds to an infinity. The
  value is the integer the digits spell, scaled by the exponent less the number of fraction
  digits; the exponent stops growing once it has reached 10000, as the library reads it. The
  least magnitude that rounds to infinity is half a unit above the largest finite number.
\<close>

definition float_limit :: nat where "float_limit = (2 ^ 54 - 1) * 2 ^ 970"

fun exp_acc :: "string \<Rightarrow> nat \<Rightarrow> nat" where
  "exp_acc [] e = e"
| "exp_acc (c # s) e = exp_acc s (if e < 10000 then e * 10 + digit_val c else e)"

definition scaled_over :: "nat \<Rightarrow> int \<Rightarrow> bool" where
  "scaled_over m e \<longleftrightarrow>
     (if 0 \<le> e then float_limit \<le> m * 10 ^ nat e else float_limit * 10 ^ nat (- e) \<le> m)"

definition signed_exp :: "string \<Rightarrow> int" where
  "signed_exp x =
     (if x \<noteq> [] \<and> hd x = CHR ''-'' then - int (exp_acc (tl x) 0)
      else if x \<noteq> [] \<and> hd x = CHR ''+'' then int (exp_acc (tl x) 0)
      else int (exp_acc x 0))"

definition ParseFloat_range_error :: "string \<Rightarrow> bool" where
  "ParseFloat_range_error w =
     (let t = (if w \<noteq> [] \<and> hd w = CHR ''-'' then tl w else w);
          whole = takeWhile is_digit t; r1 = dropWhile is_digit t;
          dot = (r1 \<noteq> [] \<and> hd r1 = CHR ''.'');
          frac = (if dot then takeWhile is_digit (tl r1) else []);
          r2 = (if dot then dropWhile is_digit (tl r1) else r1);
          e = (if r2 = [] then 0 else signed_exp (tl r2))
      in scaled_over (undec (whole @ frac)) (e - int (length frac)))"

section \<open>Runes round trip\<close>

lemma two_digits: "j < 64 \<Longrightarrow> (i * 64 + j) div 64 = (i :: nat)" "j < 64 \<Longrightarrow> (i * 64 + j) mod 64 = (j :: nat)"
  by simp_all

lemma ord_eqI: "n < 256 \<Longrightarrow> ord c = n \<Longrightarrow> char_of n = c"
  by auto

lemma utf8_bytes_DecodeRune:
  assumes "s \<noteq> []" and "DecodeRune s \<noteq> (RuneError, 1)"
  shows "utf8_bytes (fst (DecodeRune s)) = take (snd (DecodeRune s)) s"
proof -
  obtain c0 s1 where s: "s = c0 # s1" using assms(1) by (cases s) auto
  define a where "a = ord c0"
  consider (one) "a < 0x80" | (two) c1 s2 where "s1 = c1 # s2" "0xC2 \<le> a" "a < 0xE0" "cont_byte c1"
    | (three) c1 c2 s2 where "s1 = c1 # c2 # s2" "0xE0 \<le> a" "a < 0xF0" "lo2 a \<le> ord c1" "ord c1 \<le> hi2 a" "cont_byte c2"
    | (four) c1 c2 c3 s2 where "s1 = c1 # c2 # c3 # s2" "0xF0 \<le> a" "a \<le> 0xF4" "lo2 a \<le> ord c1" "ord c1 \<le> hi2 a"
        "cont_byte c2" "cont_byte c3"
  proof -
    note d = assms(2) [unfolded s DecodeRune.simps(2) Let_def a_def [symmetric]]
    consider "a < 0x80" | "\<not> a < 0x80" "a < 0xC2 \<or> 0xF4 < a" | "0xC2 \<le> a" "a < 0xE0" | "0xE0 \<le> a" "a < 0xF0"
      | "0xF0 \<le> a" "a \<le> 0xF4" by linarith
    then show thesis
    proof cases
      case 3
      with d obtain c1 s2 where "s1 = c1 # s2" "cont_byte c1" by (auto split: list.splits if_splits)
      with 3 two show thesis by blast
    next
      case 4
      with d obtain c1 c2 s2 where "s1 = c1 # c2 # s2" "lo2 a \<le> ord c1" "ord c1 \<le> hi2 a" "cont_byte c2"
        by (auto split: list.splits if_splits)
      with 4 three show thesis by blast
    next
      case 5
      then have n: "\<not> a < 0x80" "\<not> (a < 0xC2 \<or> 0xF4 < a)" "\<not> a < 0xE0" "\<not> a < 0xF0" by auto
      note d' = d [unfolded if_not_P [OF n(1)] if_not_P [OF n(2)] if_not_P [OF n(3)] if_not_P [OF n(4)]]
      obtain c1 c2 c3 s2 where "s1 = c1 # c2 # c3 # s2" "lo2 a \<le> ord c1" "ord c1 \<le> hi2 a"
          "cont_byte c2" "cont_byte c3"
        using d' by (auto split: list.splits if_splits)
      with 5 four show thesis by blast
    qed (use d one in auto)
  qed
  then show ?thesis
  proof cases
    case one
    then show ?thesis by (simp add: s utf8_bytes_def a_def [symmetric]) (simp add: a_def)
  next
    case two
    define i j where "i = a - 0xC0" and "j = ord c1 - 0x80"
    have ij: "2 \<le> i" "i < 32" "j < 64" "a = 0xC0 + i" "ord c1 = 0x80 + j"
      using two by (auto simp: i_def j_def cont_byte_def)
    have "DecodeRune s = (i * 64 + j, 2)"
      using two by (simp add: s DecodeRune.simps(2) Let_def a_def [symmetric] i_def j_def)
    moreover have "i * 64 + j < 0x800" "\<not> i * 64 + j < 0x80" using ij by auto
    ultimately show ?thesis
      using two ij by (simp add: utf8_bytes_def s) (simp add: a_def ord_eqI)
  next
    case three
    define i j k where "i = a - 0xE0" and "j = ord c1 - 0x80" and "k = ord c2 - 0x80"
    have b: "i < 16" "j < 64" "k < 64" "a = 0xE0 + i" "ord c1 = 0x80 + j" "ord c2 = 0x80 + k"
      using three by (auto simp: i_def j_def k_def cont_byte_def lo2_def hi2_def split: if_splits)
    have r: "DecodeRune s = (i * 0x1000 + j * 0x40 + k, 3)" (is "_ = (?r, 3)")
      using three by (simp add: s DecodeRune.simps(2) Let_def a_def [symmetric] i_def j_def k_def)
    have e: "?r = (i * 64 + j) * 64 + k" by simp
    have d: "?r mod 64 = k" "?r div 64 mod 64 = j" "?r div 0x1000 = i"
      using b by (simp_all add: e two_digits div_mult2_eq [of _ 64 64, simplified] del: distrib_right_numeral)
    have "0x800 \<le> ?r" "?r < 0x10000" "\<not> (0xD800 \<le> ?r \<and> ?r \<le> 0xDFFF)"
      using b three by (auto simp: lo2_def hi2_def split: if_splits)
    then show ?thesis
      using three b d r by (simp add: utf8_bytes_def s Let_def) (auto simp: a_def ord_eqI)
  next
    case four
    define i j k l where "i = a - 0xF0" and "j = ord c1 - 0x80" and "k = ord c2 - 0x80" and "l = ord c3 - 0x80"
    have b: "i < 5" "j < 64" "k < 64" "l < 64" "a = 0xF0 + i" "ord c1 = 0x80 + j" "ord c2 = 0x80 + k" "ord c3 = 0x80 + l"
      using four by (auto simp: i_def j_def k_def l_def cont_byte_def lo2_def hi2_def split: if_splits)
    have r: "DecodeRune s = (i * 0x40000 + j * 0x1000 + k * 0x40 + l, 4)" (is "_ = (?r, 4)")
      using four by (simp add: s DecodeRune.simps(2) Let_def a_def [symmetric] i_def j_def k_def l_def)
    have e: "?r = ((i * 64 + j) * 64 + k) * 64 + l" by simp
    have d: "?r mod 64 = l" "?r div 64 mod 64 = k" "?r div 0x1000 mod 64 = j" "?r div 0x40000 = i"
      using b by (simp_all add: e two_digits div_mult2_eq [of _ 64 64, simplified] div_mult2_eq [of _ 64 4096, simplified]
          del: distrib_right_numeral)
    have "0x10000 \<le> ?r" "?r \<le> 0x10FFFF"
      using b four by (auto simp: lo2_def hi2_def split: if_splits)
    then show ?thesis
      using four b d r by (simp add: utf8_bytes_def s Let_def) (simp add: a_def ord_eqI)
  qed
qed

end
