(* ===== verification/Strictjson_Unquote.thy ===== *)
theory Strictjson_Unquote
  imports Go_Json
begin

text \<open>
  The one-pass string decoder of \<^verbatim>\<open>src/strictjson/unquote.go\<close>. Indices into the literal are kept
  as the suffix \<open>s[i:]\<close> still to be read, and the \<^verbatim>\<open>strings.Builder\<close> is the text written so
  far. The decoder is shown equal to the model of \<^verbatim>\<open>json.Unmarshal\<close> in \<open>Go_Json\<close>.
\<close>

section \<open>The decoder\<close>

fun hex4_digits :: "string \<Rightarrow> nat \<Rightarrow> nat option" where
  "hex4_digits [] r = Some r"
| "hex4_digits (c # cs) r =
     (if 48 \<le> ord c \<and> ord c \<le> 57 then hex4_digits cs (r * 16 + (ord c - 48))
      else if 97 \<le> ord c \<and> ord c \<le> 102 then hex4_digits cs (r * 16 + (ord c - 97 + 10))
      else if 65 \<le> ord c \<and> ord c \<le> 70 then hex4_digits cs (r * 16 + (ord c - 65 + 10))
      else None)"

text \<open>\<open>None\<close> is the source's \<^verbatim>\<open>-1\<close>.\<close>

definition hex4 :: "string \<Rightarrow> nat option" where
  "hex4 s =
     (if length s < 6 \<or> s ! 0 \<noteq> CHR 0x5C \<or> s ! 1 \<noteq> CHR ''u'' then None
      else hex4_digits (take 4 (drop 2 s)) 0)"

definition special :: "char \<Rightarrow> bool" where
  "special c \<longleftrightarrow> c = CHR 0x5C \<or> c = CHR 0x22 \<or> ord c < 0x20 \<or> ord c \<ge> 0x80"

function String_loop :: "string \<Rightarrow> string \<Rightarrow> string option" where
  "String_loop b s =
     (case s of
        [] \<Rightarrow> Some b
      | c # t \<Rightarrow>
          if c = CHR 0x5C then
            (case t of
               [] \<Rightarrow> None
             | e # t' \<Rightarrow>
                 if e = CHR 0x22 \<or> e = CHR 0x5C \<or> e = CHR ''/'' then String_loop (b @ [e]) t'
                 else if e = CHR ''b'' then String_loop (b @ [CHR 0x08]) t'
                 else if e = CHR ''f'' then String_loop (b @ [CHR 0x0C]) t'
                 else if e = CHR ''n'' then String_loop (b @ [CHR 0x0A]) t'
                 else if e = CHR ''r'' then String_loop (b @ [CHR 0x0D]) t'
                 else if e = CHR ''t'' then String_loop (b @ [CHR 0x09]) t'
                 else if e = CHR ''u'' then
                   (case hex4 s of
                      None \<Rightarrow> None
                    | Some r \<Rightarrow>
                        let s6 = drop 6 s; dec = utf16_DecodeRune r (hex4 s6) in
                        if IsSurrogate r \<and> dec \<noteq> RuneError then String_loop (b @ utf8_bytes dec) (drop 6 s6)
                        else if IsSurrogate r then String_loop (b @ utf8_bytes RuneError) s6
                        else String_loop (b @ utf8_bytes r) s6)
                 else None)
          else if c = CHR 0x22 \<or> ord c < 0x20 then None
          else if ord c < 0x80 then
            String_loop (b @ c # takeWhile (\<lambda>x. \<not> special x) t) (dropWhile (\<lambda>x. \<not> special x) t)
          else
            let (r, size) = DecodeRune s in
            if r = RuneError \<and> size = 1 then String_loop (b @ utf8_bytes RuneError) (drop size s)
            else String_loop (b @ take size s) (drop size s))"
  by pat_completeness auto

termination
proof (relation "measure (\<lambda>(b, s). length s)", goal_cases)
  case (11 b s c t)
  then show ?case by (simp add: le_imp_less_Suc length_dropWhile_le)
next
  case (12 b s c t x y z)
  then show ?case using DecodeRune_width [of s] by auto
next
  case (13 b s c t x y z)
  then have "snd (DecodeRune s) = z" by (metis snd_conv)
  with 13 show ?case using DecodeRune_width [of s] by auto
qed auto

declare String_loop.simps [simp del]

definition json_String :: "string \<Rightarrow> string option" where
  "json_String raw =
     (if length raw < 2 \<or> raw ! 0 \<noteq> CHR 0x22 \<or> raw ! (length raw - 1) \<noteq> CHR 0x22 then None
      else
        let s = take (length raw - 2) (drop 1 raw); run = takeWhile (\<lambda>c. \<not> special c) s in
        if length run = length s then Some s
        else String_loop run (drop (length run) s))"

text \<open>\<^verbatim>\<open>StringInto\<close>: the new value of \<^verbatim>\<open>*dst\<close> and the answer.\<close>

definition StringInto :: "string \<Rightarrow> string \<Rightarrow> string \<times> bool" where
  "StringInto raw dst =
     (if raw = ''null'' then (dst, True)
      else case json_String raw of None \<Rightarrow> (dst, False) | Some s \<Rightarrow> (s, True))"

section \<open>Equivalence with json.Unmarshal\<close>

lemma hex4_digits_hex_val:
  "hex4_digits (c # cs) r = (case hex_val c of None \<Rightarrow> None | Some h \<Rightarrow> hex4_digits cs (r * 16 + h))"
  by (auto simp: hex_val_def Let_def)

lemma hex4_getu4: "hex4 s = getu4 s"
proof (cases "6 \<le> length s")
  case True
  then obtain b u c1 c2 c3 c4 t where s: "s = b # u # c1 # c2 # c3 # c4 # t"
    by (auto simp: numeral_eq_Suc Suc_le_length_iff)
  show ?thesis
    unfolding s hex4_def by (simp add: hex4_digits_hex_val numeral_eq_Suc del: hex4_digits.simps(2) split: option.split)
next
  case False
  then show ?thesis by (cases s rule: getu4.cases) (auto simp: hex4_def)
qed

lemma str_body_u:
  "str_body (CHR 0x5C # CHR ''u'' # t) \<longleftrightarrow>
     getu4 (CHR 0x5C # CHR ''u'' # t) \<noteq> None \<and> str_body (drop 4 t)"
proof -
  have e: "simple_escape CHR ''u'' = None" by (simp add: simple_escape_def)
  show ?thesis
  proof (cases "4 \<le> length t")
    case True
    then obtain c1 c2 c3 c4 r where t: "t = c1 # c2 # c3 # c4 # r"
      by (auto simp: numeral_eq_Suc Suc_le_length_iff)
    show ?thesis by (simp add: e t hex_digit_def split: option.split)
  next
    case False
    then have "\<not> str_body (CHR 0x5C # CHR ''u'' # t)" by (auto simp: e split: list.splits)
    moreover have "getu4 (CHR 0x5C # CHR ''u'' # t) = None" using False
      by (cases "CHR 0x5C # CHR ''u'' # t" rule: getu4.cases) auto
    ultimately show ?thesis by simp
  qed
qed

lemma getu4_body: "getu4 s = Some r \<Longrightarrow> str_body s = str_body (drop 6 s)"
proof -
  assume g: "getu4 s = Some r"
  then obtain t where "s = CHR 0x5C # CHR ''u'' # t"
    by (cases s rule: getu4.cases) (auto split: if_splits)
  then show ?thesis using g str_body_u [of t] by simp
qed

lemma str_body_ordinary: "c \<noteq> CHR 0x5C \<Longrightarrow> c \<noteq> CHR 0x22 \<Longrightarrow> \<not> ord c < 0x20 \<Longrightarrow> str_body (c # s) = str_body s"
  by simp

lemma special_simps [simp]: "special CHR 0x5C" "special CHR 0x22"
  by (simp_all add: special_def)

lemma str_body_high: "\<forall>c \<in> set p. 0x80 \<le> ord c \<Longrightarrow> str_body (p @ s) = str_body s"
proof (induction p)
  case (Cons c p)
  have "c \<noteq> CHR 0x5C" "c \<noteq> CHR 0x22" using Cons.prems by (auto simp: ord_def)
  with Cons show ?case by (simp add: str_body_ordinary)
qed simp

lemma DecodeRune_high:
  "0x80 \<le> ord c \<Longrightarrow> \<forall>x \<in> set (take (snd (DecodeRune (c # t))) (c # t)). 0x80 \<le> ord x"
  unfolding DecodeRune.simps Let_def
  by (auto simp: cont_byte_def lo2_def split: list.splits if_splits)

lemma run_plain:
  assumes "\<forall>c \<in> set p. \<not> special c"
  shows "str_body (p @ s) = str_body s" "unquote_loop (p @ s) = map_option ((@) p) (unquote_loop s)"
  using assms
proof (induction p)
  case Nil
  { case 1 then show ?case by simp }
  { case 2 then show ?case by (simp add: option.map_id [unfolded id_def]) }
next
  case (Cons c p)
  { case 1
    then show ?case using Cons.IH(1) by (simp add: special_def) }
  { case 2
    then show ?case using Cons.IH(2)
      by (subst unquote_loop.simps) (cases "unquote_loop s"; simp add: special_def) }
qed

lemma map_option_append: "map_option ((@) (b @ p)) x = map_option ((@) b) (map_option ((@) p) x)"
  by (cases x) simp_all

lemma String_loop_eq: "String_loop b s = (if str_body s then map_option ((@) b) (unquote_loop s) else None)"
proof (induction s arbitrary: b rule: measure_induct_rule [of length])
  case (less s)
  show ?case
  proof (cases s)
    case Nil
    then show ?thesis by (simp add: String_loop.simps unquote_loop.simps)
  next
    case (Cons c t)
    consider (esc) "c = CHR 0x5C" | (bad) "c = CHR 0x22 \<or> ord c < 0x20" "c \<noteq> CHR 0x5C"
      | (ascii) "c \<noteq> CHR 0x5C" "\<not> (c = CHR 0x22 \<or> ord c < 0x20)" "ord c < 0x80"
      | (high) "c \<noteq> CHR 0x5C" "\<not> (c = CHR 0x22 \<or> ord c < 0x20)" "\<not> ord c < 0x80" by blast
    then show ?thesis
    proof cases
      case bad
      then show ?thesis unfolding Cons by (subst String_loop.simps) auto
    next
      case ascii
      let ?p = "c # takeWhile (\<lambda>x. \<not> special x) t" and ?r = "dropWhile (\<lambda>x. \<not> special x) t"
      have s: "s = ?p @ ?r" by (simp add: Cons)
      have pl: "\<forall>x \<in> set ?p. \<not> special x" using ascii by (auto simp: special_def dest: set_takeWhileD)
      have "length ?r < length s" by (simp add: Cons le_imp_less_Suc length_dropWhile_le)
      note IH = less.IH [OF this, of "b @ ?p"]
      have "String_loop b s = String_loop (b @ ?p) ?r"
        using ascii unfolding Cons by (subst String_loop.simps) simp
      also note IH
      finally show ?thesis by (subst (2 3) s) (simp only: run_plain [OF pl] map_option_append)
    next
      case high
      obtain r size where d: "DecodeRune s = (r, size)" by fastforce
      have w: "1 \<le> size" "size \<le> length s" using DecodeRune_width [of s] d Cons by auto
      have body: "str_body s = str_body (drop size s)"
        using str_body_high [OF DecodeRune_high [of c t], of "drop size s"] high d Cons by simp
      have u: "unquote_loop s = map_option ((@) (utf8_bytes r)) (unquote_loop (drop size s))"
        using high d unfolding Cons by (subst unquote_loop.simps) simp
      have "utf8_bytes r = (if r = RuneError \<and> size = 1 then utf8_bytes RuneError else take size s)"
        using utf8_bytes_DecodeRune [of s] d Cons by auto
      then have "String_loop b s = String_loop (b @ utf8_bytes r) (drop size s)"
        using high d unfolding Cons by (subst String_loop.simps) simp
      also have "\<dots> = (if str_body (drop size s) then map_option ((@) (b @ utf8_bytes r)) (unquote_loop (drop size s)) else None)"
        using less.IH [of "drop size s"] w by simp
      finally show ?thesis by (simp only: body u map_option_append)
    next
      case esc
      show ?thesis
      proof (cases t)
        case Nil
        then show ?thesis by (simp add: Cons esc String_loop.simps)
      next
        case t: (Cons e t')
        show ?thesis
        proof (cases "e = CHR ''u''")
          case False
          have IH: "String_loop b' t' = (if str_body t' then map_option ((@) b') (unquote_loop t') else None)" for b'
            using less.IH [of t'] by (simp add: Cons t)
          have L: "String_loop b s = (case simple_escape e of None \<Rightarrow> None | Some x \<Rightarrow> String_loop (b @ [x]) t')"
            using False by (subst String_loop.simps) (simp add: Cons t esc simple_escape_def)
          have U: "str_body s \<Longrightarrow> unquote_loop s = (case simple_escape e of None \<Rightarrow> None | Some x \<Rightarrow> map_option ((@) [x]) (unquote_loop t'))"
            using False by (subst unquote_loop.simps) (auto simp: Cons t esc simple_escape_def split: if_splits)
          have B: "str_body s \<longleftrightarrow> simple_escape e \<noteq> None \<and> str_body t'"
            using False by (simp add: Cons t esc)
          show ?thesis
          proof (cases "str_body s")
            case True
            then obtain x where x: "simple_escape e = Some x" "str_body t'" using B by auto
            then show ?thesis using True L U [OF True] by (simp add: IH map_option_append)
          next
            case no: False
            then show ?thesis using L B by (cases "simple_escape e") (simp_all add: IH)
          qed
        next
          case True
          then have s: "s = CHR 0x5C # CHR ''u'' # t'" by (simp add: Cons t esc)
          show ?thesis
          proof (cases "getu4 s")
            case None
            then have "String_loop b s = None" by (subst String_loop.simps) (simp add: s hex4_getu4)
            then show ?thesis using None str_body_u [of t'] by (simp add: s)
          next
            case (Some r)
            have body6: "str_body s = str_body (drop 6 s)" by (rule getu4_body [OF Some])
            have len: "length (drop 6 s) < length s" "length (drop 12 s) < length s" by (simp_all add: s)
            let ?d = "utf16_DecodeRune r (getu4 (drop 6 s))"
            have L: "String_loop b s = (if IsSurrogate r \<and> ?d \<noteq> RuneError then String_loop (b @ utf8_bytes ?d) (drop 12 s)
                else if IsSurrogate r then String_loop (b @ utf8_bytes RuneError) (drop 6 s)
                else String_loop (b @ utf8_bytes r) (drop 6 s))"
              using Some by (subst String_loop.simps) (simp add: s hex4_getu4 Let_def)
            have U: "unquote_loop s = (if IsSurrogate r \<and> ?d \<noteq> RuneError then map_option ((@) (utf8_bytes ?d)) (unquote_loop (drop 12 s))
                else if IsSurrogate r then map_option ((@) (utf8_bytes RuneError)) (unquote_loop (drop 6 s))
                else map_option ((@) (utf8_bytes r)) (unquote_loop (drop 6 s)))"
              using Some by (subst unquote_loop.simps) (simp add: s Let_def)
            have "str_body (drop 6 s) = str_body (drop 12 s)" if "?d \<noteq> RuneError"
              using that getu4_body [of "drop 6 s"] by (auto simp: utf16_DecodeRune_def split: option.splits)
            then show ?thesis
              unfolding L U body6 less.IH [OF len(1)] less.IH [OF len(2)] by (simp add: map_option_append)
          qed
        qed
      qed
    qed
  qed
qed

lemma String_Unmarshal: "json_String raw = Unmarshal_string raw"
proof (cases "quoted raw")
  case False
  then show ?thesis
    by (cases raw) (auto simp: json_String_def Unmarshal_string_def quoted_def last_conv_nth Suc_le_eq)
next
  case True
  then obtain x where x: "raw = CHR 0x22 # x" "x \<noteq> []" "last x = CHR 0x22"
    unfolding quoted_def by (cases raw) (auto split: if_splits)
  define t where "t = butlast x"
  have raw: "raw = CHR 0x22 # t @ [CHR 0x22]"
    using x append_butlast_last_id [of x] by (simp add: t_def)
  let ?s = "take (length raw - 2) (drop 1 raw)" and ?run = "takeWhile (\<lambda>c. \<not> special c) t"
  have s: "?s = t" "contents raw = t" by (simp_all add: raw contents_def)
  have pl: "\<forall>x \<in> set ?run. \<not> special x" by (auto dest: set_takeWhileD)
  have t: "t = ?run @ drop (length ?run) t" by (metis append_take_drop_id takeWhile_eq_take)
  have nil: "unquote_loop [] = Some []" by (simp add: unquote_loop.simps)
  have "json_String raw = (if length ?run = length t then Some t else String_loop ?run (drop (length ?run) t))"
    unfolding json_String_def s Let_def by (simp add: raw nth_append)
  also have "\<dots> = String_loop ?run (drop (length ?run) t)"
    using t by (auto simp: String_loop.simps)
  also have "\<dots> = (if str_body t then unquote_loop t else None)"
    unfolding String_loop_eq using run_plain [OF pl, of "drop (length ?run) t"] t by simp
  finally show ?thesis using True by (simp add: Unmarshal_string_def s)
qed


end
