(* ===== verification/Strictjson_Scan.thy ===== *)
theory Strictjson_Scan
  imports Strictjson_Unquote
begin

text \<open>
  The one-pass scanner of \<^verbatim>\<open>src/strictjson/strictjson.go\<close>: \<^verbatim>\<open>Valid\<close>, \<^verbatim>\<open>Fields\<close>,
  \<^verbatim>\<open>Elements\<close>, \<^verbatim>\<open>Compact\<close> and \<^verbatim>\<open>CanonicalRaw\<close>. The scanner's \<^verbatim>\<open>data\<close> is the argument \<open>d\<close>
  of every operation and its other fields are the record \<open>scanner\<close>; the pooled scratch slices
  of \<^verbatim>\<open>keys\<close>, cut back to length zero before each use, are the list of the object being
  scanned. An operation that answers false ends the scan and its state is never read again, so
  its model answers \<open>None\<close>. The mutually recursive operations take fuel; \<open>None\<close> on the outside
  is running out of it, which is shown never to happen.
\<close>

section \<open>The scanner\<close>

definition MaxDepth :: nat where "MaxDepth = 512"
definition linearKeys :: nat where "linearKeys = 64"

record Field =
  fd_Key :: string
  fd_Value :: string

record scanner =
  sc_pos :: nat
  sc_depth :: nat
  sc_spaced :: bool
  sc_top :: "Field list option"
  sc_elements :: "string list option"

record keyRef =
  kr_start :: nat
  kr_end :: nat
  kr_decoded :: string
  kr_plain :: bool

definition getScanner :: "Field list option \<Rightarrow> scanner" where
  "getScanner tp = \<lparr>sc_pos = 0, sc_depth = 0, sc_spaced = False, sc_top = tp, sc_elements = None\<rparr>"

definition cut :: "string \<Rightarrow> nat \<Rightarrow> nat \<Rightarrow> string" where
  "cut d i j = take (j - i) (drop i d)"

definition keyString :: "string \<Rightarrow> keyRef \<Rightarrow> string" where
  "keyString d k = (if kr_plain k then cut d (kr_start k) (kr_end k) else kr_decoded k)"

definition sameKey :: "string \<Rightarrow> keyRef \<Rightarrow> keyRef \<Rightarrow> bool" where
  "sameKey d a b =
     (if kr_plain a \<and> kr_plain b then cut d (kr_start a) (kr_end a) = cut d (kr_start b) (kr_end b)
      else if kr_plain a then cut d (kr_start a) (kr_end a) = kr_decoded b
      else if kr_plain b then kr_decoded a = cut d (kr_start b) (kr_end b)
      else kr_decoded a = kr_decoded b)"

definition is_ws :: "char \<Rightarrow> bool" where
  "is_ws c \<longleftrightarrow> c = CHR '' '' \<or> c = CHR 0x09 \<or> c = CHR 0x0A \<or> c = CHR 0x0D"

function space_loop :: "string \<Rightarrow> nat \<Rightarrow> bool \<Rightarrow> nat \<times> bool" where
  "space_loop d p spaced =
     (if p < length d \<and> is_ws (d ! p) then space_loop d (p + 1) True else (p, spaced))"
  by pat_completeness auto
termination by (relation "measure (\<lambda>(d, p, _). length d - p)") auto

definition space :: "string \<Rightarrow> scanner \<Rightarrow> scanner" where
  "space d s =
     (let (p, sp) = space_loop d (sc_pos s) (sc_spaced s) in s\<lparr>sc_pos := p, sc_spaced := sp\<rparr>)"

definition literal :: "string \<Rightarrow> string \<Rightarrow> nat \<Rightarrow> nat option" where
  "literal d word p =
     (if length d - p < length word \<or> cut d p (p + length word) \<noteq> word then None
      else Some (p + length word))"

function digits_loop :: "string \<Rightarrow> nat \<Rightarrow> nat" where
  "digits_loop d p = (if p < length d \<and> is_digit (d ! p) then digits_loop d (p + 1) else p)"
  by pat_completeness auto
termination by (relation "measure (\<lambda>(d, p). length d - p)") auto

declare space_loop.simps [simp del] digits_loop.simps [simp del]

text \<open>\<^verbatim>\<open>digits\<close> answers the position after a run of at least one digit.\<close>

definition digits :: "string \<Rightarrow> nat \<Rightarrow> nat option" where
  "digits d p = (let q = digits_loop d p in if q > p then Some q else None)"

text \<open>The byte at a position, when there is one.\<close>

definition at :: "string \<Rightarrow> nat \<Rightarrow> char \<Rightarrow> bool" where
  "at d p c \<longleftrightarrow> p < length d \<and> d ! p = c"

definition number_whole :: "string \<Rightarrow> nat \<Rightarrow> nat option" where
  "number_whole d p0 =
     (let p = (if d ! p0 = CHR ''-'' then p0 + 1 else p0) in
      if at d p CHR ''0'' then Some (p + 1)
      else if p < length d \<and> 49 \<le> ord (d ! p) \<and> ord (d ! p) \<le> 57 then Some (digits_loop d p)
      else None)"

definition number_frac :: "string \<Rightarrow> nat \<Rightarrow> nat option" where
  "number_frac d p = (if at d p CHR ''.'' then digits d (p + 1) else Some p)"

definition number_exp :: "string \<Rightarrow> nat \<Rightarrow> (nat \<times> bool) option" where
  "number_exp d p =
     (if at d p CHR ''e'' \<or> at d p CHR ''E'' then
        (let q = (if at d (p + 1) CHR ''+'' \<or> at d (p + 1) CHR ''-'' then p + 2 else p + 1) in
         map_option (\<lambda>q'. (q', True)) (digits d q))
      else Some (p, False))"

definition number :: "string \<Rightarrow> nat \<Rightarrow> nat option" where
  "number d start =
     (case number_whole d start of
        None \<Rightarrow> None
      | Some p1 \<Rightarrow>
          (case number_frac d p1 of
             None \<Rightarrow> None
           | Some p2 \<Rightarrow>
               (case number_exp d p2 of
                  None \<Rightarrow> None
                | Some (p3, exponent) \<Rightarrow>
                    if (exponent \<or> p3 - start > 15) \<and> ParseFloat_range_error (cut d start p3) then None
                    else Some p3)))"

definition isHex :: "char \<Rightarrow> bool" where
  "isHex c \<longleftrightarrow> (48 \<le> ord c \<and> ord c \<le> 57) \<or> (97 \<le> ord c \<and> ord c \<le> 102) \<or> (65 \<le> ord c \<and> ord c \<le> 70)"

definition escape_letter :: "char \<Rightarrow> bool" where
  "escape_letter e \<longleftrightarrow> e \<in> {CHR 0x22, CHR 0x5C, CHR ''/'', CHR ''b'', CHR ''f'', CHR ''n'', CHR ''r'', CHR ''t''}"

text \<open>The loop of \<^verbatim>\<open>str\<close>: the end of the contents, whether they are plain, and the position after
  the closing quote.\<close>

function str_loop :: "string \<Rightarrow> nat \<Rightarrow> bool \<Rightarrow> (nat \<times> bool \<times> nat) option" where
  "str_loop d p plain =
     (if p < length d then
        let c = d ! p in
        if c = CHR 0x22 then Some (p, plain, p + 1)
        else if c = CHR 0x5C then
          (if p + 1 \<ge> length d then None
           else if escape_letter (d ! (p + 1)) then str_loop d (p + 2) False
           else if d ! (p + 1) = CHR ''u'' then
             (if length d - (p + 1) < 5 then None
              else if \<not> list_all isHex (cut d (p + 2) (p + 6)) then None
              else str_loop d (p + 6) False)
           else None)
        else if ord c < 0x20 then None
        else str_loop d (p + 1) (plain \<and> ord c < 0x80)
      else None)"
  by pat_completeness auto
termination by (relation "measure (\<lambda>(d, p, _). length d - p)") auto

declare str_loop.simps [simp del]

definition str :: "string \<Rightarrow> nat \<Rightarrow> (nat \<times> nat \<times> bool \<times> nat) option" where
  "str d p = map_option (\<lambda>(e, plain, q). (p + 1, e, plain, q)) (str_loop d (p + 1) True)"

definition decodeKey :: "string \<Rightarrow> string option" where
  "decodeKey q = Unmarshal_string q"

text \<open>The duplicate check of \<^verbatim>\<open>object\<close>: pairwise up to \<^verbatim>\<open>linearKeys\<close> keys, a map from then on.\<close>

definition add_key ::
  "string \<Rightarrow> keyRef list \<Rightarrow> string set option \<Rightarrow> keyRef \<Rightarrow> (keyRef list \<times> string set option) option" where
  "add_key d keys seen key =
     (case seen of
        Some names \<Rightarrow>
          (if keyString d key \<in> names then None else Some (keys, Some (insert (keyString d key) names)))
      | None \<Rightarrow>
          if list_ex (\<lambda>k. sameKey d k key) keys then None
          else
            let keys' = keys @ [key] in
            Some (keys', if length keys' = linearKeys then Some (set (map (keyString d) keys')) else None))"

text \<open>The recursive operations. Each body calls the others through \<open>rec\<close>; \<open>scan\<close> ties the knot,
  one unit of fuel per call. \<open>array\<close> and \<open>object\<close> are the heads of the source's methods of that
  name, the loops their \<^verbatim>\<open>for\<close> loops.\<close>

datatype call = Value scanner | ArrayLoop scanner nat | ObjectLoop scanner nat "keyRef list" "string set option"

type_synonym outcome = "scanner option option"

definition array :: "(call \<Rightarrow> outcome) \<Rightarrow> string \<Rightarrow> scanner \<Rightarrow> outcome" where
  "array rec d s =
     (let depth = sc_depth s + 1 in
      if depth > MaxDepth then Some None
      else
        let s1 = space d (s\<lparr>sc_pos := sc_pos s + 1, sc_depth := depth\<rparr>) in
        if at d (sc_pos s1) CHR '']'' then Some (Some (s1\<lparr>sc_pos := sc_pos s1 + 1, sc_depth := depth - 1\<rparr>))
        else rec (ArrayLoop s1 depth))"

definition array_loop :: "(call \<Rightarrow> outcome) \<Rightarrow> string \<Rightarrow> scanner \<Rightarrow> nat \<Rightarrow> outcome" where
  "array_loop rec d s depth =
     (case rec (Value s) of
        None \<Rightarrow> None
      | Some None \<Rightarrow> Some None
      | Some (Some s1) \<Rightarrow>
          let s2 = (if depth = 1
                    then s1\<lparr>sc_elements := map_option (\<lambda>es. es @ [cut d (sc_pos s) (sc_pos s1)]) (sc_elements s1)\<rparr>
                    else s1);
              s3 = space d s2
          in if at d (sc_pos s3) CHR '','' then rec (ArrayLoop (space d (s3\<lparr>sc_pos := sc_pos s3 + 1\<rparr>)) depth)
             else if at d (sc_pos s3) CHR '']''
             then Some (Some (s3\<lparr>sc_pos := sc_pos s3 + 1, sc_depth := sc_depth s3 - 1\<rparr>))
             else Some None)"

definition object :: "(call \<Rightarrow> outcome) \<Rightarrow> string \<Rightarrow> scanner \<Rightarrow> outcome" where
  "object rec d s =
     (let depth = sc_depth s + 1 in
      if depth > MaxDepth then Some None
      else
        let s1 = space d (s\<lparr>sc_pos := sc_pos s + 1, sc_depth := depth\<rparr>) in
        if at d (sc_pos s1) CHR ''}'' then Some (Some (s1\<lparr>sc_pos := sc_pos s1 + 1, sc_depth := depth - 1\<rparr>))
        else rec (ObjectLoop s1 depth [] None))"

text \<open>The key of one member: its reference and the position after its closing quote.\<close>

definition scan_key :: "string \<Rightarrow> nat \<Rightarrow> (keyRef \<times> nat) option" where
  "scan_key d quote =
     (if \<not> at d quote CHR 0x22 then None
      else case str d quote of
        None \<Rightarrow> None
      | Some (start, e, plain, q) \<Rightarrow>
          (case (if plain then Some [] else decodeKey (cut d quote (e + 1))) of
             None \<Rightarrow> None
           | Some decoded \<Rightarrow> Some (\<lparr>kr_start = start, kr_end = e, kr_decoded = decoded, kr_plain = plain\<rparr>, q)))"

definition object_loop ::
  "(call \<Rightarrow> outcome) \<Rightarrow> string \<Rightarrow> scanner \<Rightarrow> nat \<Rightarrow> keyRef list \<Rightarrow> string set option \<Rightarrow> outcome" where
  "object_loop rec d s depth keys seen =
     (case scan_key d (sc_pos s) of
        None \<Rightarrow> Some None
      | Some (key, q) \<Rightarrow>
          (case add_key d keys seen key of
             None \<Rightarrow> Some None
           | Some (keys', seen') \<Rightarrow>
               let s1 = space d (s\<lparr>sc_pos := q\<rparr>) in
               if \<not> at d (sc_pos s1) CHR '':'' then Some None
               else
                 let s2 = space d (s1\<lparr>sc_pos := sc_pos s1 + 1\<rparr>) in
                 (case rec (Value s2) of
                    None \<Rightarrow> None
                  | Some None \<Rightarrow> Some None
                  | Some (Some s3) \<Rightarrow>
                      let fd = \<lparr>fd_Key = keyString d key, fd_Value = cut d (sc_pos s2) (sc_pos s3)\<rparr>;
                          s4 = (if depth = 1 then s3\<lparr>sc_top := map_option (\<lambda>fs. fs @ [fd]) (sc_top s3)\<rparr> else s3);
                          s5 = space d s4
                      in if at d (sc_pos s5) CHR '',''
                         then rec (ObjectLoop (space d (s5\<lparr>sc_pos := sc_pos s5 + 1\<rparr>)) depth keys' seen')
                         else if at d (sc_pos s5) CHR ''}''
                         then Some (Some (s5\<lparr>sc_pos := sc_pos s5 + 1, sc_depth := sc_depth s5 - 1\<rparr>))
                         else Some None)))"

definition scalar :: "string \<Rightarrow> nat \<Rightarrow> nat option" where
  "scalar d p =
     (let c = d ! p in
      if c = CHR 0x22 then map_option (\<lambda>(_, _, _, q). q) (str d p)
      else if c = CHR ''t'' then literal d ''true'' p
      else if c = CHR ''f'' then literal d ''false'' p
      else if c = CHR ''n'' then literal d ''null'' p
      else if c = CHR ''-'' \<or> is_digit c then number d p
      else None)"

definition value_s :: "(call \<Rightarrow> outcome) \<Rightarrow> string \<Rightarrow> scanner \<Rightarrow> outcome" where
  "value_s rec d s =
     (if sc_pos s \<ge> length d then Some None
      else if d ! sc_pos s = CHR ''{'' then object rec d s
      else if d ! sc_pos s = CHR ''['' then array rec d s
      else Some (map_option (\<lambda>q. s\<lparr>sc_pos := q\<rparr>) (scalar d (sc_pos s))))"

primrec scan :: "nat \<Rightarrow> string \<Rightarrow> call \<Rightarrow> outcome" where
  "scan 0 d c = None"
| "scan (Suc f) d c =
     (case c of
        Value s \<Rightarrow> value_s (scan f d) d s
      | ArrayLoop s depth \<Rightarrow> array_loop (scan f d) d s depth
      | ObjectLoop s depth keys seen \<Rightarrow> object_loop (scan f d) d s depth keys seen)"

section \<open>The entry points\<close>

text \<open>\<open>fuel_for\<close> is enough for any document (\<open>scan_value\<close> is shown never to answer \<open>None\<close>).\<close>

definition fuel_for :: "string \<Rightarrow> nat" where "fuel_for d = 2 * length d + 1"

definition scan_value :: "string \<Rightarrow> scanner \<Rightarrow> outcome" where
  "scan_value d s = scan (fuel_for d) d (Value s)"

definition Valid :: "string \<Rightarrow> bool option" where
  "Valid raw =
     (case scan_value raw (space raw (getScanner None)) of
        None \<Rightarrow> None
      | Some None \<Rightarrow> Some False
      | Some (Some s) \<Rightarrow> Some (sc_pos (space raw s) = length raw))"

definition Fields :: "string \<Rightarrow> Field list option option" where
  "Fields raw =
     (let s0 = space raw (getScanner (Some [])) in
      if \<not> at raw (sc_pos s0) CHR ''{'' then Some None
      else case scan_value raw s0 of
        None \<Rightarrow> None
      | Some None \<Rightarrow> Some None
      | Some (Some s) \<Rightarrow> Some (if sc_pos (space raw s) \<noteq> length raw then None else sc_top s))"

definition Elements :: "string \<Rightarrow> string list option option" where
  "Elements raw =
     (let s0 = space raw ((getScanner None)\<lparr>sc_elements := Some []\<rparr>) in
      if \<not> at raw (sc_pos s0) CHR ''['' then Some None
      else case scan_value raw s0 of
        None \<Rightarrow> None
      | Some None \<Rightarrow> Some None
      | Some (Some s) \<Rightarrow> Some (if sc_pos (space raw s) \<noteq> length raw then None else sc_elements s))"

definition Compact :: "string \<Rightarrow> bool option" where
  "Compact raw =
     (case scan_value raw (getScanner None) of
        None \<Rightarrow> None
      | Some None \<Rightarrow> Some False
      | Some (Some s) \<Rightarrow> Some (sc_pos s = length raw \<and> \<not> sc_spaced s))"

definition lineSeparator :: string where "lineSeparator = [CHR 0xE2, CHR 0x80, CHR 0xA8]"
definition paragraphSeparator :: string where "paragraphSeparator = [CHR 0xE2, CHR 0x80, CHR 0xA9]"

definition CanonicalRaw :: "string \<Rightarrow> bool option" where
  "CanonicalRaw raw =
     map_option (\<lambda>c. c \<and> \<not> list_ex (\<lambda>x. x \<in> {CHR ''<'', CHR ''>'', CHR ''&''}) raw
                   \<and> \<not> Contains raw lineSeparator \<and> \<not> Contains raw paragraphSeparator) (Compact raw)"

end
