(* ===== verification/Strictjson_Grammar.thy ===== *)
theory Strictjson_Grammar
  imports Strictjson_Scan
begin

text \<open>
  The grammar of the documents the scanner admits, as an abstract specification: JSON values
  of bounded nesting whose objects repeat no decoded key. The grammar takes the texts allowed as
  white space as a parameter, so that it also describes documents without any. The scanner is
  shown to accept exactly this grammar, always to return, and to collect exactly the members and
  elements the grammar names.
\<close>

section \<open>The grammar\<close>

definition ws :: "string \<Rightarrow> bool" where "ws a \<longleftrightarrow> list_all is_ws a"

definition str_text :: "string \<Rightarrow> bool" where
  "str_text w \<longleftrightarrow> (\<exists>b. w = CHR 0x22 # b @ [CHR 0x22] \<and> str_body b)"

definition whole_text :: "string \<Rightarrow> bool" where
  "whole_text w \<longleftrightarrow> w = ''0'' \<or> (digits_only w \<and> hd w \<noteq> CHR ''0'')"

definition frac_text :: "string \<Rightarrow> bool" where
  "frac_text w \<longleftrightarrow> w = [] \<or> (\<exists>f. digits_only f \<and> w = CHR ''.'' # f)"

definition exp_text :: "string \<Rightarrow> bool" where
  "exp_text w \<longleftrightarrow> w = [] \<or> (\<exists>e sg x. (e = CHR ''e'' \<or> e = CHR ''E'') \<and> sg \<in> {[], ''+'', ''-''}
     \<and> digits_only x \<and> w = e # sg @ x)"

definition num_text :: "string \<Rightarrow> bool" where
  "num_text w \<longleftrightarrow> (\<exists>sg whole frac ex. w = sg @ whole @ frac @ ex \<and> sg \<in> {[], ''-''}
     \<and> whole_text whole \<and> frac_text frac \<and> exp_text ex) \<and> \<not> ParseFloat_range_error w"

inductive json_value :: "(string \<Rightarrow> bool) \<Rightarrow> nat \<Rightarrow> string \<Rightarrow> bool"
  and json_array :: "(string \<Rightarrow> bool) \<Rightarrow> nat \<Rightarrow> string list \<Rightarrow> string \<Rightarrow> bool"
  and json_elems :: "(string \<Rightarrow> bool) \<Rightarrow> nat \<Rightarrow> string list \<Rightarrow> string \<Rightarrow> bool"
  and json_object :: "(string \<Rightarrow> bool) \<Rightarrow> nat \<Rightarrow> Field list \<Rightarrow> string \<Rightarrow> bool"
  and json_members :: "(string \<Rightarrow> bool) \<Rightarrow> nat \<Rightarrow> string set \<Rightarrow> Field list \<Rightarrow> string \<Rightarrow> bool"
  for W where
  v_lit: "w \<in> {''true'', ''false'', ''null''} \<Longrightarrow> json_value W n w"
| v_num: "num_text w \<Longrightarrow> json_value W n w"
| v_str: "str_text w \<Longrightarrow> json_value W n w"
| v_arr: "json_array W n vs w \<Longrightarrow> json_value W n w"
| v_obj: "json_object W n fs w \<Longrightarrow> json_value W n w"
| a_nil: "W a \<Longrightarrow> json_array W (Suc n) [] (CHR ''['' # a @ '']'')"
| a_cons: "W a \<Longrightarrow> json_elems W n vs w \<Longrightarrow> json_array W (Suc n) vs (CHR ''['' # a @ w)"
| e_last: "json_value W n v \<Longrightarrow> W a \<Longrightarrow> json_elems W n [v] (v @ a @ '']'')"
| e_more: "json_value W n v \<Longrightarrow> W a \<Longrightarrow> W b \<Longrightarrow> json_elems W n vs w \<Longrightarrow>
     json_elems W n (v # vs) (v @ a @ CHR '','' # b @ w)"
| o_nil: "W a \<Longrightarrow> json_object W (Suc n) [] (CHR ''{'' # a @ ''}'')"
| o_cons: "W a \<Longrightarrow> json_members W n {} fs w \<Longrightarrow> json_object W (Suc n) fs (CHR ''{'' # a @ w)"
| m_last: "Unmarshal_string k = Some name \<Longrightarrow> name \<notin> K \<Longrightarrow> W a \<Longrightarrow> W b \<Longrightarrow> json_value W n v \<Longrightarrow> W c \<Longrightarrow>
     json_members W n K [\<lparr>fd_Key = name, fd_Value = v\<rparr>] (k @ a @ CHR '':'' # b @ v @ c @ ''}'')"
| m_more: "Unmarshal_string k = Some name \<Longrightarrow> name \<notin> K \<Longrightarrow> W a \<Longrightarrow> W b \<Longrightarrow> json_value W n v \<Longrightarrow> W c \<Longrightarrow> W e \<Longrightarrow>
     json_members W n (insert name K) fs w \<Longrightarrow>
     json_members W n K (\<lparr>fd_Key = name, fd_Value = v\<rparr> # fs) (k @ a @ CHR '':'' # b @ v @ c @ CHR '','' # e @ w)"

section \<open>Runs of bytes\<close>

lemma drop_nth: "p < length d \<Longrightarrow> drop p d = d ! p # drop (p + 1) d"
  by (simp add: Cons_nth_drop_Suc)

lemma drop_ConsD: "drop p d = c # t \<Longrightarrow> p < length d \<and> d ! p = c \<and> drop (p + 1) d = t"
  by (metis Cons_nth_drop_Suc Suc_eq_plus1 drop_eq_Nil linorder_not_less list.distinct(1) list.inject)

lemma at_iff: "at d p c \<longleftrightarrow> (\<exists>t. drop p d = c # t)"
  by (auto simp: at_def drop_nth dest: drop_ConsD)

lemma drop_appendD: "drop p d = w @ t \<Longrightarrow> drop (p + length w) d = t"
  by (metis add.commute append_eq_conv_conj drop_drop)

lemma cut_prefix: "drop p d = w @ t \<Longrightarrow> cut d p (p + length w) = w"
  by (simp add: cut_def)

lemma space_loop_eq:
  "space_loop d p sp = (p + length (takeWhile is_ws (drop p d)), sp \<or> takeWhile is_ws (drop p d) \<noteq> [])"
proof (induction d p sp rule: space_loop.induct)
  case (1 d p sp)
  show ?case
  proof (cases "p < length d \<and> is_ws (d ! p)")
    case True
    with 1 show ?thesis by (subst space_loop.simps) (simp add: drop_nth)
  next
    case False
    then show ?thesis by (subst space_loop.simps) (cases "p < length d"; simp add: drop_nth)
  qed
qed

lemma digits_loop_eq: "digits_loop d p = p + length (takeWhile is_digit (drop p d))"
proof (induction d p rule: digits_loop.induct)
  case (1 d p)
  show ?case
  proof (cases "p < length d \<and> is_digit (d ! p)")
    case True
    with 1 show ?thesis by (subst digits_loop.simps) (simp add: drop_nth)
  next
    case False
    then show ?thesis by (subst digits_loop.simps) (cases "p < length d"; simp add: drop_nth)
  qed
qed

text \<open>What \<open>space\<close> does, over the text still to be read.\<close>

lemma space_spec:
  obtains a where "drop (sc_pos s) d = a @ drop (sc_pos (space d s)) d" "ws a"
    "space d s = s\<lparr>sc_pos := sc_pos s + length a, sc_spaced := sc_spaced s \<or> a \<noteq> []\<rparr>"
    "drop (sc_pos (space d s)) d = [] \<or> \<not> is_ws (hd (drop (sc_pos (space d s)) d))"
proof
  let ?a = "takeWhile is_ws (drop (sc_pos s) d)"
  show e: "space d s = s\<lparr>sc_pos := sc_pos s + length ?a, sc_spaced := sc_spaced s \<or> ?a \<noteq> []\<rparr>"
    by (simp add: space_def space_loop_eq)
  have "drop (length ?a) (drop (sc_pos s) d) = dropWhile is_ws (drop (sc_pos s) d)"
    by (simp only: dropWhile_eq_drop)
  then have r: "drop (sc_pos (space d s)) d = dropWhile is_ws (drop (sc_pos s) d)"
    by (simp add: e add.commute)
  then show "drop (sc_pos s) d = ?a @ drop (sc_pos (space d s)) d" by simp
  show "ws ?a" by (auto simp: ws_def list_all_iff dest: set_takeWhileD)
  show "drop (sc_pos (space d s)) d = [] \<or> \<not> is_ws (hd (drop (sc_pos (space d s)) d))"
    unfolding r by (meson hd_dropWhile)
qed

lemma space_over:
  assumes "drop (sc_pos s) d = a @ t" and "ws a" and "t = [] \<or> \<not> is_ws (hd t)"
  shows "space d s = s\<lparr>sc_pos := sc_pos s + length a, sc_spaced := sc_spaced s \<or> a \<noteq> []\<rparr>"
proof -
  have "takeWhile is_ws (a @ t) = a"
    using assms(2,3) by (cases t) (auto simp: ws_def list_all_iff takeWhile_append)
  then show ?thesis using assms(1) by (simp add: space_def space_loop_eq)
qed

section \<open>Strings\<close>

lemma escape_letter_iff: "escape_letter e \<longleftrightarrow> simple_escape e \<noteq> None"
  by (auto simp: escape_letter_def simple_escape_def)

lemma isHex_iff: "isHex c \<longleftrightarrow> hex_digit c"
  by (auto simp: isHex_def hex_digit_def hex_val_def Let_def)

definition plain_char :: "char \<Rightarrow> bool" where
  "plain_char c \<longleftrightarrow> c \<noteq> CHR 0x5C \<and> ord c < 0x80"

lemma str_loop_sound:
  "str_loop d p plain = Some (e, pl, q) \<Longrightarrow>
     \<exists>b. drop p d = b @ CHR 0x22 # drop q d \<and> str_body b \<and> e = p + length b \<and> q = e + 1
       \<and> (pl \<longleftrightarrow> plain \<and> list_all plain_char b)"
proof (induction d p plain rule: str_loop.induct)
  case (1 d p plain)
  then have lt: "p < length d" by (subst (asm) str_loop.simps) (auto split: if_splits)
  note r = "1.prems" [unfolded str_loop.simps [of d p] Let_def if_P [OF lt]]
  let ?c = "d ! p"
  consider (close) "?c = CHR 0x22"
    | (letter) "?c = CHR 0x5C" "p + 1 < length d" "escape_letter (d ! (p + 1))" "str_loop d (p + 2) False = Some (e, pl, q)"
    | (uni) "?c = CHR 0x5C" "p + 1 < length d" "\<not> escape_letter (d ! (p + 1))" "d ! (p + 1) = CHR ''u''"
        "5 \<le> length d - (p + 1)" "list_all isHex (cut d (p + 2) (p + 6))" "str_loop d (p + 6) False = Some (e, pl, q)"
    | (ord) "?c \<noteq> CHR 0x22" "?c \<noteq> CHR 0x5C" "\<not> ord ?c < 0x20" "str_loop d (p + 1) (plain \<and> ord ?c < 0x80) = Some (e, pl, q)"
    using r by (auto split: if_splits)
  then show ?case
  proof cases
    case close
    with r lt show ?thesis by (intro exI [of _ "[]"]) (auto simp: drop_nth)
  next
    case letter
    obtain b where b: "drop (p + 2) d = b @ CHR 0x22 # drop q d" "str_body b" "e = p + 2 + length b" "q = e + 1"
        "pl \<longleftrightarrow> False \<and> list_all plain_char b"
      using "1.IH"(1) [OF lt refl _ letter(1) _ letter(3,4)] letter(1,2) by auto
    have "drop p d = ?c # d ! (p + 1) # drop (p + 2) d"
      using lt letter(2) by (simp add: drop_nth)
    then show ?thesis using b letter
      by (intro exI [of _ "?c # d ! (p + 1) # b"]) (simp add: plain_char_def escape_letter_iff)
  next
    case uni
    obtain b where b: "drop (p + 6) d = b @ CHR 0x22 # drop q d" "str_body b" "e = p + 6 + length b" "q = e + 1"
        "pl \<longleftrightarrow> False \<and> list_all plain_char b"
      using "1.IH"(2) [OF lt refl _ uni(1) _ uni(3,4) _ _ uni(7)] uni by auto
    define h where "h = cut d (p + 2) (p + 6)"
    have "length h = 4" using uni(5) by (simp add: h_def cut_def)
    then obtain h1 h2 h3 h4 where h4: "h = [h1, h2, h3, h4]" by (auto simp: length_Suc_conv numeral_eq_Suc)
    have "drop (p + 2) d = h @ drop (p + 6) d"
      using append_take_drop_id [of 4 "drop (p + 2) d"] by (simp add: h_def cut_def add.commute)
    then have "drop p d = ?c # d ! (p + 1) # h @ drop (p + 6) d"
      using lt uni(2) by (simp add: drop_nth)
    moreover have "list_all isHex h" using uni(6) by (simp only: h_def)
    then have "str_body (CHR 0x5C # CHR ''u'' # h @ b)"
      using b(2) by (simp add: simple_escape_def h4 isHex_iff)
    ultimately show ?thesis using b uni h4
      by (intro exI [of _ "?c # d ! (p + 1) # h @ b"]) (simp add: plain_char_def)
  next
    case ord
    obtain b where b: "drop (p + 1) d = b @ CHR 0x22 # drop q d" "str_body b" "e = p + 1 + length b" "q = e + 1"
        "pl \<longleftrightarrow> (plain \<and> ord ?c < 0x80) \<and> list_all plain_char b"
      using "1.IH"(3) [OF lt refl ord(1-4)] by auto
    moreover have "plain_char ?c \<longleftrightarrow> ord ?c < 0x80" using ord(2) by (simp add: plain_char_def)
    ultimately show ?thesis using lt ord by (intro exI [of _ "?c # b"]) (auto simp: drop_nth)
  qed
qed

lemma str_loop_complete:
  "drop p d = b @ CHR 0x22 # t \<Longrightarrow> str_body b \<Longrightarrow> \<exists>pl. str_loop d p plain = Some (p + length b, pl, p + length b + 1)"
proof (induction b arbitrary: p plain rule: measure_induct_rule [of length])
  case (less b)
  show ?case
  proof (cases b)
    case Nil
    with less.prems have "p < length d" "d ! p = CHR 0x22" using drop_ConsD [of p d] by auto
    then show ?thesis by (subst str_loop.simps) (simp add: Nil)
  next
    case (Cons c b')
    with less.prems drop_ConsD [of p d c "b' @ CHR 0x22 # t"]
    have c: "p < length d" "d ! p = c" "drop (p + 1) d = b' @ CHR 0x22 # t" by auto
    show ?thesis
    proof (cases "c = CHR 0x5C")
      case False
      then have o: "c \<noteq> CHR 0x22" "\<not> ord c < 0x20" "str_body b'"
        using less.prems(2) by (auto simp: Cons split: if_splits)
      with less.IH [of b' "p + 1" "plain \<and> ord c < 0x80"] c(3) obtain pl where
        "str_loop d (p + 1) (plain \<and> ord c < 0x80) = Some (p + 1 + length b', pl, p + 1 + length b' + 1)"
        by (auto simp: Cons)
      then show ?thesis using c o False by (subst str_loop.simps) (simp add: Cons)
    next
      case True
      obtain e b2 where b': "b' = e # b2" using less.prems(2) True by (cases b') (auto simp: Cons)
      with c(3) drop_ConsD [of "p + 1" d e "b2 @ CHR 0x22 # t"]
      have e: "p + 1 < length d" "d ! (p + 1) = e" "drop (p + 2) d = b2 @ CHR 0x22 # t" by auto
      show ?thesis
      proof (cases "simple_escape e = None")
        case no: False
        then have "str_body b2" using less.prems(2) by (simp add: Cons b' True)
        with less.IH [of b2 "p + 2" False] e(3) obtain pl where
          "str_loop d (p + 2) False = Some (p + 2 + length b2, pl, p + 2 + length b2 + 1)" by (auto simp: Cons b')
        then show ?thesis using c e no True by (subst str_loop.simps) (simp add: Cons b' escape_letter_iff)
      next
        case yes: True
        then obtain h1 h2 h3 h4 b3 where b2: "e = CHR ''u''" "b2 = h1 # h2 # h3 # h4 # b3" "str_body b3"
            "list_all hex_digit [h1, h2, h3, h4]"
          using less.prems(2) by (auto simp: Cons b' True split: if_splits list.splits)
        have d6: "drop (p + 6) d = b3 @ CHR 0x22 # t"
          using drop_appendD [of "p + 2" d "[h1, h2, h3, h4]" "b3 @ CHR 0x22 # t"] e(3) b2(2)
          by (simp add: numeral_eq_Suc)
        have h: "cut d (p + 2) (p + 6) = [h1, h2, h3, h4]" using e(3) b2(2) by (simp add: cut_def)
        have "length (drop (p + 2) d) = 5 + length b3 + length t" by (subst e(3)) (simp add: b2(2))
        then have len: "\<not> length d - (p + 1) < 5" by simp
        obtain pl where "str_loop d (p + 6) False = Some (p + 6 + length b3, pl, p + 6 + length b3 + 1)"
          using less.IH [of b3 "p + 6" False] d6 b2(2,3) by (auto simp: Cons b')
        then show ?thesis using c e yes True b2(1,2,4) h len
          by (subst str_loop.simps) (simp add: Cons b' escape_letter_iff isHex_iff)
      qed
    qed
  qed
qed

lemma unquote_plain: "str_body b \<Longrightarrow> list_all plain_char b \<Longrightarrow> unquote_loop b = Some b"
proof -
  assume a: "str_body b" "list_all plain_char b"
  have "\<forall>c \<in> set b. \<not> special c" using a
  proof (induction b)
    case (Cons c b)
    have p: "c \<noteq> CHR 0x5C" "ord c < 0x80" "list_all plain_char b" using Cons.prems(2) by (simp_all add: plain_char_def list_all_iff)
    have "c \<noteq> CHR 0x22 \<and> \<not> ord c < 0x20 \<and> str_body b"
      using Cons.prems(1) unfolding str_body.simps if_not_P [OF p(1)] by presburger
    with p Cons.IH show ?case by (simp add: special_def)
  qed simp
  then show ?thesis using run_plain(2) [of b "[]"] by (simp add: unquote_loop.simps)
qed

lemma str_body_unquote: "str_body b \<Longrightarrow> \<exists>x. unquote_loop b = Some x"
proof (induction b rule: measure_induct_rule [of length])
  case (less b)
  show ?case
  proof (cases b)
    case Nil
    then show ?thesis by (simp add: unquote_loop.simps)
  next
    case (Cons c t)
    have len: "length (drop (Suc k) b) < length b" for k by (simp add: Cons)
    show ?thesis
    proof (cases "c = CHR 0x5C")
      case False
      then have o: "c \<noteq> CHR 0x22" "\<not> ord c < 0x20" "str_body t" using less.prems by (auto simp: Cons split: if_splits)
      obtain k where k: "snd (DecodeRune b) = Suc k" using DecodeRune_width [of b] Cons by (cases "snd (DecodeRune b)") auto
      have "str_body (drop (Suc k) b)" if "\<not> ord c < 0x80"
        using str_body_high [OF DecodeRune_high [of c t], of "drop (Suc k) b"] that k less.prems Cons by auto
      then show ?thesis using False o less.IH [of t] less.IH [OF len, of k] k
        by (subst unquote_loop.simps) (auto simp: Cons)
    next
      case True
      then obtain e t' where t: "t = e # t'" using less.prems by (cases t) (auto simp: Cons)
      show ?thesis
      proof (cases "simple_escape e")
        case (Some x)
        have "e \<noteq> CHR ''u''" using Some by (auto simp: simple_escape_def)
        then show ?thesis using Some less.IH [of t'] less.prems True
          by (subst unquote_loop.simps) (auto simp: Cons t)
      next
        case None
        then have e: "e = CHR ''u''" using less.prems True by (auto simp: Cons t split: if_splits)
        have b: "b = CHR 0x5C # CHR ''u'' # t'" by (simp add: Cons t e True)
        obtain r where r: "getu4 b = Some r" using str_body_u [of t'] less.prems by (auto simp: b)
        have b6: "str_body (drop 6 b)" using getu4_body [OF r] less.prems by simp
        have b12: "str_body (drop 12 b)" if "utf16_DecodeRune r (getu4 (drop 6 b)) \<noteq> RuneError"
          using that b6 getu4_body [of "drop 6 b"] by (auto simp: utf16_DecodeRune_def split: option.splits)
        obtain x where "unquote_loop (drop 6 b) = Some x" using less.IH [OF len [of 5]] b6 by auto
        moreover have "\<exists>y. unquote_loop (drop 12 b) = Some y" if "utf16_DecodeRune r (getu4 (drop 6 b)) \<noteq> RuneError"
          using less.IH [OF len [of 11]] b12 [OF that] by auto
        ultimately show ?thesis using r by (subst unquote_loop.simps) (auto simp: b Let_def)
      qed
    qed
  qed
qed

section \<open>Numbers\<close>

definition no_digit :: "string \<Rightarrow> bool" where "no_digit t \<longleftrightarrow> t = [] \<or> \<not> is_digit (hd t)"

definition delim :: "string \<Rightarrow> bool" where
  "delim t \<longleftrightarrow> t = [] \<or> (\<not> is_digit (hd t) \<and> hd t \<notin> {CHR ''.'', CHR ''e'', CHR ''E''})"

lemma takeWhile_digits: "list_all is_digit x \<Longrightarrow> no_digit t \<Longrightarrow> takeWhile is_digit (x @ t) = x"
  by (induction x) (cases t; auto simp: no_digit_def)+

lemma digits_sound:
  assumes "digits d p = Some q"
  shows "\<exists>x. digits_only x \<and> drop p d = x @ drop q d \<and> q = p + length x"
proof -
  let ?x = "takeWhile is_digit (drop p d)"
  have q: "q = p + length ?x" "?x \<noteq> []" using assms by (auto simp: digits_def digits_loop_eq Let_def split: if_splits)
  moreover have "drop q d = dropWhile is_digit (drop p d)"
    by (simp add: q dropWhile_eq_drop add.commute)
  moreover have "list_all is_digit ?x" by (auto simp: list_all_iff dest: set_takeWhileD)
  ultimately show ?thesis by (intro exI [of _ ?x]) (simp add: digits_only_def)
qed

lemma digits_complete:
  "digits_only x \<Longrightarrow> no_digit t \<Longrightarrow> drop p d = x @ t \<Longrightarrow> digits d p = Some (p + length x)"
  by (auto simp: digits_def digits_loop_eq takeWhile_digits digits_only_def)

lemma nonzero_digit_iff: "49 \<le> ord c \<and> ord c \<le> 57 \<longleftrightarrow> is_digit c \<and> c \<noteq> CHR ''0''"
proof -
  have "ord CHR ''0'' = 48" by (simp add: ord_def)
  then have "c \<noteq> CHR ''0'' \<longleftrightarrow> ord c \<noteq> 48" by (metis ord_inj)
  then show ?thesis by (auto simp: is_digit_def)
qed

lemma number_whole_sound:
  assumes "number_whole d p = Some q" and "p < length d"
  shows "\<exists>sg w. drop p d = sg @ w @ drop q d \<and> q = p + length sg + length w \<and> sg \<in> {[], ''-''} \<and> whole_text w"
proof -
  define sg where "sg = (if d ! p = CHR ''-'' then ''-'' else [])"
  define p1 where "p1 = p + length sg"
  have sg: "drop p d = sg @ drop p1 d" "sg \<in> {[], ''-''}"
    using assms(2) by (auto simp: sg_def p1_def drop_nth)
  have p1: "(if d ! p = CHR ''-'' then p + 1 else p) = p1" by (simp add: p1_def sg_def)
  note w = assms(1) [unfolded number_whole_def p1 Let_def]
  show ?thesis
  proof (cases "at d p1 CHR ''0''")
    case True
    then obtain t where "drop p1 d = CHR ''0'' # t" by (auto simp: at_iff)
    with True w sg show ?thesis
      by (intro exI [of _ sg] exI [of _ "''0''"]) (auto simp: whole_text_def p1_def dest: drop_ConsD)
  next
    case False
    with w have c: "p1 < length d" "is_digit (d ! p1)" "d ! p1 \<noteq> CHR ''0''" "q = digits_loop d p1"
      by (auto simp: at_def nonzero_digit_iff split: if_splits)
    then have "digits d p1 = Some q"
      by (simp add: digits_def digits_loop_eq drop_nth)
    then obtain x where x: "digits_only x" "drop p1 d = x @ drop q d" "q = p1 + length x" using digits_sound by blast
    then have "hd x = d ! p1" using c(1) by (cases x) (auto simp: digits_only_def drop_nth)
    with x sg c show ?thesis
      by (intro exI [of _ sg] exI [of _ x]) (auto simp: whole_text_def p1_def)
  qed
qed

lemma number_whole_complete:
  assumes "drop p d = sg @ w @ t" and "sg \<in> {[], ''-''}" and "whole_text w" and "no_digit t"
  shows "number_whole d p = Some (p + length sg + length w)"
proof -
  obtain c w' where w: "w = c # w'" using assms(3) by (cases w) (auto simp: whole_text_def digits_only_def)
  have dig: "list_all is_digit w" using assms(3) by (auto simp: whole_text_def digits_only_def is_digit_def ord_def)
  then have cm: "c \<noteq> CHR ''-''" by (auto simp: w)
  have p1: "(if d ! p = CHR ''-'' then p + 1 else p) = p + length sg"
    using assms(1,2) cm drop_ConsD [of p d] by (auto simp: w)
  have d1: "drop (p + length sg) d = w @ t" by (rule drop_appendD [OF assms(1)])
  then have at: "p + length sg < length d" "d ! (p + length sg) = c"
    using drop_ConsD [of "p + length sg" d c] by (simp_all add: w)
  show ?thesis
  proof (cases "w = ''0''")
    case True
    then show ?thesis using at unfolding number_whole_def p1 Let_def by (simp add: at_def w)
  next
    case False
    then have "c \<noteq> CHR ''0''" using assms(3) by (auto simp: whole_text_def w)
    moreover have "digits_loop d (p + length sg) = p + length sg + length w"
      by (simp add: digits_loop_eq d1 takeWhile_digits dig assms(4))
    ultimately show ?thesis
      using at dig unfolding number_whole_def p1 Let_def by (simp add: at_def nonzero_digit_iff w)
  qed
qed

lemma number_frac_sound:
  "number_frac d p = Some q \<Longrightarrow> \<exists>f. drop p d = f @ drop q d \<and> q = p + length f \<and> frac_text f"
proof (cases "at d p CHR ''.''")
  case True
  assume "number_frac d p = Some q"
  with True obtain x where "digits_only x" "drop (p + 1) d = x @ drop q d" "q = p + 1 + length x"
    using digits_sound [of d "p + 1" q] by (auto simp: number_frac_def)
  with True show ?thesis by (intro exI [of _ "CHR ''.'' # x"]) (auto simp: frac_text_def at_def drop_nth)
qed (auto simp: number_frac_def frac_text_def)

lemma number_frac_complete:
  assumes "drop p d = f @ t" and "frac_text f" and "no_digit t" and "f = [] \<longrightarrow> t = [] \<or> hd t \<noteq> CHR ''.''"
  shows "number_frac d p = Some (p + length f)"
proof (cases "f = []")
  case True
  then have "\<not> at d p CHR ''.''" using assms(1,4) by (auto simp: at_iff)
  with True show ?thesis by (simp add: number_frac_def)
next
  case False
  then obtain x where x: "digits_only x" "f = CHR ''.'' # x" using assms(2) by (auto simp: frac_text_def)
  then have "at d p CHR ''.''" "drop (p + 1) d = x @ t" using assms(1) drop_ConsD [of p d] by (auto simp: at_iff)
  with x assms(3) show ?thesis by (simp add: number_frac_def digits_complete)
qed

lemma number_exp_sound:
  assumes "number_exp d p = Some (q, ex)"
  shows "\<exists>x. drop p d = x @ drop q d \<and> q = p + length x \<and> exp_text x \<and> (ex \<longleftrightarrow> x \<noteq> [])"
proof (cases "at d p CHR ''e'' \<or> at d p CHR ''E''")
  case True
  define sg where "sg = (if at d (p + 1) CHR ''+'' then ''+'' else if at d (p + 1) CHR ''-'' then ''-'' else [])"
  have sg: "(if at d (p + 1) CHR ''+'' \<or> at d (p + 1) CHR ''-'' then p + 2 else p + 1) = p + 1 + length sg"
    "drop (p + 1) d = sg @ drop (p + 1 + length sg) d" "sg \<in> {[], ''+'', ''-''}"
    by (auto simp: sg_def at_def drop_nth)
  obtain x where x: "digits_only x" "drop (p + 1 + length sg) d = x @ drop q d" "q = p + 1 + length sg + length x" "ex"
    using assms digits_sound [of d "p + 1 + length sg" q]
    unfolding number_exp_def if_P [OF True] Let_def sg(1) by auto
  have "drop p d = d ! p # sg @ x @ drop q d" using True sg(2) x(2) by (auto simp: at_def drop_nth)
  moreover have "d ! p = CHR ''e'' \<or> d ! p = CHR ''E''" using True by (auto simp: at_def)
  then have "exp_text (d ! p # sg @ x)" unfolding exp_text_def using sg(3) x(1) by blast
  ultimately show ?thesis using x(3,4) by (intro exI [of _ "d ! p # sg @ x"]) simp
qed (use assms in \<open>auto simp: number_exp_def exp_text_def\<close>)

lemma number_exp_complete:
  assumes "drop p d = x @ t" and "exp_text x" and "delim t"
  shows "number_exp d p = Some (p + length x, x \<noteq> [])"
proof (cases "x = []")
  case True
  then have "\<not> (at d p CHR ''e'' \<or> at d p CHR ''E'')" using assms(1,3) by (auto simp: at_iff delim_def)
  with True show ?thesis by (simp add: number_exp_def)
next
  case False
  then obtain e sg y where x: "e = CHR ''e'' \<or> e = CHR ''E''" "sg \<in> {[], ''+'', ''-''}" "digits_only y" "x = e # sg @ y"
    using assms(2) by (auto simp: exp_text_def)
  have d1: "p < length d" "d ! p = e" "drop (p + 1) d = sg @ y @ t" using assms(1) x(4) drop_ConsD [of p d e] by auto
  then have e: "at d p CHR ''e'' \<or> at d p CHR ''E''" using x(1) by (auto simp: at_def)
  obtain c y' where y: "y = c # y'" "is_digit c" using x(3) by (cases y) (auto simp: digits_only_def)
  have q: "(if at d (p + 1) CHR ''+'' \<or> at d (p + 1) CHR ''-'' then p + 2 else p + 1) = p + 1 + length sg"
    using x(2) d1(3) y by (auto simp: at_iff)
  have "drop (p + 1 + length sg) d = y @ t" using drop_appendD [OF d1(3)] by simp
  then have "digits d (p + 1 + length sg) = Some (p + 1 + length sg + length y)"
    using x(3) assms(3) by (intro digits_complete) (auto simp: no_digit_def delim_def)
  then show ?thesis unfolding number_exp_def if_P [OF e] Let_def q using x(4) by simp
qed

lemma whole_digits: "whole_text w \<Longrightarrow> list_all is_digit w \<and> w \<noteq> []"
  by (auto simp: whole_text_def digits_only_def is_digit_def ord_def)

text \<open>A number of at most fifteen bytes without an exponent is never out of range, so the scanner
  need not parse it.\<close>

lemma short_number_in_range:
  assumes "sg \<in> {[], ''-''}" and "whole_text w" and "frac_text f" and "length (sg @ w @ f) \<le> 15"
  shows "\<not> ParseFloat_range_error (sg @ w @ f)"
proof -
  note wd = whole_digits [OF assms(2)]
  obtain x where x: "f = [] \<and> x = [] \<or> f = CHR ''.'' # x \<and> digits_only x"
    using assms(3) by (auto simp: frac_text_def)
  have dot: "\<not> is_digit CHR ''.''" by (simp add: is_digit_def ord_def)
  have t: "(if sg @ w @ f \<noteq> [] \<and> hd (sg @ w @ f) = CHR ''-'' then tl (sg @ w @ f) else sg @ w @ f) = w @ f"
    using assms(1) wd by (cases w) auto
  have nd: "no_digit f" using x dot by (auto simp: no_digit_def)
  have tw: "takeWhile is_digit (w @ f) = w" using wd nd by (simp add: takeWhile_digits)
  then have dw: "dropWhile is_digit (w @ f) = f" by (simp add: dropWhile_eq_drop)
  have xd: "list_all is_digit x" using x by (auto simp: digits_only_def)
  have twx: "takeWhile is_digit x = x" "dropWhile is_digit x = []"
    using xd by (simp_all add: list_all_iff)
  have "ParseFloat_range_error (sg @ w @ f) = scaled_over (undec (w @ x)) (- int (length x))"
    using x
  proof
    assume "f = [] \<and> x = []"
    then show ?thesis unfolding ParseFloat_range_error_def Let_def t tw dw by simp
  next
    assume "f = CHR ''.'' # x \<and> digits_only x"
    then have f: "f = CHR ''.'' # x" ..
    show ?thesis unfolding ParseFloat_range_error_def Let_def t tw dw unfolding f by (simp only: list.sel twx) simp
  qed
  moreover have "undec (w @ x) < 10 ^ length (w @ x)" using wd xd by (intro undec_less) simp
  moreover have "length (w @ x) \<le> 15" using assms(4) x by auto
  then have "(10 :: nat) ^ length (w @ x) \<le> 10 ^ 15" by (intro power_increasing) simp_all
  moreover have "(10 :: nat) ^ 15 \<le> float_limit" by (simp add: float_limit_def)
  ultimately have "undec (w @ x) < float_limit" by linarith
  then have "undec (w @ x) < float_limit * 10 ^ k" for k
    by (metis le_trans linorder_not_less mult.right_neutral mult_le_mono2 one_le_numeral one_le_power)
  then show ?thesis
    using \<open>undec (w @ x) < float_limit\<close> \<open>ParseFloat_range_error (sg @ w @ f) = _\<close>
    by (cases "x = []") (simp_all add: scaled_over_def not_le)
qed

lemma number_sound:
  assumes "number d p = Some q" and "p < length d"
  shows "\<exists>w. drop p d = w @ drop q d \<and> q = p + length w \<and> num_text w"
proof -
  obtain p1 p2 ex where n: "number_whole d p = Some p1" "number_frac d p1 = Some p2" "number_exp d p2 = Some (q, ex)"
      "\<not> ((ex \<or> q - p > 15) \<and> ParseFloat_range_error (cut d p q))"
    using assms(1) by (auto simp: number_def split: option.splits if_splits)
  obtain sg w where w: "drop p d = sg @ w @ drop p1 d" "p1 = p + length sg + length w" "sg \<in> {[], ''-''}" "whole_text w"
    using number_whole_sound [OF n(1) assms(2)] by blast
  obtain f where f: "drop p1 d = f @ drop p2 d" "p2 = p1 + length f" "frac_text f" using number_frac_sound [OF n(2)] by blast
  obtain x where x: "drop p2 d = x @ drop q d" "q = p2 + length x" "exp_text x" "ex \<longleftrightarrow> x \<noteq> []"
    using number_exp_sound [OF n(3)] by blast
  let ?w = "sg @ w @ f @ x"
  have d: "drop p d = ?w @ drop q d" by (simp only: w(1) f(1) x(1) append_assoc)
  have q: "q = p + length ?w" using w(2) f(2) x(2) by simp
  have "cut d p q = ?w" unfolding q using cut_prefix [OF d] .
  then have "\<not> ParseFloat_range_error ?w"
    using n(4) x(4) q short_number_in_range [OF w(3,4) f(3)] by (cases "x = []") auto
  then have "num_text ?w" unfolding num_text_def using w(3,4) f(3) x(3) by blast
  with d q show ?thesis by blast
qed

lemma frac_hd: "frac_text f \<Longrightarrow> no_digit t \<Longrightarrow> no_digit (f @ t)"
  by (auto simp: frac_text_def no_digit_def is_digit_def ord_def)

lemma exp_hd: "exp_text x \<Longrightarrow> delim t \<Longrightarrow> no_digit (x @ t) \<and> (x @ t = [] \<or> hd (x @ t) \<noteq> CHR ''.'')"
  by (auto simp: exp_text_def no_digit_def delim_def is_digit_def ord_def)

lemma number_complete:
  assumes "num_text w" and "drop p d = w @ t" and "delim t"
  shows "number d p = Some (p + length w)"
proof -
  obtain sg wh f x where w: "w = sg @ wh @ f @ x" "sg \<in> {[], ''-''}" "whole_text wh" "frac_text f" "exp_text x"
    using assms(1) by (auto simp: num_text_def)
  have e: "\<not> ParseFloat_range_error w" using assms(1) by (simp add: num_text_def)
  have xt: "no_digit (x @ t)" "x @ t = [] \<or> hd (x @ t) \<noteq> CHR ''.''" using exp_hd [OF w(5) assms(3)] by auto
  have d0: "drop p d = sg @ wh @ (f @ x @ t)" using assms(2) w(1) by simp
  have n1: "number_whole d p = Some (p + length sg + length wh)"
    by (rule number_whole_complete [OF d0 w(2,3) frac_hd [OF w(4) xt(1)]])
  have d1: "drop (p + length sg + length wh) d = f @ (x @ t)" using drop_appendD [of p d "sg @ wh"] d0 by (simp add: add.assoc)
  have n2: "number_frac d (p + length sg + length wh) = Some (p + length sg + length wh + length f)"
    using xt(2) by (intro number_frac_complete [OF d1 w(4) xt(1)]) blast
  have d2: "drop (p + length sg + length wh + length f) d = x @ t" by (rule drop_appendD [OF d1])
  note n3 = number_exp_complete [OF d2 w(5) assms(3)]
  have l: "p + length sg + length wh + length f + length x = p + length w" by (simp add: w(1))
  have c: "cut d p (p + length w) = w" by (rule cut_prefix [OF assms(2)])
  show ?thesis unfolding number_def n1 n2 n3 option.case prod.case l c using e by simp
qed

section \<open>Keys\<close>

lemma str_sound:
  assumes "str d p = Some (st, e, pl, q)" and "at d p CHR 0x22"
  shows "\<exists>b. drop p d = (CHR 0x22 # b @ [CHR 0x22]) @ drop q d \<and> q = p + length (CHR 0x22 # b @ [CHR 0x22]) \<and> str_body b
     \<and> st = p + 1 \<and> e = p + 1 + length b \<and> (pl \<longleftrightarrow> list_all plain_char b)"
proof -
  from assms(1) have "str_loop d (p + 1) True = Some (e, pl, q)" "st = p + 1" by (auto simp: str_def)
  with str_loop_sound [of d "p + 1" True e pl q] obtain b where
    "drop (p + 1) d = b @ CHR 0x22 # drop q d" "str_body b" "e = p + 1 + length b" "q = e + 1" "pl \<longleftrightarrow> list_all plain_char b"
    by auto
  then show ?thesis using assms(2) \<open>st = p + 1\<close> by (intro exI [of _ b]) (simp add: at_def drop_nth)
qed

lemma str_complete:
  assumes "drop p d = (CHR 0x22 # b @ [CHR 0x22]) @ t" and "str_body b"
  shows "\<exists>pl. str d p = Some (p + 1, p + 1 + length b, pl, p + length (CHR 0x22 # b @ [CHR 0x22]))"
proof -
  have "drop (p + 1) d = b @ CHR 0x22 # t" using assms(1) drop_ConsD [of p d] by simp
  from str_loop_complete [OF this assms(2), of True] show ?thesis by (auto simp: str_def)
qed

lemma quoted_split: "quoted k \<longleftrightarrow> k = CHR 0x22 # contents k @ [CHR 0x22]"
proof
  assume "quoted k"
  then obtain t where t: "k = CHR 0x22 # t" "t \<noteq> []" "last t = CHR 0x22"
    unfolding quoted_def by (cases k) (auto split: if_splits)
  then show "k = CHR 0x22 # contents k @ [CHR 0x22]"
    using append_butlast_last_id [of t] by (simp add: contents_def)
next
  assume a: "k = CHR 0x22 # contents k @ [CHR 0x22]"
  show "quoted k" by (subst a) (simp add: quoted_def)
qed

lemma Unmarshal_quoted [simp]:
  "Unmarshal_string (CHR 0x22 # b @ [CHR 0x22]) = (if str_body b then unquote_loop b else None)"
  by (simp add: Unmarshal_string_def quoted_def contents_def)

lemma Unmarshal_SomeD: "Unmarshal_string k = Some x \<Longrightarrow> \<exists>b. k = CHR 0x22 # b @ [CHR 0x22] \<and> str_body b"
  using quoted_split [of k] by (auto simp: Unmarshal_string_def split: if_splits)

lemma key_value:
  assumes d: "drop p d = (CHR 0x22 # b @ [CHR 0x22]) @ t" and b: "str_body b" and pl: "pl \<longleftrightarrow> list_all plain_char b"
  shows "\<exists>x name. (if pl then Some [] else decodeKey (cut d p (p + 1 + length b + 1))) = Some x
     \<and> Unmarshal_string (CHR 0x22 # b @ [CHR 0x22]) = Some name
     \<and> keyString d \<lparr>kr_start = p + 1, kr_end = p + 1 + length b, kr_decoded = x, kr_plain = pl\<rparr> = name"
proof -
  have c: "cut d p (p + 1 + length b + 1) = CHR 0x22 # b @ [CHR 0x22]" using d by (simp add: cut_def)
  have "drop (p + 1) d = b @ CHR 0x22 # t" using d drop_ConsD [of p d] by simp
  then have k: "cut d (p + 1) (p + 1 + length b) = b" by (rule cut_prefix)
  obtain x where x: "unquote_loop b = Some x" using str_body_unquote [OF b] by blast
  show ?thesis
  proof (cases pl)
    case True
    then show ?thesis using unquote_plain [OF b] pl b k by (simp add: keyString_def)
  next
    case False
    then show ?thesis using x b unfolding c decodeKey_def by (simp add: keyString_def)
  qed
qed

lemma scan_key_sound:
  assumes "scan_key d p = Some (key, q)"
  shows "\<exists>k. drop p d = k @ drop q d \<and> q = p + length k \<and> k \<noteq> [] \<and> Unmarshal_string k = Some (keyString d key)"
proof -
  obtain st e pl dec where s: "at d p CHR 0x22" "str d p = Some (st, e, pl, q)"
      "(if pl then Some [] else decodeKey (cut d p (e + 1))) = Some dec"
      "key = \<lparr>kr_start = st, kr_end = e, kr_decoded = dec, kr_plain = pl\<rparr>"
    using assms by (auto simp: scan_key_def split: if_splits option.splits)
  obtain b where b: "drop p d = (CHR 0x22 # b @ [CHR 0x22]) @ drop q d" "q = p + length (CHR 0x22 # b @ [CHR 0x22])"
      "str_body b" "st = p + 1" "e = p + 1 + length b" "pl \<longleftrightarrow> list_all plain_char b"
    using str_sound [OF s(2,1)] by blast
  obtain x where x: "(if pl then Some [] else decodeKey (cut d p (p + 1 + length b + 1))) = Some x"
      "Unmarshal_string (CHR 0x22 # b @ [CHR 0x22])
        = Some (keyString d \<lparr>kr_start = p + 1, kr_end = p + 1 + length b, kr_decoded = x, kr_plain = pl\<rparr>)"
    using key_value [OF b(1,3,6)] by blast
  have "x = dec" using x(1) s(3) unfolding b(5) by simp
  then have "Unmarshal_string (CHR 0x22 # b @ [CHR 0x22]) = Some (keyString d key)"
    using x(2) s(4) b(4,5) by simp
  with b(1,2) show ?thesis by blast
qed

lemma scan_key_complete:
  assumes "drop p d = k @ t" and "Unmarshal_string k = Some name"
  shows "\<exists>key. scan_key d p = Some (key, p + length k) \<and> keyString d key = name"
proof -
  obtain b where b: "k = CHR 0x22 # b @ [CHR 0x22]" "str_body b" using Unmarshal_SomeD [OF assms(2)] by blast
  note d = assms(1) [unfolded b(1)]
  have at: "at d p CHR 0x22" using d by (simp add: at_iff)
  obtain pl where s: "str d p = Some (p + 1, p + 1 + length b, pl, p + length k)"
    using str_complete [OF d b(2)] b(1) by auto
  have "pl \<longleftrightarrow> list_all plain_char b" using str_sound [OF s at] d b(1) by auto
  from key_value [OF d b(2) this] assms(2) show ?thesis
    unfolding scan_key_def using at s b(1) by auto
qed

definition key_inv :: "string \<Rightarrow> keyRef list \<Rightarrow> string set option \<Rightarrow> string set \<Rightarrow> bool" where
  "key_inv d keys seen K \<longleftrightarrow> (case seen of None \<Rightarrow> K = keyString d ` set keys | Some names \<Rightarrow> names = K)"

lemma sameKey_iff: "sameKey d a b \<longleftrightarrow> keyString d a = keyString d b"
  by (auto simp: sameKey_def keyString_def)

lemma add_key_spec:
  assumes "key_inv d keys seen K"
  shows "if keyString d key \<in> K then add_key d keys seen key = None
     else \<exists>keys' seen'. add_key d keys seen key = Some (keys', seen') \<and> key_inv d keys' seen' (insert (keyString d key) K)"
proof (cases seen)
  case None
  then show ?thesis using assms
    by (auto simp: key_inv_def add_key_def sameKey_iff list_ex_iff Let_def image_iff) metis
qed (use assms in \<open>auto simp: key_inv_def add_key_def\<close>)

section \<open>The scanner accepts only the grammar\<close>

text \<open>White space that is empty unless the scanner has recorded some.\<close>

definition WS :: "bool \<Rightarrow> string \<Rightarrow> bool" where "WS b a \<longleftrightarrow> ws a \<and> (a \<noteq> [] \<longrightarrow> b)"

lemma json_mono:
  "json_value W n w \<Longrightarrow> (\<And>a. W a \<Longrightarrow> W' a) \<Longrightarrow> json_value W' n w"
  "json_array W n vs w \<Longrightarrow> (\<And>a. W a \<Longrightarrow> W' a) \<Longrightarrow> json_array W' n vs w"
  "json_elems W n vs w \<Longrightarrow> (\<And>a. W a \<Longrightarrow> W' a) \<Longrightarrow> json_elems W' n vs w"
  "json_object W n fs w \<Longrightarrow> (\<And>a. W a \<Longrightarrow> W' a) \<Longrightarrow> json_object W' n fs w"
  "json_members W n K fs w \<Longrightarrow> (\<And>a. W a \<Longrightarrow> W' a) \<Longrightarrow> json_members W' n K fs w"
  by (induction rule: json_value_json_array_json_elems_json_object_json_members.inducts)
    (auto intro: json_value_json_array_json_elems_json_object_json_members.intros)

text \<open>\<open>reads d s w s'\<close>: from \<open>s\<close> to \<open>s'\<close> the scanner has read \<open>w\<close>.\<close>

definition reads :: "string \<Rightarrow> scanner \<Rightarrow> string \<Rightarrow> scanner \<Rightarrow> bool" where
  "reads d s w s' \<longleftrightarrow> drop (sc_pos s) d = w @ drop (sc_pos s') d \<and> sc_pos s' = sc_pos s + length w
     \<and> (sc_spaced s \<longrightarrow> sc_spaced s')"

lemma reads_trans: "reads d s v s1 \<Longrightarrow> reads d s1 w s2 \<Longrightarrow> reads d s (v @ w) s2"
  by (simp add: reads_def)

lemma reads_len: "reads d s w s' \<Longrightarrow> length (drop (sc_pos s) d) = length w + length (drop (sc_pos s') d)"
  unfolding reads_def by (metis length_append)

lemma reads_space:
  obtains a where "reads d s a (space d s)" "WS (sc_spaced (space d s)) a"
    "sc_depth (space d s) = sc_depth s" "sc_top (space d s) = sc_top s" "sc_elements (space d s) = sc_elements s"
proof -
  obtain a where a: "drop (sc_pos s) d = a @ drop (sc_pos (space d s)) d" "ws a"
      "space d s = s\<lparr>sc_pos := sc_pos s + length a, sc_spaced := sc_spaced s \<or> a \<noteq> []\<rparr>"
    by (rule space_spec)
  have f: "sc_pos (space d s) = sc_pos s + length a" "sc_spaced (space d s) = (sc_spaced s \<or> a \<noteq> [])"
    "sc_depth (space d s) = sc_depth s" "sc_top (space d s) = sc_top s" "sc_elements (space d s) = sc_elements s"
    unfolding a(3) by simp_all
  have "reads d s a (space d s)" unfolding reads_def using a(1) f(1,2) by blast
  moreover have "WS (sc_spaced (space d s)) a" using a(2) f(2) by (simp add: WS_def)
  ultimately show ?thesis using that f(3-5) by blast
qed

lemma reads_byte: "at d (sc_pos s) c \<Longrightarrow> reads d s [c] (s\<lparr>sc_pos := sc_pos s + 1\<rparr>)"
  by (auto simp: reads_def at_def drop_nth)

lemma reads_ignore [simp]:
  "reads d (s\<lparr>sc_depth := x\<rparr>) w s' = reads d s w s'" "reads d s w (s'\<lparr>sc_depth := x\<rparr>) = reads d s w s'"
  "reads d s w (s'\<lparr>sc_top := y\<rparr>) = reads d s w s'" "reads d (s\<lparr>sc_top := y\<rparr>) w s' = reads d s w s'"
  "reads d s w (s'\<lparr>sc_elements := z\<rparr>) = reads d s w s'" "reads d (s\<lparr>sc_elements := z\<rparr>) w s' = reads d s w s'"
  by (simp_all add: reads_def)

lemma WS_mono: "WS b a \<Longrightarrow> (b \<Longrightarrow> b') \<Longrightarrow> WS b' a"
  by (auto simp: WS_def)

lemma scalar_sound:
  assumes "scalar d p = Some q" and "p < length d"
  shows "\<exists>w. drop p d = w @ drop q d \<and> q = p + length w \<and> w \<noteq> [] \<and> json_value W n w"
proof -
  have lit: "\<exists>w. drop p d = w @ drop q d \<and> q = p + length w \<and> w \<noteq> [] \<and> json_value W n w"
    if "literal d word p = Some q" "word \<in> {''true'', ''false'', ''null''}" for word
  proof -
    have l: "cut d p (p + length word) = word" "q = p + length word"
      using that(1) by (auto simp: literal_def split: if_splits)
    then have "drop p d = word @ drop q d"
      using append_take_drop_id [of "length word" "drop p d"] by (simp add: cut_def add.commute)
    with l(2) that(2) show ?thesis by (intro exI [of _ word]) (auto intro: v_lit)
  qed
  note s = assms(1) [unfolded scalar_def Let_def]
  show ?thesis
  proof (cases "d ! p = CHR 0x22")
    case True
    then obtain st e pl where "str d p = Some (st, e, pl, q)" using s by auto
    then obtain b where "drop p d = (CHR 0x22 # b @ [CHR 0x22]) @ drop q d" "q = p + length (CHR 0x22 # b @ [CHR 0x22])" "str_body b"
      using str_sound [of d p st e pl q] True assms(2) by (auto simp: at_def)
    then show ?thesis by (intro exI [of _ "CHR 0x22 # b @ [CHR 0x22]"]) (auto intro!: v_str simp: str_text_def)
  next
    case False
    then consider word where "literal d word p = Some q" "word \<in> {''true'', ''false'', ''null''}" | "number d p = Some q"
      using s by (auto split: if_splits)
    then show ?thesis
    proof cases
      case 2
      then obtain w where w: "drop p d = w @ drop q d" "q = p + length w" "num_text w" using number_sound assms(2) by blast
      moreover have "w \<noteq> []" using w(3) whole_digits by (auto simp: num_text_def)
      ultimately show ?thesis by (intro exI [of _ w]) (auto intro: v_num)
    qed (use lit in blast)
  qed
qed

text \<open>What a call has done when it does not answer false. \<open>room\<close> is the nesting still allowed.\<close>

abbreviation left :: "string \<Rightarrow> scanner \<Rightarrow> nat" where "left d s \<equiv> length (drop (sc_pos s) d)"
abbreviation room :: "scanner \<Rightarrow> nat" where "room s \<equiv> MaxDepth - sc_depth s"

definition collect :: "bool \<Rightarrow> 'a list \<Rightarrow> 'a list option \<Rightarrow> 'a list option" where
  "collect b xs l = (if b then map_option (\<lambda>ys. ys @ xs) l else l)"

lemma collect_Nil [simp]: "collect b [] l = l"
  by (cases l) (simp_all add: collect_def)

lemma collect_collect: "collect b ys (collect b xs l) = collect b (xs @ ys) l"
  by (cases l) (simp_all add: collect_def)

definition value_ok :: "string \<Rightarrow> scanner \<Rightarrow> outcome \<Rightarrow> bool" where
  "value_ok d s res \<longleftrightarrow> res = Some None \<or> (\<exists>s' w vs fs. res = Some (Some s') \<and> reads d s w s' \<and> w \<noteq> []
     \<and> json_value (WS (sc_spaced s')) (room s) w \<and> sc_depth s' = sc_depth s
     \<and> (at d (sc_pos s) CHR ''['' \<longrightarrow> json_array (WS (sc_spaced s')) (room s) vs w)
     \<and> (at d (sc_pos s) CHR ''{'' \<longrightarrow> json_object (WS (sc_spaced s')) (room s) fs w)
     \<and> sc_elements s' = collect (sc_depth s = 0 \<and> at d (sc_pos s) CHR ''['') vs (sc_elements s)
     \<and> sc_top s' = collect (sc_depth s = 0 \<and> at d (sc_pos s) CHR ''{'') fs (sc_top s))"

definition elems_ok :: "string \<Rightarrow> scanner \<Rightarrow> outcome \<Rightarrow> bool" where
  "elems_ok d s res \<longleftrightarrow> res = Some None \<or> (\<exists>s' w vs. res = Some (Some s') \<and> reads d s w s'
     \<and> json_elems (WS (sc_spaced s')) (room s) vs w \<and> sc_depth s' = sc_depth s - 1
     \<and> sc_elements s' = collect (sc_depth s = 1) vs (sc_elements s) \<and> sc_top s' = sc_top s)"

definition members_ok :: "string \<Rightarrow> scanner \<Rightarrow> string set \<Rightarrow> outcome \<Rightarrow> bool" where
  "members_ok d s K res \<longleftrightarrow> res = Some None \<or> (\<exists>s' w fs. res = Some (Some s') \<and> reads d s w s'
     \<and> json_members (WS (sc_spaced s')) (room s) K fs w \<and> sc_depth s' = sc_depth s - 1
     \<and> sc_elements s' = sc_elements s \<and> sc_top s' = collect (sc_depth s = 1) fs (sc_top s))"

lemma value_okE:
  assumes "value_ok d s res" and "0 < sc_depth s"
  obtains "res = Some None" | s' w where "res = Some (Some s')" "reads d s w s'" "w \<noteq> []"
    "json_value (WS (sc_spaced s')) (room s) w" "sc_depth s' = sc_depth s" "sc_elements s' = sc_elements s" "sc_top s' = sc_top s"
  using assms by (auto simp: value_ok_def collect_def)

lemma elems_okI:
  "res = Some (Some s') \<Longrightarrow> reads d s w s' \<Longrightarrow> json_elems (WS (sc_spaced s')) (room s) vs w \<Longrightarrow>
     sc_depth s' = sc_depth s - 1 \<Longrightarrow> sc_elements s' = collect (sc_depth s = 1) vs (sc_elements s) \<Longrightarrow>
     sc_top s' = sc_top s \<Longrightarrow> elems_ok d s res"
  unfolding elems_ok_def by blast

lemma members_okI:
  "res = Some (Some s') \<Longrightarrow> reads d s w s' \<Longrightarrow> json_members (WS (sc_spaced s')) (room s) K fs w \<Longrightarrow>
     sc_depth s' = sc_depth s - 1 \<Longrightarrow> sc_elements s' = sc_elements s \<Longrightarrow>
     sc_top s' = collect (sc_depth s = 1) fs (sc_top s) \<Longrightarrow> members_ok d s K res"
  unfolding members_ok_def by blast

lemma cut_reads: "reads d s w s' \<Longrightarrow> cut d (sc_pos s) (sc_pos s') = w"
  by (simp add: reads_def cut_def)

lemma WS_json: "json_value (WS b) n w \<Longrightarrow> (b \<Longrightarrow> b') \<Longrightarrow> json_value (WS b') n w"
  by (erule json_mono) (rule WS_mono)

lemma reads_spaced: "reads d s w s' \<Longrightarrow> sc_spaced s \<Longrightarrow> sc_spaced s'"
  by (simp add: reads_def)

lemma array_loop_step:
  assumes V: "\<And>s. sc_depth s \<le> MaxDepth \<Longrightarrow> left d s \<le> m \<Longrightarrow> value_ok d s (rec (Value s))"
    and A: "\<And>s. 0 < sc_depth s \<Longrightarrow> sc_depth s \<le> MaxDepth \<Longrightarrow> left d s < m \<Longrightarrow> elems_ok d s (rec (ArrayLoop s (sc_depth s)))"
    and s: "0 < sc_depth s" "sc_depth s \<le> MaxDepth" "left d s \<le> m"
  shows "elems_ok d s (array_loop rec d s (sc_depth s))"
proof (rule value_okE [OF V [OF s(2,3)] s(1)])
  assume "rec (Value s) = Some None"
  then show ?thesis by (simp add: array_loop_def elems_ok_def)
next
  fix s1 v
  assume r: "rec (Value s) = Some (Some s1)" and v: "reads d s v s1" "v \<noteq> []" "json_value (WS (sc_spaced s1)) (room s) v"
    and st: "sc_depth s1 = sc_depth s" "sc_elements s1 = sc_elements s" "sc_top s1 = sc_top s"
  define s2 where "s2 = (if sc_depth s = 1
      then s1\<lparr>sc_elements := map_option (\<lambda>es. es @ [cut d (sc_pos s) (sc_pos s1)]) (sc_elements s1)\<rparr> else s1)"
  have s2: "sc_pos s2 = sc_pos s1" "sc_spaced s2 = sc_spaced s1" "sc_depth s2 = sc_depth s" "sc_top s2 = sc_top s"
    "sc_elements s2 = collect (sc_depth s = 1) [v] (sc_elements s)"
    by (simp_all add: s2_def st collect_def cut_reads [OF v(1)])
  have v2: "reads d s v s2" using v(1) by (simp add: reads_def s2)
  obtain a where a: "reads d s2 a (space d s2)" "WS (sc_spaced (space d s2)) a"
    "sc_depth (space d s2) = sc_depth s2" "sc_top (space d s2) = sc_top s2" "sc_elements (space d s2) = sc_elements s2"
    by (rule reads_space)
  let ?s3 = "space d s2"
  have jv: "json_value (WS b) (room s) v" if "sc_spaced ?s3 \<Longrightarrow> b" for b
    by (rule WS_json [OF v(3)]) (use that a(1) s2(2) in \<open>simp add: reads_def\<close>)
  have eq: "array_loop rec d s (sc_depth s) = (if at d (sc_pos ?s3) CHR '',''
      then rec (ArrayLoop (space d (?s3\<lparr>sc_pos := sc_pos ?s3 + 1\<rparr>)) (sc_depth s))
      else if at d (sc_pos ?s3) CHR '']'' then Some (Some (?s3\<lparr>sc_pos := sc_pos ?s3 + 1, sc_depth := sc_depth ?s3 - 1\<rparr>))
      else Some None)"
    unfolding array_loop_def r option.case Let_def s2_def ..
  consider (comma) "at d (sc_pos ?s3) CHR '',''" | (close) "\<not> at d (sc_pos ?s3) CHR '',''" "at d (sc_pos ?s3) CHR '']''"
    | (bad) "\<not> at d (sc_pos ?s3) CHR '',''" "\<not> at d (sc_pos ?s3) CHR '']''" by blast
  then show ?thesis
  proof cases
    case bad
    then show ?thesis by (simp add: eq elems_ok_def)
  next
    case close
    have rd: "reads d s (v @ a @ '']'') (?s3\<lparr>sc_pos := sc_pos ?s3 + 1\<rparr>)"
      by (rule reads_trans [OF v2 reads_trans [OF a(1) reads_byte [OF close(2)]]])
    have "json_elems (WS (sc_spaced ?s3)) (room s) [v] (v @ a @ '']'')"
      by (rule e_last [OF jv a(2)]) simp
    moreover have res: "array_loop rec d s (sc_depth s)
        = Some (Some (?s3\<lparr>sc_pos := sc_pos ?s3 + 1, sc_depth := sc_depth ?s3 - 1\<rparr>))"
      unfolding eq using close by simp
    ultimately show ?thesis using rd a(3-5) s2
      by (intro elems_okI [OF res, where w = "v @ a @ '']''" and vs = "[v]"]) simp_all
  next
    case comma
    let ?s4 = "?s3\<lparr>sc_pos := sc_pos ?s3 + 1\<rparr>"
    obtain b where b: "reads d ?s4 b (space d ?s4)" "WS (sc_spaced (space d ?s4)) b"
      "sc_depth (space d ?s4) = sc_depth ?s4" "sc_top (space d ?s4) = sc_top ?s4" "sc_elements (space d ?s4) = sc_elements ?s4"
      by (rule reads_space)
    let ?s5 = "space d ?s4"
    have rd: "reads d s (v @ a @ [CHR '',''] @ b) ?s5"
      by (rule reads_trans [OF v2 reads_trans [OF a(1) reads_trans [OF reads_byte [OF comma] b(1)]]])
    have d5: "sc_depth ?s5 = sc_depth s" using b(3) a(3) s2(3) by simp
    have "left d ?s5 < m" using reads_len [OF rd] s(3) by simp
    then have "elems_ok d ?s5 (rec (ArrayLoop ?s5 (sc_depth s)))" using A [of ?s5] s d5 by simp
    then consider (no) "rec (ArrayLoop ?s5 (sc_depth s)) = Some None"
      | (yes) s' w vs where "rec (ArrayLoop ?s5 (sc_depth s)) = Some (Some s')" "reads d ?s5 w s'"
        "json_elems (WS (sc_spaced s')) (room s) vs w" "sc_depth s' = sc_depth s - 1"
        "sc_elements s' = collect (sc_depth s = 1) vs (sc_elements ?s5)" "sc_top s' = sc_top ?s5"
      unfolding elems_ok_def d5 by blast
    then show ?thesis
    proof cases
      case no
      then show ?thesis using comma by (simp add: eq elems_ok_def)
    next
      case yes
      have sp: "sc_spaced ?s5 \<Longrightarrow> sc_spaced s'" "sc_spaced ?s3 \<Longrightarrow> sc_spaced s'"
        using yes(2) b(1) by (simp_all add: reads_def)
      have "json_elems (WS (sc_spaced s')) (room s) (v # vs) (v @ a @ CHR '','' # b @ w)"
        by (rule e_more [OF jv WS_mono [OF a(2)] WS_mono [OF b(2)] yes(3)]) (use sp in simp_all)
      moreover have "reads d s (v @ a @ CHR '','' # b @ w) s'" using reads_trans [OF rd yes(2)] by simp
      moreover have "sc_elements s' = collect (sc_depth s = 1) (v # vs) (sc_elements s)"
        using yes(5) b(5) a(5) s2(5) by (simp add: collect_collect)
      moreover have "array_loop rec d s (sc_depth s) = Some (Some s')" unfolding eq using comma yes(1) by simp
      moreover have "sc_top s' = sc_top s" using yes(6) b(4) a(4) s2(4) by simp
      ultimately show ?thesis using yes(4) elems_okI by blast
    qed
  qed
qed

text \<open>The head of a member: its key, the colon and the white space around it.\<close>

lemma member_head:
  assumes k: "scan_key d (sc_pos s) = Some (key, q)" and c: "at d (sc_pos (space d (s\<lparr>sc_pos := q\<rparr>))) CHR '':''"
  defines "s2 \<equiv> space d ((space d (s\<lparr>sc_pos := q\<rparr>))\<lparr>sc_pos := sc_pos (space d (s\<lparr>sc_pos := q\<rparr>)) + 1\<rparr>)"
  shows "\<exists>k a b. reads d s (k @ a @ CHR '':'' # b) s2 \<and> Unmarshal_string k = Some (keyString d key)
     \<and> WS (sc_spaced s2) a \<and> WS (sc_spaced s2) b
     \<and> sc_depth s2 = sc_depth s \<and> sc_top s2 = sc_top s \<and> sc_elements s2 = sc_elements s"
proof -
  let ?s0 = "s\<lparr>sc_pos := q\<rparr>"
  obtain k where kk: "drop (sc_pos s) d = k @ drop q d" "q = sc_pos s + length k" "Unmarshal_string k = Some (keyString d key)"
    using scan_key_sound [OF k] by blast
  then have r0: "reads d s k ?s0" by (simp add: reads_def)
  obtain a where a: "reads d ?s0 a (space d ?s0)" "WS (sc_spaced (space d ?s0)) a" "sc_depth (space d ?s0) = sc_depth ?s0"
    "sc_top (space d ?s0) = sc_top ?s0" "sc_elements (space d ?s0) = sc_elements ?s0" by (rule reads_space)
  let ?s1 = "(space d ?s0)\<lparr>sc_pos := sc_pos (space d ?s0) + 1\<rparr>"
  obtain b where b: "reads d ?s1 b s2" "WS (sc_spaced s2) b" "sc_depth s2 = sc_depth ?s1"
    "sc_top s2 = sc_top ?s1" "sc_elements s2 = sc_elements ?s1" unfolding s2_def by (rule reads_space)
  have "reads d s (k @ a @ [CHR '':''] @ b) s2"
    by (rule reads_trans [OF r0 reads_trans [OF a(1) reads_trans [OF reads_byte [OF c] b(1)]]])
  moreover have "WS (sc_spaced s2) a" using a(2) by (rule WS_mono) (use b(1) in \<open>simp add: reads_def\<close>)
  ultimately show ?thesis using kk(3) a(3-5) b(2-5) by (intro exI [of _ k] exI [of _ a] exI [of _ b]) simp
qed

lemma object_loop_step:
  assumes V: "\<And>s. sc_depth s \<le> MaxDepth \<Longrightarrow> left d s \<le> m \<Longrightarrow> value_ok d s (rec (Value s))"
    and O: "\<And>s keys seen K. 0 < sc_depth s \<Longrightarrow> sc_depth s \<le> MaxDepth \<Longrightarrow> left d s < m \<Longrightarrow> key_inv d keys seen K \<Longrightarrow>
        members_ok d s K (rec (ObjectLoop s (sc_depth s) keys seen))"
    and s: "0 < sc_depth s" "sc_depth s \<le> MaxDepth" "left d s \<le> m" and K: "key_inv d keys seen K"
  shows "members_ok d s K (object_loop rec d s (sc_depth s) keys seen)"
proof (cases "scan_key d (sc_pos s)")
  case None
  then show ?thesis by (simp add: object_loop_def members_ok_def)
next
  case (Some kq)
  obtain key q where k: "scan_key d (sc_pos s) = Some (key, q)" using Some by (cases kq) auto
  show ?thesis
  proof (cases "keyString d key \<in> K")
    case True
    then show ?thesis using add_key_spec [OF K, of key] k by (simp add: object_loop_def members_ok_def)
  next
    case new: False
    obtain keys' seen' where ak: "add_key d keys seen key = Some (keys', seen')"
      "key_inv d keys' seen' (insert (keyString d key) K)" using add_key_spec [OF K, of key] new by auto
    let ?s1 = "space d (s\<lparr>sc_pos := q\<rparr>)"
    let ?s2 = "space d (?s1\<lparr>sc_pos := sc_pos ?s1 + 1\<rparr>)"
    show ?thesis
    proof (cases "at d (sc_pos ?s1) CHR '':''")
      case False
      then show ?thesis by (simp add: object_loop_def members_ok_def k ak(1) Let_def)
    next
      case colon: True
      obtain kt a b where h: "reads d s (kt @ a @ CHR '':'' # b) ?s2" "Unmarshal_string kt = Some (keyString d key)"
          "WS (sc_spaced ?s2) a" "WS (sc_spaced ?s2) b" "sc_depth ?s2 = sc_depth s" "sc_top ?s2 = sc_top s"
          "sc_elements ?s2 = sc_elements s"
        using member_head [OF k colon] by blast
      have l2: "left d ?s2 \<le> m" using reads_len [OF h(1)] s(3) by simp
      have d2: "0 < sc_depth ?s2" "sc_depth ?s2 \<le> MaxDepth" using h(5) s by simp_all
      note unf = object_loop_def [of rec d s "sc_depth s" keys seen, unfolded k option.case prod.case ak(1) Let_def]
      show ?thesis
      proof (rule value_okE [OF V [OF d2(2) l2] d2(1)])
        assume "rec (Value ?s2) = Some None"
        then show ?thesis using colon by (simp add: unf members_ok_def)
      next
        fix s3 v
        assume r: "rec (Value ?s2) = Some (Some s3)" and v: "reads d ?s2 v s3" "v \<noteq> []"
            "json_value (WS (sc_spaced s3)) (room ?s2) v"
          and st: "sc_depth s3 = sc_depth ?s2" "sc_elements s3 = sc_elements ?s2" "sc_top s3 = sc_top ?s2"
        define fd where "fd = \<lparr>fd_Key = keyString d key, fd_Value = cut d (sc_pos ?s2) (sc_pos s3)\<rparr>"
        define s4 where "s4 = (if sc_depth s = 1 then s3\<lparr>sc_top := map_option (\<lambda>fs. fs @ [fd]) (sc_top s3)\<rparr> else s3)"
        have s4: "sc_pos s4 = sc_pos s3" "sc_spaced s4 = sc_spaced s3" "sc_depth s4 = sc_depth s"
          "sc_elements s4 = sc_elements s" "sc_top s4 = collect (sc_depth s = 1) [fd] (sc_top s)"
          using st [unfolded h(5-7)] by (simp_all add: s4_def collect_def)
        have fd: "fd = \<lparr>fd_Key = keyString d key, fd_Value = v\<rparr>" unfolding fd_def cut_reads [OF v(1)] ..
        have v4: "reads d ?s2 v s4" using v(1) by (simp add: reads_def s4)
        obtain c where c: "reads d s4 c (space d s4)" "WS (sc_spaced (space d s4)) c" "sc_depth (space d s4) = sc_depth s4"
          "sc_top (space d s4) = sc_top s4" "sc_elements (space d s4) = sc_elements s4" by (rule reads_space)
        let ?s5 = "space d s4"
        have eq: "object_loop rec d s (sc_depth s) keys seen = (if at d (sc_pos ?s5) CHR '',''
            then rec (ObjectLoop (space d (?s5\<lparr>sc_pos := sc_pos ?s5 + 1\<rparr>)) (sc_depth s) keys' seen')
            else if at d (sc_pos ?s5) CHR ''}'' then Some (Some (?s5\<lparr>sc_pos := sc_pos ?s5 + 1, sc_depth := sc_depth ?s5 - 1\<rparr>))
            else Some None)"
          unfolding unf r option.case s4_def fd_def using colon by simp
        have jv: "json_value (WS x) (room s) v" if "sc_spaced ?s5 \<Longrightarrow> x" for x
          using v(3) unfolding h(5) by (rule WS_json) (use that c(1) s4(2) in \<open>simp add: reads_def\<close>)
        have sp5: "sc_spaced ?s2 \<Longrightarrow> sc_spaced ?s5" using v4 c(1) by (simp add: reads_def)
        have pre: "reads d s ((kt @ a @ CHR '':'' # b) @ v @ c) ?s5"
          by (rule reads_trans [OF h(1) reads_trans [OF v4 c(1)]])
        consider (comma) "at d (sc_pos ?s5) CHR '',''" | (close) "\<not> at d (sc_pos ?s5) CHR '',''" "at d (sc_pos ?s5) CHR ''}''"
          | (bad) "\<not> at d (sc_pos ?s5) CHR '',''" "\<not> at d (sc_pos ?s5) CHR ''}''" by blast
        then show ?thesis
        proof cases
          case bad
          then show ?thesis by (simp add: eq members_ok_def)
        next
          case close
          have rd: "reads d s (kt @ a @ CHR '':'' # b @ v @ c @ ''}'') (?s5\<lparr>sc_pos := sc_pos ?s5 + 1\<rparr>)"
            using reads_trans [OF pre reads_byte [OF close(2)]] by simp
          have "json_members (WS (sc_spaced ?s5)) (room s) K [fd] (kt @ a @ CHR '':'' # b @ v @ c @ ''}'')"
            unfolding fd by (rule m_last [OF h(2) new WS_mono [OF h(3)] WS_mono [OF h(4)] jv c(2)]) (use sp5 in simp_all)
          moreover have res: "object_loop rec d s (sc_depth s) keys seen
              = Some (Some (?s5\<lparr>sc_pos := sc_pos ?s5 + 1, sc_depth := sc_depth ?s5 - 1\<rparr>))"
            unfolding eq using close by simp
          ultimately show ?thesis using rd c(3-5) s4
            by (intro members_okI [OF res, where w = "kt @ a @ CHR '':'' # b @ v @ c @ ''}''" and fs = "[fd]"]) simp_all
        next
          case comma
          let ?s6 = "?s5\<lparr>sc_pos := sc_pos ?s5 + 1\<rparr>"
          obtain e where e: "reads d ?s6 e (space d ?s6)" "WS (sc_spaced (space d ?s6)) e"
            "sc_depth (space d ?s6) = sc_depth ?s6" "sc_top (space d ?s6) = sc_top ?s6" "sc_elements (space d ?s6) = sc_elements ?s6"
            by (rule reads_space)
          let ?s7 = "space d ?s6"
          have rd: "reads d s (((kt @ a @ CHR '':'' # b) @ v @ c) @ [CHR '',''] @ e) ?s7"
            by (rule reads_trans [OF pre reads_trans [OF reads_byte [OF comma] e(1)]])
          have d7: "sc_depth ?s7 = sc_depth s" using e(3) c(3) s4(3) by simp
          have "left d ?s7 < m" using reads_len [OF rd] s(3) by simp
          then have "members_ok d ?s7 (insert (keyString d key) K) (rec (ObjectLoop ?s7 (sc_depth s) keys' seen'))"
            using O [of ?s7, OF _ _ _ ak(2)] s d7 by simp
          then consider (no) "rec (ObjectLoop ?s7 (sc_depth s) keys' seen') = Some None"
            | (yes) s' w fs where "rec (ObjectLoop ?s7 (sc_depth s) keys' seen') = Some (Some s')" "reads d ?s7 w s'"
              "json_members (WS (sc_spaced s')) (room s) (insert (keyString d key) K) fs w" "sc_depth s' = sc_depth s - 1"
              "sc_elements s' = sc_elements ?s7" "sc_top s' = collect (sc_depth s = 1) fs (sc_top ?s7)"
            unfolding members_ok_def d7 by blast
          then show ?thesis
          proof cases
            case no
            then show ?thesis using comma by (simp add: eq members_ok_def)
          next
            case yes
            have sp: "sc_spaced ?s7 \<Longrightarrow> sc_spaced s'" "sc_spaced ?s5 \<Longrightarrow> sc_spaced s'"
              using yes(2) e(1) by (simp_all add: reads_def)
            have "json_members (WS (sc_spaced s')) (room s) K (fd # fs) (kt @ a @ CHR '':'' # b @ v @ c @ CHR '','' # e @ w)"
              unfolding fd
              by (rule m_more [OF h(2) new WS_mono [OF h(3)] WS_mono [OF h(4)] jv WS_mono [OF c(2)] WS_mono [OF e(2)] yes(3)])
                (use sp sp5 in simp_all)
            moreover have "reads d s (kt @ a @ CHR '':'' # b @ v @ c @ CHR '','' # e @ w) s'"
              using reads_trans [OF rd yes(2)] by simp
            moreover have "sc_top s' = collect (sc_depth s = 1) (fd # fs) (sc_top s)"
              using yes(6) e(4) c(4) s4(5) by (simp add: collect_collect)
            moreover have "object_loop rec d s (sc_depth s) keys seen = Some (Some s')" unfolding eq using comma yes(1) by simp
            moreover have "sc_elements s' = sc_elements s" using yes(5) e(5) c(5) s4(4) by simp
            ultimately show ?thesis using yes(4) members_okI by blast
          qed
        qed
      qed
    qed
  qed
qed

lemma value_step:
  assumes A: "\<And>s. 0 < sc_depth s \<Longrightarrow> sc_depth s \<le> MaxDepth \<Longrightarrow> left d s < m \<Longrightarrow> elems_ok d s (rec (ArrayLoop s (sc_depth s)))"
    and O: "\<And>s. 0 < sc_depth s \<Longrightarrow> sc_depth s \<le> MaxDepth \<Longrightarrow> left d s < m \<Longrightarrow>
        members_ok d s {} (rec (ObjectLoop s (sc_depth s) [] None))"
    and s: "sc_depth s \<le> MaxDepth" "left d s \<le> m"
  shows "value_ok d s (value_s rec d s)"
proof (cases "sc_pos s < length d")
  case False
  then show ?thesis by (simp add: value_s_def value_ok_def)
next
  case lt: True
  let ?c = "d ! sc_pos s"
  define s0 where "s0 = s\<lparr>sc_pos := sc_pos s + 1, sc_depth := sc_depth s + 1\<rparr>"
  obtain a where a: "reads d s0 a (space d s0)" "WS (sc_spaced (space d s0)) a" "sc_depth (space d s0) = sc_depth s0"
    "sc_top (space d s0) = sc_top s0" "sc_elements (space d s0) = sc_elements s0" by (rule reads_space)
  let ?s1 = "space d s0"
  have r1: "reads d s (?c # a) ?s1"
    using reads_trans [OF reads_byte [of d s ?c], of a ?s1] a(1) lt by (simp add: at_def s0_def reads_def)
  have left1: "left d ?s1 < m" using reads_len [OF r1] s(2) by simp
  have d1: "sc_depth ?s1 = sc_depth s + 1" "sc_top ?s1 = sc_top s" "sc_elements ?s1 = sc_elements s"
    using a(3-5) by (simp_all add: s0_def)
  consider (obj) "?c = CHR ''{''" | (arr) "?c = CHR ''[''" | (scal) "?c \<noteq> CHR ''{''" "?c \<noteq> CHR ''[''" by blast
  then show ?thesis
  proof cases
    case scal
    have na: "\<not> at d (sc_pos s) CHR ''[''" "\<not> at d (sc_pos s) CHR ''{''" using scal by (simp_all add: at_def)
    show ?thesis
    proof (cases "scalar d (sc_pos s)")
      case None
      then show ?thesis using lt scal by (simp add: value_s_def value_ok_def)
    next
      case (Some q)
      obtain w where w: "drop (sc_pos s) d = w @ drop q d" "q = sc_pos s + length w" "w \<noteq> []" "json_value (WS (sc_spaced s)) (room s) w"
        using scalar_sound [OF Some lt] by blast
      then have "reads d s w (s\<lparr>sc_pos := q\<rparr>)" by (simp add: reads_def)
      with w(3,4) na Some lt scal show ?thesis
        by (auto simp: value_s_def value_ok_def collect_def intro!: exI [of _ w])
    qed
  next
    case arr
    have n: "at d (sc_pos s) CHR ''[''" "\<not> at d (sc_pos s) CHR ''{''" using arr lt by (simp_all add: at_def)
    have v: "value_s rec d s = (if sc_depth s + 1 > MaxDepth then Some None
        else if at d (sc_pos ?s1) CHR '']'' then Some (Some (?s1\<lparr>sc_pos := sc_pos ?s1 + 1, sc_depth := sc_depth s\<rparr>))
        else rec (ArrayLoop ?s1 (sc_depth s + 1)))"
      using lt arr by (simp add: value_s_def array_def Let_def s0_def)
    have ok: "value_ok d s (Some (Some s'))" if "reads d s (CHR ''['' # w) s'" "json_array (WS (sc_spaced s')) (room s) vs (CHR ''['' # w)"
      "sc_depth s' = sc_depth s" "sc_elements s' = collect (sc_depth s = 0) vs (sc_elements s)" "sc_top s' = sc_top s" for s' w vs
      unfolding value_ok_def using that n v_arr [OF that(2)]
      by (intro disjI2 exI [of _ s'] exI [of _ "CHR ''['' # w"] exI [of _ vs] exI [of _ "[]"]) (simp add: collect_def)
    show ?thesis
    proof (cases "sc_depth s + 1 > MaxDepth")
      case True
      then show ?thesis by (simp add: v value_ok_def)
    next
      case deep: False
      then have room: "room s = Suc (room ?s1)" by (simp add: d1)
      show ?thesis
      proof (cases "at d (sc_pos ?s1) CHR '']''")
        case True
        have "reads d s (CHR ''['' # a @ '']'') (?s1\<lparr>sc_pos := sc_pos ?s1 + 1\<rparr>)"
          using reads_trans [OF r1 reads_byte [OF True]] arr by simp
        then show ?thesis using v deep True room d1 a_nil [of "WS (sc_spaced ?s1)" a "room ?s1"] a(2)
          by (auto intro!: ok [where vs = "[]"])
      next
        case False
        have "elems_ok d ?s1 (rec (ArrayLoop ?s1 (sc_depth s + 1)))" using A [of ?s1] d1 deep left1 by simp
        then consider (no) "rec (ArrayLoop ?s1 (sc_depth s + 1)) = Some None"
          | (yes) s' w vs where "rec (ArrayLoop ?s1 (sc_depth s + 1)) = Some (Some s')" "reads d ?s1 w s'"
            "json_elems (WS (sc_spaced s')) (room ?s1) vs w" "sc_depth s' = sc_depth s"
            "sc_elements s' = collect (sc_depth s = 0) vs (sc_elements s)" "sc_top s' = sc_top s"
          unfolding elems_ok_def d1 by auto
        then show ?thesis
        proof cases
          case no
          then show ?thesis using v deep False by (simp add: value_ok_def)
        next
          case yes
          have "WS (sc_spaced s') a" using a(2) by (rule WS_mono) (use yes(2) in \<open>simp add: reads_def\<close>)
          then have "json_array (WS (sc_spaced s')) (room s) vs (CHR ''['' # a @ w)"
            unfolding room using yes(3) by (rule a_cons)
          moreover have "reads d s (CHR ''['' # a @ w) s'" using reads_trans [OF r1 yes(2)] arr by simp
          ultimately show ?thesis using ok [of "a @ w" s' vs] yes v deep False by simp
        qed
      qed
    qed
  next
    case obj
    have n: "at d (sc_pos s) CHR ''{''" "\<not> at d (sc_pos s) CHR ''[''" using obj lt by (simp_all add: at_def)
    have v: "value_s rec d s = (if sc_depth s + 1 > MaxDepth then Some None
        else if at d (sc_pos ?s1) CHR ''}'' then Some (Some (?s1\<lparr>sc_pos := sc_pos ?s1 + 1, sc_depth := sc_depth s\<rparr>))
        else rec (ObjectLoop ?s1 (sc_depth s + 1) [] None))"
      using lt obj by (simp add: value_s_def object_def Let_def s0_def)
    have ok: "value_ok d s (Some (Some s'))" if "reads d s (CHR ''{'' # w) s'" "json_object (WS (sc_spaced s')) (room s) fs (CHR ''{'' # w)"
      "sc_depth s' = sc_depth s" "sc_elements s' = sc_elements s" "sc_top s' = collect (sc_depth s = 0) fs (sc_top s)" for s' w fs
      unfolding value_ok_def using that n v_obj [OF that(2)]
      by (intro disjI2 exI [of _ s'] exI [of _ "CHR ''{'' # w"] exI [of _ "[]"] exI [of _ fs]) (simp add: collect_def)
    show ?thesis
    proof (cases "sc_depth s + 1 > MaxDepth")
      case True
      then show ?thesis by (simp add: v value_ok_def)
    next
      case deep: False
      then have room: "room s = Suc (room ?s1)" by (simp add: d1)
      show ?thesis
      proof (cases "at d (sc_pos ?s1) CHR ''}''")
        case True
        have "reads d s (CHR ''{'' # a @ ''}'') (?s1\<lparr>sc_pos := sc_pos ?s1 + 1\<rparr>)"
          using reads_trans [OF r1 reads_byte [OF True]] obj by simp
        then show ?thesis using v deep True room d1 o_nil [of "WS (sc_spaced ?s1)" a "room ?s1"] a(2)
          by (auto intro!: ok [where fs = "[]"])
      next
        case False
        have "members_ok d ?s1 {} (rec (ObjectLoop ?s1 (sc_depth s + 1) [] None))" using O [of ?s1] d1 deep left1 by simp
        then consider (no) "rec (ObjectLoop ?s1 (sc_depth s + 1) [] None) = Some None"
          | (yes) s' w fs where "rec (ObjectLoop ?s1 (sc_depth s + 1) [] None) = Some (Some s')" "reads d ?s1 w s'"
            "json_members (WS (sc_spaced s')) (room ?s1) {} fs w" "sc_depth s' = sc_depth s"
            "sc_elements s' = sc_elements s" "sc_top s' = collect (sc_depth s = 0) fs (sc_top s)"
          unfolding members_ok_def d1 by auto
        then show ?thesis
        proof cases
          case no
          then show ?thesis using v deep False by (simp add: value_ok_def)
        next
          case yes
          have "WS (sc_spaced s') a" using a(2) by (rule WS_mono) (use yes(2) in \<open>simp add: reads_def\<close>)
          then have "json_object (WS (sc_spaced s')) (room s) fs (CHR ''{'' # a @ w)"
            unfolding room using yes(3) by (rule o_cons)
          moreover have "reads d s (CHR ''{'' # a @ w) s'" using reads_trans [OF r1 yes(2)] obj by simp
          ultimately show ?thesis using ok [of "a @ w" s' fs] yes v deep False by simp
        qed
      qed
    qed
  qed
qed

text \<open>With two units of fuel per byte left, and one more, no call runs out of fuel.\<close>

lemma scan_ok:
  "(sc_depth s \<le> MaxDepth \<longrightarrow> 2 * left d s + 1 \<le> f \<longrightarrow> value_ok d s (scan f d (Value s)))
   \<and> (0 < sc_depth s \<longrightarrow> sc_depth s \<le> MaxDepth \<longrightarrow> 2 * left d s + 2 \<le> f \<longrightarrow> elems_ok d s (scan f d (ArrayLoop s (sc_depth s))))
   \<and> (0 < sc_depth s \<longrightarrow> sc_depth s \<le> MaxDepth \<longrightarrow> 2 * left d s + 2 \<le> f \<longrightarrow> key_inv d keys seen K \<longrightarrow>
       members_ok d s K (scan f d (ObjectLoop s (sc_depth s) keys seen)))"
proof (induction f arbitrary: s keys seen K)
  case 0
  then show ?case by simp
next
  case (Suc f)
  have e: "key_inv d [] None {}" by (simp add: key_inv_def)
  have "value_ok d s (value_s (scan f d) d s)" if "sc_depth s \<le> MaxDepth" "2 * left d s + 1 \<le> Suc f"
    using that Suc.IH e by (intro value_step [where m = "left d s"]) auto
  moreover have "elems_ok d s (array_loop (scan f d) d s (sc_depth s))"
    if "0 < sc_depth s" "sc_depth s \<le> MaxDepth" "2 * left d s + 2 \<le> Suc f"
    using that Suc.IH by (intro array_loop_step [where m = "left d s"]) auto
  moreover have "members_ok d s K (object_loop (scan f d) d s (sc_depth s) keys seen)"
    if "0 < sc_depth s" "sc_depth s \<le> MaxDepth" "2 * left d s + 2 \<le> Suc f" "key_inv d keys seen K"
    using that Suc.IH by (intro object_loop_step [where m = "left d s"]) auto
  ultimately show ?case by simp
qed

end
