(* ===== verification/Strictjson_Complete.thy ===== *)
theory Strictjson_Complete
  imports Strictjson_Grammar
begin

text \<open>
  The other half of the correctness of the scanner of \<^verbatim>\<open>src/strictjson/strictjson.go\<close>: every text of
  the grammar is accepted, by rule induction on its derivation, and the characterisation of
  \<^verbatim>\<open>Valid\<close>, \<^verbatim>\<open>Fields\<close>, \<^verbatim>\<open>Elements\<close>, \<^verbatim>\<open>Compact\<close> and \<^verbatim>\<open>CanonicalRaw\<close> that follows.
\<close>

section \<open>The scanner accepts all of the grammar\<close>

lemma json_first:
  "json_value W n w \<Longrightarrow> \<exists>c w'. w = c # w' \<and> \<not> is_ws c \<and> c \<noteq> CHR '']'' \<and> c \<noteq> CHR ''}''"
proof (induction rule: json_value.cases)
  case (v_num w n)
  then obtain sg wh r where w: "w = sg @ wh @ r" "sg \<in> {[], ''-''}" "whole_text wh" by (auto simp: num_text_def)
  then obtain c w' where "wh = c # w'" "is_digit c" using whole_digits [of wh] by (cases wh) auto
  moreover have "\<not> is_ws c" "c \<noteq> CHR '']''" "c \<noteq> CHR ''}''" if "is_digit c" for c
    using that by (auto simp: is_ws_def is_digit_def ord_def)
  ultimately show ?case using w by (auto simp: v_num is_ws_def)
next
  case (v_str w n)
  then show ?case by (auto simp: str_text_def is_ws_def)
next
  case (v_arr n vs w)
  then show ?case by (auto elim!: json_array.cases simp: is_ws_def)
next
  case (v_obj n fs w)
  then show ?case by (auto elim!: json_object.cases simp: is_ws_def)
qed (auto simp: is_ws_def)

lemma space_to:
  assumes "drop (sc_pos s) d = a @ c # t" and "ws a" and "\<not> is_ws c"
  shows "space d s = s\<lparr>sc_pos := sc_pos s + length a, sc_spaced := sc_spaced s \<or> a \<noteq> []\<rparr>"
    and "drop (sc_pos s + length a) d = c # t"
  using space_over [OF assms(1,2)] assms(3) drop_appendD [OF assms(1)] by simp_all

lemma delim_ws: "ws a \<Longrightarrow> c \<in> {CHR '','', CHR '']'', CHR ''}''} \<Longrightarrow> delim (a @ c # t)"
  by (cases a) (auto simp: ws_def is_ws_def delim_def is_digit_def ord_def)

lemma scalar_number:
  assumes "num_text w" and "drop p d = w @ t" and "delim t"
  shows "scalar d p = Some (p + length w) \<and> p < length d \<and> d ! p \<noteq> CHR ''{'' \<and> d ! p \<noteq> CHR ''[''"
proof -
  obtain sg wh r where w: "w = sg @ wh @ r" "sg \<in> {[], ''-''}" "whole_text wh" using assms(1) by (auto simp: num_text_def)
  obtain c w' where wh: "wh = c # w'" "is_digit c" using whole_digits [OF w(3)] by (cases wh) auto
  have "p < length d" "d ! p = CHR ''-'' \<or> is_digit (d ! p)"
    using w wh assms(2) drop_ConsD [of p d] by auto
  moreover have "x \<noteq> CHR 0x22" "x \<noteq> CHR ''t''" "x \<noteq> CHR ''f''" "x \<noteq> CHR ''n''" "x \<noteq> CHR ''{''" "x \<noteq> CHR ''[''"
    if "x = CHR ''-'' \<or> is_digit x" for x
    using that by (auto simp: is_digit_def ord_def)
  ultimately show ?thesis using number_complete [OF assms] by (simp add: scalar_def)
qed

lemma scalar_string:
  assumes "str_text w" and "drop p d = w @ t"
  shows "scalar d p = Some (p + length w) \<and> p < length d \<and> d ! p \<noteq> CHR ''{'' \<and> d ! p \<noteq> CHR ''[''"
proof -
  obtain b where b: "w = CHR 0x22 # b @ [CHR 0x22]" "str_body b" using assms(1) by (auto simp: str_text_def)
  have "p < length d" "d ! p = CHR 0x22" using assms(2) b(1) drop_ConsD [of p d] by auto
  then show ?thesis using str_complete [of p d b t] assms(2) b by (auto simp: scalar_def)
qed

lemma scalar_literal:
  assumes "w \<in> {''true'', ''false'', ''null''}" and "drop p d = w @ t"
  shows "scalar d p = Some (p + length w) \<and> p < length d \<and> d ! p \<noteq> CHR ''{'' \<and> d ! p \<noteq> CHR ''[''"
proof -
  have l: "length w \<le> length (drop p d)" using assms(2) by simp
  have c: "cut d p (p + length w) = w" by (rule cut_prefix [OF assms(2)])
  have "p < length d" "d ! p = hd w" using assms drop_ConsD [of p d] by auto
  moreover have "literal d w p = Some (p + length w)" using l c by (simp add: literal_def)
  ultimately show ?thesis using assms(1) by (auto simp: scalar_def)
qed

text \<open>\<open>lands W d s w s'\<close>: the scan from \<open>s\<close> has stopped in \<open>s'\<close> after exactly \<open>w\<close>, and has recorded no
  white space when the grammar allows none.\<close>

definition lands :: "(string \<Rightarrow> bool) \<Rightarrow> scanner \<Rightarrow> string \<Rightarrow> scanner \<Rightarrow> bool" where
  "lands W s w s' \<longleftrightarrow> sc_pos s' = sc_pos s + length w \<and> ((\<forall>a. W a \<longrightarrow> a = []) \<longrightarrow> sc_spaced s' = sc_spaced s)"

definition value_complete :: "(string \<Rightarrow> bool) \<Rightarrow> nat \<Rightarrow> string \<Rightarrow> bool" where
  "value_complete W n w \<longleftrightarrow> (\<forall>d s t f. drop (sc_pos s) d = w @ t \<longrightarrow> delim t \<longrightarrow> sc_depth s + n \<le> MaxDepth \<longrightarrow>
     2 * left d s + 1 \<le> f \<longrightarrow> (\<exists>s'. scan f d (Value s) = Some (Some s') \<and> lands W s w s'))"

definition array_complete :: "(string \<Rightarrow> bool) \<Rightarrow> nat \<Rightarrow> string list \<Rightarrow> string \<Rightarrow> bool" where
  "array_complete W n vs w \<longleftrightarrow> (\<forall>d s t f. drop (sc_pos s) d = w @ t \<longrightarrow> sc_depth s + n \<le> MaxDepth \<longrightarrow>
     2 * left d s + 1 \<le> f \<longrightarrow> (\<exists>s'. scan f d (Value s) = Some (Some s') \<and> lands W s w s'
        \<and> sc_elements s' = collect (sc_depth s = 0) vs (sc_elements s)))"

definition elems_complete :: "(string \<Rightarrow> bool) \<Rightarrow> nat \<Rightarrow> string list \<Rightarrow> string \<Rightarrow> bool" where
  "elems_complete W n vs w \<longleftrightarrow> (\<exists>c w'. w = c # w' \<and> \<not> is_ws c \<and> c \<noteq> CHR '']'') \<and>
    (\<forall>d s t f. drop (sc_pos s) d = w @ t \<longrightarrow> 0 < sc_depth s \<longrightarrow> sc_depth s + n \<le> MaxDepth \<longrightarrow>
     2 * left d s + 2 \<le> f \<longrightarrow> (\<exists>s'. scan f d (ArrayLoop s (sc_depth s)) = Some (Some s') \<and> lands W s w s'
        \<and> sc_elements s' = collect (sc_depth s = 1) vs (sc_elements s)))"

definition object_complete :: "(string \<Rightarrow> bool) \<Rightarrow> nat \<Rightarrow> Field list \<Rightarrow> string \<Rightarrow> bool" where
  "object_complete W n fs w \<longleftrightarrow> (\<forall>d s t f. drop (sc_pos s) d = w @ t \<longrightarrow> sc_depth s + n \<le> MaxDepth \<longrightarrow>
     2 * left d s + 1 \<le> f \<longrightarrow> (\<exists>s'. scan f d (Value s) = Some (Some s') \<and> lands W s w s'
        \<and> sc_top s' = collect (sc_depth s = 0) fs (sc_top s)))"

definition members_complete :: "(string \<Rightarrow> bool) \<Rightarrow> nat \<Rightarrow> string set \<Rightarrow> Field list \<Rightarrow> string \<Rightarrow> bool" where
  "members_complete W n K fs w \<longleftrightarrow> (\<exists>c w'. w = c # w' \<and> \<not> is_ws c \<and> c \<noteq> CHR ''}'') \<and>
    (\<forall>d s t f keys seen. drop (sc_pos s) d = w @ t \<longrightarrow> 0 < sc_depth s \<longrightarrow> sc_depth s + n \<le> MaxDepth \<longrightarrow>
     2 * left d s + 2 \<le> f \<longrightarrow> key_inv d keys seen K \<longrightarrow>
     (\<exists>s'. scan f d (ObjectLoop s (sc_depth s) keys seen) = Some (Some s') \<and> lands W s w s'
        \<and> sc_top s' = collect (sc_depth s = 1) fs (sc_top s)))"

text \<open>A value below the top level, with what it leaves alone.\<close>

lemma inner_value:
  assumes "value_complete W n v" and "drop (sc_pos s) d = v @ t" and "delim t" and "0 < sc_depth s"
    and "sc_depth s + n \<le> MaxDepth" and "2 * left d s + 1 \<le> f"
  obtains s' where "scan f d (Value s) = Some (Some s')" "lands W s v s'" "sc_depth s' = sc_depth s"
    "sc_elements s' = sc_elements s" "sc_top s' = sc_top s" "drop (sc_pos s') d = t" "cut d (sc_pos s) (sc_pos s') = v"
proof -
  obtain s' where s': "scan f d (Value s) = Some (Some s')" "lands W s v s'"
    using assms unfolding value_complete_def by blast
  have "value_ok d s (scan f d (Value s))" using scan_ok [of s d f] assms(5,6) by simp
  then have "sc_depth s' = sc_depth s" "sc_elements s' = sc_elements s" "sc_top s' = sc_top s"
    using s'(1) assms(4) by (auto elim!: value_okE)
  moreover have "drop (sc_pos s') d = t" "cut d (sc_pos s) (sc_pos s') = v"
    using s'(2) drop_appendD [OF assms(2)] cut_prefix [OF assms(2)] by (simp_all add: lands_def)
  ultimately show ?thesis using that s' by blast
qed

lemma elems_last_complete:
  assumes v: "json_value W n v" "value_complete W n v" and a: "W a" and W: "\<And>a. W a \<Longrightarrow> ws a"
  shows "elems_complete W n [v] (v @ a @ '']'')"
proof -
  have "\<exists>s'. scan f d (ArrayLoop s (sc_depth s)) = Some (Some s') \<and> lands W s (v @ a @ '']'') s'
        \<and> sc_elements s' = collect (sc_depth s = 1) [v] (sc_elements s)"
    if h: "drop (sc_pos s) d = (v @ a @ '']'') @ t" "0 < sc_depth s" "sc_depth s + n \<le> MaxDepth" "2 * left d s + 2 \<le> f" for d s t f
  proof -
    obtain f' where f: "f = Suc f'" "2 * left d s + 1 \<le> f'" using h(4) by (cases f) auto
    have d1: "drop (sc_pos s) d = v @ a @ CHR '']'' # t" using h(1) by simp
    obtain s1 where s1: "scan f' d (Value s) = Some (Some s1)" "lands W s v s1" "sc_depth s1 = sc_depth s"
      "sc_elements s1 = sc_elements s" "drop (sc_pos s1) d = a @ CHR '']'' # t" "cut d (sc_pos s) (sc_pos s1) = v"
      by (rule inner_value [OF v(2) d1 delim_ws [OF W [OF a]] h(2,3) f(2)]) auto
    define s2 where "s2 = (if sc_depth s = 1
        then s1\<lparr>sc_elements := map_option (\<lambda>es. es @ [cut d (sc_pos s) (sc_pos s1)]) (sc_elements s1)\<rparr> else s1)"
    have s2: "sc_pos s2 = sc_pos s1" "sc_spaced s2 = sc_spaced s1" "sc_elements s2 = collect (sc_depth s = 1) [v] (sc_elements s)"
      by (simp_all add: s2_def s1 collect_def)
    have d2: "drop (sc_pos s2) d = a @ CHR '']'' # t" using s1(5) s2(1) by simp
    have nw: "\<not> is_ws CHR '']''" by (simp add: is_ws_def)
    note sp = space_to [OF d2 W [OF a] nw]
    have at: "at d (sc_pos s2 + length a) CHR '']''" "\<not> at d (sc_pos s2 + length a) CHR '',''"
      using sp(2) by (simp_all add: at_iff)
    have "scan f d (ArrayLoop s (sc_depth s)) = Some (Some (s2\<lparr>sc_pos := sc_pos s2 + length a + 1,
        sc_spaced := sc_spaced s2 \<or> a \<noteq> [], sc_depth := sc_depth s2 - 1\<rparr>))"
      unfolding f(1) scan.simps call.case array_loop_def s1(1) option.case Let_def s2_def [symmetric] sp(1)
      using at by simp
    moreover have "lands W s (v @ a @ '']'') (s2\<lparr>sc_pos := sc_pos s2 + length a + 1,
        sc_spaced := sc_spaced s2 \<or> a \<noteq> [], sc_depth := sc_depth s2 - 1\<rparr>)"
      using s1(2) s2 a by (auto simp: lands_def)
    ultimately show ?thesis using s2(3) by simp
  qed
  moreover have "\<exists>c w'. v @ a @ '']'' = c # w' \<and> \<not> is_ws c \<and> c \<noteq> CHR '']''" using json_first [OF v(1)] by auto
  ultimately show ?thesis unfolding elems_complete_def by blast
qed

lemma elems_more_complete:
  assumes v: "json_value W n v" "value_complete W n v" and a: "W a" and b: "W b" and W: "\<And>a. W a \<Longrightarrow> ws a"
    and es: "elems_complete W n vs w"
  shows "elems_complete W n (v # vs) (v @ a @ CHR '','' # b @ w)"
proof -
  obtain c w' where w: "w = c # w'" "\<not> is_ws c" using es by (auto simp: elems_complete_def)
  have "\<exists>s'. scan f d (ArrayLoop s (sc_depth s)) = Some (Some s') \<and> lands W s (v @ a @ CHR '','' # b @ w) s'
        \<and> sc_elements s' = collect (sc_depth s = 1) (v # vs) (sc_elements s)"
    if h: "drop (sc_pos s) d = (v @ a @ CHR '','' # b @ w) @ t" "0 < sc_depth s" "sc_depth s + n \<le> MaxDepth"
      "2 * left d s + 2 \<le> f" for d s t f
  proof -
    obtain f' where f: "f = Suc f'" "2 * left d s + 1 \<le> f'" using h(4) by (cases f) auto
    have d1: "drop (sc_pos s) d = v @ a @ CHR '','' # b @ w @ t" using h(1) by simp
    obtain s1 where s1: "scan f' d (Value s) = Some (Some s1)" "lands W s v s1" "sc_depth s1 = sc_depth s"
      "sc_elements s1 = sc_elements s" "drop (sc_pos s1) d = a @ CHR '','' # b @ w @ t" "cut d (sc_pos s) (sc_pos s1) = v"
      by (rule inner_value [OF v(2) d1 delim_ws [OF W [OF a]] h(2,3) f(2)]) auto
    define s2 where "s2 = (if sc_depth s = 1
        then s1\<lparr>sc_elements := map_option (\<lambda>es. es @ [cut d (sc_pos s) (sc_pos s1)]) (sc_elements s1)\<rparr> else s1)"
    have s2: "sc_pos s2 = sc_pos s1" "sc_spaced s2 = sc_spaced s1" "sc_depth s2 = sc_depth s"
      "sc_elements s2 = collect (sc_depth s = 1) [v] (sc_elements s)"
      by (simp_all add: s2_def s1 collect_def)
    have d2: "drop (sc_pos s2) d = a @ CHR '','' # b @ w @ t" using s1(5) s2(1) by simp
    have nw: "\<not> is_ws CHR '',''" by (simp add: is_ws_def)
    note sp = space_to [OF d2 W [OF a] nw]
    have at: "at d (sc_pos s2 + length a) CHR '',''" using sp(2) by (simp add: at_iff)
    define s4 where "s4 = s2\<lparr>sc_pos := sc_pos s2 + length a, sc_spaced := sc_spaced s2 \<or> a \<noteq> [],
        sc_pos := sc_pos s2 + length a + 1\<rparr>"
    have d4: "drop (sc_pos s4) d = b @ c # w' @ t" using sp(2) drop_ConsD [of "sc_pos s2 + length a" d] by (simp add: s4_def w)
    note sp4 = space_to [OF d4 W [OF b] w(2)]
    let ?s5 = "space d s4"
    have s5: "sc_pos ?s5 = sc_pos s + length (v @ a @ CHR '','' # b)" "sc_depth ?s5 = sc_depth s"
      "sc_elements ?s5 = collect (sc_depth s = 1) [v] (sc_elements s)" "sc_spaced ?s5 = (sc_spaced s1 \<or> a \<noteq> [] \<or> b \<noteq> [])"
      using s1(2) s2 unfolding sp4(1) by (auto simp: s4_def lands_def)
    have d5: "drop (sc_pos ?s5) d = w @ t" using sp4 by (simp add: w)
    have "left d ?s5 < left d s" unfolding d5 h(1) by simp
    then have f5: "2 * left d ?s5 + 2 \<le> f'" using f(2) by simp
    obtain s' where s': "scan f' d (ArrayLoop ?s5 (sc_depth s)) = Some (Some s')" "lands W ?s5 w s'"
        "sc_elements s' = collect (sc_depth s = 1) vs (sc_elements ?s5)"
      using es d5 f5 h(2,3) s5(2) unfolding elems_complete_def by metis
    have "scan f d (ArrayLoop s (sc_depth s)) = Some (Some s')"
      unfolding f(1) scan.simps call.case array_loop_def s1(1) option.case Let_def s2_def [symmetric] sp(1)
      using at s'(1) by (simp add: s4_def)
    moreover have "lands W s (v @ a @ CHR '','' # b @ w) s'"
      using s1(2) s'(2) s5(1,4) a b by (auto simp: lands_def)
    ultimately show ?thesis using s'(3) s5(3) by (simp add: collect_collect)
  qed
  moreover have "\<exists>c w'. v @ a @ CHR '','' # b @ w = c # w' \<and> \<not> is_ws c \<and> c \<noteq> CHR '']''" using json_first [OF v(1)] by auto
  ultimately show ?thesis unfolding elems_complete_def by blast
qed

text \<open>Opening a container.\<close>

lemma open_container:
  assumes d: "drop (sc_pos s) d = br # a @ c # t" and a: "ws a" "\<not> is_ws c"
  defines "s1 \<equiv> space d (s\<lparr>sc_pos := sc_pos s + 1, sc_depth := sc_depth s + 1\<rparr>)"
  shows "sc_pos s < length d" "d ! sc_pos s = br" "drop (sc_pos s1) d = c # t" "sc_depth s1 = sc_depth s + 1"
    "sc_pos s1 = sc_pos s + 1 + length a" "sc_elements s1 = sc_elements s" "sc_top s1 = sc_top s"
    "sc_spaced s1 = (sc_spaced s \<or> a \<noteq> [])"
proof -
  note o = drop_ConsD [OF d]
  then show "sc_pos s < length d" "d ! sc_pos s = br" by simp_all
  let ?s0 = "s\<lparr>sc_pos := sc_pos s + 1, sc_depth := sc_depth s + 1\<rparr>"
  have d0: "drop (sc_pos ?s0) d = a @ c # t" using o by simp
  note sp = space_to [OF d0 a]
  show "drop (sc_pos s1) d = c # t" "sc_depth s1 = sc_depth s + 1" "sc_pos s1 = sc_pos s + 1 + length a"
    "sc_elements s1 = sc_elements s" "sc_top s1 = sc_top s" "sc_spaced s1 = (sc_spaced s \<or> a \<noteq> [])"
    unfolding s1_def sp(1) using sp(2) by simp_all
qed

lemma array_nil_complete:
  assumes a: "W a" and W: "\<And>a. W a \<Longrightarrow> ws a"
  shows "array_complete W (Suc n) [] (CHR ''['' # a @ '']'')"
  unfolding array_complete_def
proof (intro allI impI)
  fix d s t f
  assume d: "drop (sc_pos s) d = (CHR ''['' # a @ '']'') @ t" and n: "sc_depth s + Suc n \<le> MaxDepth"
    and f: "2 * left d s + 1 \<le> f"
  obtain f' where f': "f = Suc f'" using f by (cases f) auto
  have d1: "drop (sc_pos s) d = CHR ''['' # a @ CHR '']'' # t" using d by simp
  have nw: "\<not> is_ws CHR '']''" by (simp add: is_ws_def)
  let ?s1 = "space d (s\<lparr>sc_pos := sc_pos s + 1, sc_depth := sc_depth s + 1\<rparr>)"
  note o = open_container [OF d1 W [OF a] nw]
  have at: "at d (sc_pos ?s1) CHR '']''" using o(3) by (simp add: at_iff)
  have "scan f d (Value s) = Some (Some (?s1\<lparr>sc_pos := sc_pos ?s1 + 1, sc_depth := sc_depth s\<rparr>))"
    unfolding f' scan.simps call.case value_s_def array_def Let_def using o(1,2) n at by simp
  moreover have "lands W s (CHR ''['' # a @ '']'') (?s1\<lparr>sc_pos := sc_pos ?s1 + 1, sc_depth := sc_depth s\<rparr>)"
    unfolding lands_def using o(5,8) a by auto
  ultimately show "\<exists>s'. scan f d (Value s) = Some (Some s') \<and> lands W s (CHR ''['' # a @ '']'') s' \<and>
      sc_elements s' = collect (sc_depth s = 0) [] (sc_elements s)" using o(6) by simp
qed

lemma array_cons_complete:
  assumes a: "W a" and W: "\<And>a. W a \<Longrightarrow> ws a" and es: "elems_complete W n vs w"
  shows "array_complete W (Suc n) vs (CHR ''['' # a @ w)"
  unfolding array_complete_def
proof (intro allI impI)
  fix d s t f
  assume d: "drop (sc_pos s) d = (CHR ''['' # a @ w) @ t" and n: "sc_depth s + Suc n \<le> MaxDepth"
    and f: "2 * left d s + 1 \<le> f"
  obtain c w' where w: "w = c # w'" "\<not> is_ws c" "c \<noteq> CHR '']''" using es by (auto simp: elems_complete_def)
  obtain f' where f': "f = Suc f'" "2 * left d s \<le> f'" using f by (cases f) auto
  have d1: "drop (sc_pos s) d = CHR ''['' # a @ c # w' @ t" using d w(1) by simp
  let ?s1 = "space d (s\<lparr>sc_pos := sc_pos s + 1, sc_depth := sc_depth s + 1\<rparr>)"
  note o = open_container [OF d1 W [OF a] w(2)]
  have at: "\<not> at d (sc_pos ?s1) CHR '']''" using o(3) w(3) by (simp add: at_iff)
  have ds: "drop (sc_pos ?s1) d = w @ t" using o(3) w(1) by simp
  have "left d ?s1 < left d s" unfolding ds d by simp
  then have "2 * left d ?s1 + 2 \<le> f'" using f'(2) by simp
  then obtain s' where s': "scan f' d (ArrayLoop ?s1 (sc_depth s + 1)) = Some (Some s')" "lands W ?s1 w s'"
      "sc_elements s' = collect (sc_depth s + 1 = 1) vs (sc_elements ?s1)"
    using es ds n o(4) unfolding elems_complete_def by (metis add_Suc_right add_Suc_shift Suc_eq_plus1 zero_less_Suc)
  have "scan f d (Value s) = Some (Some s')"
    unfolding f'(1) scan.simps call.case value_s_def array_def Let_def using o(1,2) n at s'(1) by simp
  moreover have "lands W s (CHR ''['' # a @ w) s'"
    using s'(2) unfolding lands_def using o(5,8) a by auto
  ultimately show "\<exists>s'. scan f d (Value s) = Some (Some s') \<and> lands W s (CHR ''['' # a @ w) s' \<and>
      sc_elements s' = collect (sc_depth s = 0) vs (sc_elements s)" using o(6) s'(3) by simp
qed

lemma member_complete:
  assumes v: "json_value W n v" "value_complete W n v" and k: "Unmarshal_string k = Some name" "name \<notin> K"
    and ws: "W a" "W b" "W c" "\<And>a. W a \<Longrightarrow> ws a" and K: "key_inv d keys seen K"
    and d: "drop (sc_pos s) d = k @ a @ CHR '':'' # b @ v @ c @ x # t" and x: "x \<in> {CHR '','', CHR ''}''}"
    and n: "0 < sc_depth s" "sc_depth s + n \<le> MaxDepth" and f: "2 * left d s + 1 \<le> f"
  obtains s5 keys' seen' where "key_inv d keys' seen' (insert name K)" "drop (sc_pos s5) d = x # t"
    "lands W s (k @ a @ CHR '':'' # b @ v @ c) s5" "sc_depth s5 = sc_depth s"
    "sc_top s5 = collect (sc_depth s = 1) [\<lparr>fd_Key = name, fd_Value = v\<rparr>] (sc_top s)"
    "scan (Suc f) d (ObjectLoop s (sc_depth s) keys seen) = (if at d (sc_pos s5) CHR '',''
       then scan f d (ObjectLoop (space d (s5\<lparr>sc_pos := sc_pos s5 + 1\<rparr>)) (sc_depth s) keys' seen')
       else if at d (sc_pos s5) CHR ''}'' then Some (Some (s5\<lparr>sc_pos := sc_pos s5 + 1, sc_depth := sc_depth s5 - 1\<rparr>))
       else Some None)"
proof -
  obtain key where key: "scan_key d (sc_pos s) = Some (key, sc_pos s + length k)" "keyString d key = name"
    using scan_key_complete [OF d k(1)] by blast
  obtain keys' seen' where ak: "add_key d keys seen key = Some (keys', seen')" "key_inv d keys' seen' (insert name K)"
    using add_key_spec [OF K, of key] key(2) k(2) by auto
  define s0 where "s0 = s\<lparr>sc_pos := sc_pos s + length k\<rparr>"
  have d0: "drop (sc_pos s0) d = a @ CHR '':'' # b @ v @ c @ x # t" using drop_appendD [OF d] by (simp add: s0_def)
  have nc: "\<not> is_ws CHR '':''" by (simp add: is_ws_def)
  note sp0 = space_to [OF d0 ws(4) [OF ws(1)] nc]
  define s1 where "s1 = space d s0"
  have s1: "sc_pos s1 = sc_pos s + length k + length a" "sc_depth s1 = sc_depth s" "sc_top s1 = sc_top s"
    "sc_spaced s1 = (sc_spaced s \<or> a \<noteq> [])" "drop (sc_pos s1) d = CHR '':'' # b @ v @ c @ x # t"
    unfolding s1_def sp0(1) using sp0(2) by (simp_all add: s0_def)
  have colon: "at d (sc_pos s1) CHR '':''" using s1(5) by (simp add: at_iff)
  define s1' where "s1' = s1\<lparr>sc_pos := sc_pos s1 + 1\<rparr>"
  obtain vc v' where vc: "v = vc # v'" "\<not> is_ws vc" using json_first [OF v(1)] by blast
  have d1: "drop (sc_pos s1') d = b @ vc # v' @ c @ x # t" using drop_ConsD [OF s1(5)] by (simp add: s1'_def vc)
  note sp1 = space_to [OF d1 ws(4) [OF ws(2)] vc(2)]
  define s2 where "s2 = space d s1'"
  have s2: "sc_pos s2 = sc_pos s + length (k @ a @ CHR '':'' # b)" "sc_depth s2 = sc_depth s" "sc_top s2 = sc_top s"
    "sc_spaced s2 = (sc_spaced s \<or> a \<noteq> [] \<or> b \<noteq> [])" "drop (sc_pos s2) d = v @ c @ x # t"
    unfolding s2_def sp1(1) using sp1(2) s1 by (auto simp: s1'_def vc)
  have dl: "delim (c @ x # t)" using x by (intro delim_ws [OF ws(4) [OF ws(3)]]) auto
  have l2: "2 * left d s2 + 1 \<le> f" using f unfolding s2(5) d by simp
  obtain s3 where s3: "scan f d (Value s2) = Some (Some s3)" "lands W s2 v s3" "sc_depth s3 = sc_depth s2"
      "sc_top s3 = sc_top s2" "drop (sc_pos s3) d = c @ x # t" "cut d (sc_pos s2) (sc_pos s3) = v"
    using inner_value [OF v(2) s2(5) dl _ _ l2] n s2(2) by (metis (no_types, lifting))
  define s4 where "s4 = (if sc_depth s = 1 then s3\<lparr>sc_top := map_option (\<lambda>fs. fs @
      [\<lparr>fd_Key = keyString d key, fd_Value = cut d (sc_pos s2) (sc_pos s3)\<rparr>]) (sc_top s3)\<rparr> else s3)"
  have s4: "sc_pos s4 = sc_pos s3" "sc_spaced s4 = sc_spaced s3" "sc_depth s4 = sc_depth s"
    "sc_top s4 = collect (sc_depth s = 1) [\<lparr>fd_Key = name, fd_Value = v\<rparr>] (sc_top s)"
    using s3(3,4,6) s2(2,3) key(2) by (simp_all add: s4_def collect_def)
  have d4: "drop (sc_pos s4) d = c @ x # t" using s3(5) s4(1) by simp
  have nx: "\<not> is_ws x" using x by (auto simp: is_ws_def)
  note sp4 = space_to [OF d4 ws(4) [OF ws(3)] nx]
  define s5 where "s5 = space d s4"
  have s5: "sc_pos s5 = sc_pos s3 + length c" "sc_depth s5 = sc_depth s" "sc_top s5 = sc_top s4"
    "sc_spaced s5 = (sc_spaced s3 \<or> c \<noteq> [])" "drop (sc_pos s5) d = x # t"
    unfolding s5_def sp4(1) using sp4(2) s4 by simp_all
  have "lands W s (k @ a @ CHR '':'' # b @ v @ c) s5"
    using s3(2) s2(1,4) s5(1,4) ws(1-3) by (auto simp: lands_def)
  moreover have "scan (Suc f) d (ObjectLoop s (sc_depth s) keys seen) = (if at d (sc_pos s5) CHR '',''
       then scan f d (ObjectLoop (space d (s5\<lparr>sc_pos := sc_pos s5 + 1\<rparr>)) (sc_depth s) keys' seen')
       else if at d (sc_pos s5) CHR ''}'' then Some (Some (s5\<lparr>sc_pos := sc_pos s5 + 1, sc_depth := sc_depth s5 - 1\<rparr>))
       else Some None)"
    unfolding scan.simps call.case object_loop_def key(1) option.case prod.case ak(1) Let_def
      s0_def [symmetric] s1_def [symmetric] s1'_def [symmetric] s2_def [symmetric] s3(1) s4_def [symmetric] s5_def [symmetric]
    using colon by simp
  ultimately show ?thesis using that ak(2) s5(5,2) s5(3) s4(4) by metis
qed

lemma quoted_first: "Unmarshal_string k = Some name \<Longrightarrow> \<exists>k'. k = CHR 0x22 # k'"
  using Unmarshal_SomeD by blast

lemma members_last_complete:
  assumes v: "json_value W n v" "value_complete W n v" and k: "Unmarshal_string k = Some name" "name \<notin> K"
    and ws: "W a" "W b" "W c" "\<And>a. W a \<Longrightarrow> ws a"
  shows "members_complete W n K [\<lparr>fd_Key = name, fd_Value = v\<rparr>] (k @ a @ CHR '':'' # b @ v @ c @ ''}'')"
proof -
  have "\<exists>s'. scan f d (ObjectLoop s (sc_depth s) keys seen) = Some (Some s')
      \<and> lands W s (k @ a @ CHR '':'' # b @ v @ c @ ''}'') s'
      \<and> sc_top s' = collect (sc_depth s = 1) [\<lparr>fd_Key = name, fd_Value = v\<rparr>] (sc_top s)"
    if h: "drop (sc_pos s) d = (k @ a @ CHR '':'' # b @ v @ c @ ''}'') @ t" "0 < sc_depth s" "sc_depth s + n \<le> MaxDepth"
      "2 * left d s + 2 \<le> f" and K: "key_inv d keys seen K" for d s t f keys seen
  proof -
    obtain f' where f: "f = Suc f'" "2 * left d s + 1 \<le> f'" using h(4) by (cases f) auto
    have d: "drop (sc_pos s) d = k @ a @ CHR '':'' # b @ v @ c @ CHR ''}'' # t" using h(1) by simp
    obtain s5 keys' seen' where m: "drop (sc_pos s5) d = CHR ''}'' # t" "lands W s (k @ a @ CHR '':'' # b @ v @ c) s5"
        "sc_top s5 = collect (sc_depth s = 1) [\<lparr>fd_Key = name, fd_Value = v\<rparr>] (sc_top s)"
        "scan (Suc f') d (ObjectLoop s (sc_depth s) keys seen) = (if at d (sc_pos s5) CHR '',''
          then scan f' d (ObjectLoop (space d (s5\<lparr>sc_pos := sc_pos s5 + 1\<rparr>)) (sc_depth s) keys' seen')
          else if at d (sc_pos s5) CHR ''}'' then Some (Some (s5\<lparr>sc_pos := sc_pos s5 + 1, sc_depth := sc_depth s5 - 1\<rparr>))
          else Some None)"
      by (rule member_complete [OF v k ws K d _ h(2,3) f(2)]) auto
    have "\<not> at d (sc_pos s5) CHR '',''" "at d (sc_pos s5) CHR ''}''" using m(1) by (simp_all add: at_iff)
    then have "scan f d (ObjectLoop s (sc_depth s) keys seen) = Some (Some (s5\<lparr>sc_pos := sc_pos s5 + 1, sc_depth := sc_depth s5 - 1\<rparr>))"
      unfolding f(1) m(4) by simp
    moreover have "lands W s (k @ a @ CHR '':'' # b @ v @ c @ ''}'') (s5\<lparr>sc_pos := sc_pos s5 + 1, sc_depth := sc_depth s5 - 1\<rparr>)"
      using m(2) by (simp add: lands_def)
    ultimately show ?thesis using m(3) by simp
  qed
  moreover have "\<exists>x w'. k @ a @ CHR '':'' # b @ v @ c @ ''}'' = x # w' \<and> \<not> is_ws x \<and> x \<noteq> CHR ''}''"
    using quoted_first [OF k(1)] by (auto simp: is_ws_def)
  ultimately show ?thesis unfolding members_complete_def by blast
qed

lemma members_more_complete:
  assumes v: "json_value W n v" "value_complete W n v" and k: "Unmarshal_string k = Some name" "name \<notin> K"
    and ws: "W a" "W b" "W c" "\<And>a. W a \<Longrightarrow> ws a" and e: "W e" and ms: "members_complete W n (insert name K) fs w"
  shows "members_complete W n K (\<lparr>fd_Key = name, fd_Value = v\<rparr> # fs) (k @ a @ CHR '':'' # b @ v @ c @ CHR '','' # e @ w)"
proof -
  obtain wc w' where w: "w = wc # w'" "\<not> is_ws wc" using ms by (auto simp: members_complete_def)
  have "\<exists>s'. scan f d (ObjectLoop s (sc_depth s) keys seen) = Some (Some s')
      \<and> lands W s (k @ a @ CHR '':'' # b @ v @ c @ CHR '','' # e @ w) s'
      \<and> sc_top s' = collect (sc_depth s = 1) (\<lparr>fd_Key = name, fd_Value = v\<rparr> # fs) (sc_top s)"
    if h: "drop (sc_pos s) d = (k @ a @ CHR '':'' # b @ v @ c @ CHR '','' # e @ w) @ t" "0 < sc_depth s" "sc_depth s + n \<le> MaxDepth"
      "2 * left d s + 2 \<le> f" and K: "key_inv d keys seen K" for d s t f keys seen
  proof -
    obtain f' where f: "f = Suc f'" "2 * left d s + 1 \<le> f'" using h(4) by (cases f) auto
    have d: "drop (sc_pos s) d = k @ a @ CHR '':'' # b @ v @ c @ CHR '','' # e @ w @ t" using h(1) by simp
    obtain s5 keys' seen' where K': "key_inv d keys' seen' (insert name K)"
      and m: "drop (sc_pos s5) d = CHR '','' # e @ w @ t" "lands W s (k @ a @ CHR '':'' # b @ v @ c) s5" "sc_depth s5 = sc_depth s"
        "sc_top s5 = collect (sc_depth s = 1) [\<lparr>fd_Key = name, fd_Value = v\<rparr>] (sc_top s)"
        "scan (Suc f') d (ObjectLoop s (sc_depth s) keys seen) = (if at d (sc_pos s5) CHR '',''
          then scan f' d (ObjectLoop (space d (s5\<lparr>sc_pos := sc_pos s5 + 1\<rparr>)) (sc_depth s) keys' seen')
          else if at d (sc_pos s5) CHR ''}'' then Some (Some (s5\<lparr>sc_pos := sc_pos s5 + 1, sc_depth := sc_depth s5 - 1\<rparr>))
          else Some None)"
      by (rule member_complete [OF v k ws K d _ h(2,3) f(2)]) auto
    have at: "at d (sc_pos s5) CHR '',''" using m(1) by (simp add: at_iff)
    define s6 where "s6 = s5\<lparr>sc_pos := sc_pos s5 + 1\<rparr>"
    have d6: "drop (sc_pos s6) d = e @ wc # w' @ t" using drop_ConsD [OF m(1)] by (simp add: s6_def w)
    note sp = space_to [OF d6 ws(4) [OF e] w(2)]
    define s7 where "s7 = space d s6"
    have s7: "sc_pos s7 = sc_pos s5 + 1 + length e" "sc_depth s7 = sc_depth s" "sc_top s7 = sc_top s5"
      "sc_spaced s7 = (sc_spaced s5 \<or> e \<noteq> [])" "drop (sc_pos s7) d = w @ t"
      unfolding s7_def sp(1) using sp(2) m(3) by (simp_all add: s6_def w)
    have "left d s7 < left d s" unfolding s7(5) h(1) by simp
    then have "2 * left d s7 + 2 \<le> f'" using f(2) by simp
    then obtain s' where s': "scan f' d (ObjectLoop s7 (sc_depth s) keys' seen') = Some (Some s')" "lands W s7 w s'"
        "sc_top s' = collect (sc_depth s = 1) fs (sc_top s7)"
      using ms s7(2,5) h(2,3) K' unfolding members_complete_def by metis
    have "scan f d (ObjectLoop s (sc_depth s) keys seen) = Some (Some s')"
      unfolding f(1) m(5) s6_def [symmetric] s7_def [symmetric] using at s'(1) by simp
    moreover have "lands W s (k @ a @ CHR '':'' # b @ v @ c @ CHR '','' # e @ w) s'"
      using m(2) s'(2) s7(1,4) e by (auto simp: lands_def)
    ultimately show ?thesis using s'(3) s7(3) m(4) by (simp add: collect_collect)
  qed
  moreover have "\<exists>x w'. k @ a @ CHR '':'' # b @ v @ c @ CHR '','' # e @ w = x # w' \<and> \<not> is_ws x \<and> x \<noteq> CHR ''}''"
    using quoted_first [OF k(1)] by (auto simp: is_ws_def)
  ultimately show ?thesis unfolding members_complete_def by blast
qed

lemma object_nil_complete:
  assumes a: "W a" and W: "\<And>a. W a \<Longrightarrow> ws a"
  shows "object_complete W (Suc n) [] (CHR ''{'' # a @ ''}'')"
  unfolding object_complete_def
proof (intro allI impI)
  fix d s t f
  assume d: "drop (sc_pos s) d = (CHR ''{'' # a @ ''}'') @ t" and n: "sc_depth s + Suc n \<le> MaxDepth"
    and f: "2 * left d s + 1 \<le> f"
  obtain f' where f': "f = Suc f'" using f by (cases f) auto
  have d1: "drop (sc_pos s) d = CHR ''{'' # a @ CHR ''}'' # t" using d by simp
  have nw: "\<not> is_ws CHR ''}''" by (simp add: is_ws_def)
  let ?s1 = "space d (s\<lparr>sc_pos := sc_pos s + 1, sc_depth := sc_depth s + 1\<rparr>)"
  note o = open_container [OF d1 W [OF a] nw]
  have at: "at d (sc_pos ?s1) CHR ''}''" using o(3) by (simp add: at_iff)
  have "scan f d (Value s) = Some (Some (?s1\<lparr>sc_pos := sc_pos ?s1 + 1, sc_depth := sc_depth s\<rparr>))"
    unfolding f' scan.simps call.case value_s_def object_def Let_def using o(1,2) n at by simp
  moreover have "lands W s (CHR ''{'' # a @ ''}'') (?s1\<lparr>sc_pos := sc_pos ?s1 + 1, sc_depth := sc_depth s\<rparr>)"
    unfolding lands_def using o(5,8) a by auto
  ultimately show "\<exists>s'. scan f d (Value s) = Some (Some s') \<and> lands W s (CHR ''{'' # a @ ''}'') s' \<and>
      sc_top s' = collect (sc_depth s = 0) [] (sc_top s)" using o(7) by simp
qed

lemma object_cons_complete:
  assumes a: "W a" and W: "\<And>a. W a \<Longrightarrow> ws a" and ms: "members_complete W n {} fs w"
  shows "object_complete W (Suc n) fs (CHR ''{'' # a @ w)"
  unfolding object_complete_def
proof (intro allI impI)
  fix d s t f
  assume d: "drop (sc_pos s) d = (CHR ''{'' # a @ w) @ t" and n: "sc_depth s + Suc n \<le> MaxDepth"
    and f: "2 * left d s + 1 \<le> f"
  obtain c w' where w: "w = c # w'" "\<not> is_ws c" "c \<noteq> CHR ''}''" using ms by (auto simp: members_complete_def)
  obtain f' where f': "f = Suc f'" "2 * left d s \<le> f'" using f by (cases f) auto
  have d1: "drop (sc_pos s) d = CHR ''{'' # a @ c # w' @ t" using d w(1) by simp
  let ?s1 = "space d (s\<lparr>sc_pos := sc_pos s + 1, sc_depth := sc_depth s + 1\<rparr>)"
  note o = open_container [OF d1 W [OF a] w(2)]
  have at: "\<not> at d (sc_pos ?s1) CHR ''}''" using o(3) w(3) by (simp add: at_iff)
  have ds: "drop (sc_pos ?s1) d = w @ t" using o(3) w(1) by simp
  have "left d ?s1 < left d s" unfolding ds d by simp
  then have l: "2 * left d ?s1 + 2 \<le> f'" using f'(2) by simp
  have "key_inv d [] None {}" by (simp add: key_inv_def)
  with l obtain s' where s': "scan f' d (ObjectLoop ?s1 (sc_depth s + 1) [] None) = Some (Some s')" "lands W ?s1 w s'"
      "sc_top s' = collect (sc_depth s + 1 = 1) fs (sc_top ?s1)"
    using ms ds n o(4) unfolding members_complete_def by (metis add_Suc_right add_Suc_shift Suc_eq_plus1 zero_less_Suc)
  have "scan f d (Value s) = Some (Some s')"
    unfolding f'(1) scan.simps call.case value_s_def object_def Let_def using o(1,2) n at s'(1) by simp
  moreover have "lands W s (CHR ''{'' # a @ w) s'"
    using s'(2) unfolding lands_def using o(5,8) a by auto
  ultimately show "\<exists>s'. scan f d (Value s) = Some (Some s') \<and> lands W s (CHR ''{'' # a @ w) s' \<and>
      sc_top s' = collect (sc_depth s = 0) fs (sc_top s)" using o(7) s'(3) by simp
qed

lemma scalar_complete:
  assumes "\<And>d p t. drop p d = w @ t \<Longrightarrow> delim t \<Longrightarrow>
     scalar d p = Some (p + length w) \<and> p < length d \<and> d ! p \<noteq> CHR ''{'' \<and> d ! p \<noteq> CHR ''[''"
  shows "value_complete W n w"
  unfolding value_complete_def
proof (intro allI impI)
  fix d s t f
  assume d: "drop (sc_pos s) d = w @ t" "delim t" and f: "2 * left d s + 1 \<le> f"
  obtain f' where f': "f = Suc f'" using f by (cases f) auto
  from assms [OF d] have "scan f d (Value s) = Some (Some (s\<lparr>sc_pos := sc_pos s + length w\<rparr>))"
    unfolding f' by (simp add: value_s_def)
  then show "\<exists>s'. scan f d (Value s) = Some (Some s') \<and> lands W s w s'" by (simp add: lands_def)
qed

lemma json_complete:
  assumes W: "\<And>a. W a \<Longrightarrow> ws a"
  shows "json_value W n w \<Longrightarrow> value_complete W n w"
    and "json_array W n vs w \<Longrightarrow> array_complete W n vs w"
    and "json_elems W n vs w \<Longrightarrow> elems_complete W n vs w"
    and "json_object W n fs w \<Longrightarrow> object_complete W n fs w"
    and "json_members W n K fs w \<Longrightarrow> members_complete W n K fs w"
proof (induction rule: json_value_json_array_json_elems_json_object_json_members.inducts)
  case (v_lit w n)
  then show ?case by (intro scalar_complete scalar_literal)
next
  case (v_num w n)
  then show ?case by (intro scalar_complete scalar_number)
next
  case (v_str w n)
  then show ?case by (intro scalar_complete scalar_string)
next
  case (v_arr n vs w)
  then show ?case unfolding value_complete_def array_complete_def by meson
next
  case (v_obj n fs w)
  then show ?case unfolding value_complete_def object_complete_def by meson
next
  case (a_nil a n)
  then show ?case using W by (intro array_nil_complete)
next
  case (a_cons a n vs w)
  then show ?case using W by (intro array_cons_complete)
next
  case (e_last n v a)
  then show ?case using W by (intro elems_last_complete)
next
  case (e_more n v a b vs w)
  then show ?case using W by (intro elems_more_complete)
next
  case (o_nil a n)
  then show ?case using W by (intro object_nil_complete)
next
  case (o_cons a n fs w)
  then show ?case using W by (intro object_cons_complete)
next
  case (m_last k name K a b n v c)
  then show ?case using W by (intro members_last_complete)
next
  case (m_more k name K a b n v c e fs w)
  then show ?case using W by (intro members_more_complete)
qed

section \<open>The entry points\<close>

lemma ws_delim: "ws b \<Longrightarrow> delim b"
  by (cases b) (auto simp: ws_def is_ws_def delim_def is_digit_def ord_def)

lemma space_end: "sc_pos (space d s) = length d \<longleftrightarrow> sc_pos s \<le> length d \<and> ws (drop (sc_pos s) d)"
proof -
  obtain a where a: "drop (sc_pos s) d = a @ drop (sc_pos (space d s)) d" "ws a"
    "space d s = s\<lparr>sc_pos := sc_pos s + length a, sc_spaced := sc_spaced s \<or> a \<noteq> []\<rparr>"
    "drop (sc_pos (space d s)) d = [] \<or> \<not> is_ws (hd (drop (sc_pos (space d s)) d))"
    by (rule space_spec)
  have p: "sc_pos (space d s) = sc_pos s + length a" unfolding a(3) by simp
  have l: "length (drop (sc_pos s) d) = length a + length (drop (sc_pos (space d s)) d)" by (subst a(1)) simp
  show ?thesis
  proof
    assume e: "sc_pos (space d s) = length d"
    then have "drop (sc_pos s) d = a" using a(1) by simp
    then show "sc_pos s \<le> length d \<and> ws (drop (sc_pos s) d)" using a(2) p e by simp
  next
    assume h: "sc_pos s \<le> length d \<and> ws (drop (sc_pos s) d)"
    then have "ws (drop (sc_pos (space d s)) d)" by (subst (asm) a(1)) (simp add: ws_def)
    then have "drop (sc_pos (space d s)) d = []" using a(4) by (cases "drop (sc_pos (space d s)) d") (auto simp: ws_def)
    then have "length (drop (sc_pos s) d) = length a" using l by (metis add.right_neutral list.size(3))
    then show "sc_pos (space d s) = length d" using p h by (auto simp only: length_drop)
  qed
qed

definition start :: "Field list option \<Rightarrow> string list option \<Rightarrow> scanner" where
  "start t e = \<lparr>sc_pos = 0, sc_depth = 0, sc_spaced = False, sc_top = t, sc_elements = e\<rparr>"

lemma start_scanner: "getScanner t = start t None" "(start t None)\<lparr>sc_elements := e\<rparr> = start t e"
  by (simp_all add: getScanner_def start_def)

text \<open>Before a value, \<open>space\<close> skips exactly the leading white space.\<close>

lemma scan_value_ok:
  assumes "sc_depth s = 0"
  shows "value_ok d s (scan_value d s)"
proof -
  have "2 * left d s + 1 \<le> fuel_for d" by (simp add: fuel_for_def)
  then show ?thesis using scan_ok [of s d "fuel_for d"] assms by (simp add: scan_value_def)
qed

lemma json_ws: "json_value (WS b) n w \<Longrightarrow> json_value ws n w" "json_object (WS b) n fs w \<Longrightarrow> json_object ws n fs w"
  "json_array (WS b) n vs w \<Longrightarrow> json_array ws n vs w"
  by (erule json_mono, simp add: WS_def)+

definition document :: "string \<Rightarrow> string \<Rightarrow> bool" where
  "document raw w \<longleftrightarrow> (\<exists>a b. raw = a @ w @ b \<and> ws a \<and> ws b)"

text \<open>What the scan of a whole document starts from: its leading white space skipped.\<close>

lemma document_start:
  assumes "raw = a @ w @ b" and "ws a" and "w = c # w'" and "\<not> is_ws c"
    and "s0 = space raw (start t e)"
  shows "drop (sc_pos s0) raw = w @ b" "sc_depth s0 = 0" "sc_top s0 = t" "sc_elements s0 = e" "at raw (sc_pos s0) c"
proof -
  have "space raw (start t e) = (start t e)\<lparr>sc_pos := sc_pos (start t e) + length a, sc_spaced := sc_spaced (start t e) \<or> a \<noteq> []\<rparr>"
    using assms(1-4) by (intro space_to(1) [where c = c and t = "w' @ b"]) (simp_all add: start_def)
  then have s0: "s0 = (start t e)\<lparr>sc_pos := length a, sc_spaced := a \<noteq> []\<rparr>" by (simp add: assms(5) start_def)
  show "drop (sc_pos s0) raw = w @ b" "sc_depth s0 = 0" "sc_top s0 = t" "sc_elements s0 = e" "at raw (sc_pos s0) c"
    using assms(1,3) by (simp_all add: s0 start_def at_def nth_append)
qed

lemma document_sound:
  assumes "scan_value raw (space raw (start t e)) = Some (Some s)" and "sc_pos (space raw s) = length raw"
  obtains w vs fs where "document raw w" "json_value ws MaxDepth w"
    "at raw (sc_pos (space raw (start t e))) CHR ''['' \<Longrightarrow> json_array ws MaxDepth vs w \<and> sc_elements s = collect True vs e"
    "at raw (sc_pos (space raw (start t e))) CHR ''{'' \<Longrightarrow> json_object ws MaxDepth fs w \<and> sc_top s = collect True fs t"
proof -
  let ?s0 = "space raw (start t e)"
  obtain a where a: "reads raw (start t e) a ?s0" "WS (sc_spaced ?s0) a" "sc_depth ?s0 = 0" "sc_top ?s0 = t" "sc_elements ?s0 = e"
    by (rule reads_space [of raw "start t e"]) (simp add: start_def)
  from scan_value_ok [OF a(3), of raw] assms(1) obtain w vs fs where w: "reads raw ?s0 w s" "json_value (WS (sc_spaced s)) MaxDepth w"
    "at raw (sc_pos ?s0) CHR ''['' \<longrightarrow> json_array (WS (sc_spaced s)) MaxDepth vs w"
    "at raw (sc_pos ?s0) CHR ''{'' \<longrightarrow> json_object (WS (sc_spaced s)) MaxDepth fs w"
    "sc_elements s = collect (at raw (sc_pos ?s0) CHR ''['') vs e" "sc_top s = collect (at raw (sc_pos ?s0) CHR ''{'') fs t"
    unfolding value_ok_def a(3-5) by auto
  have "raw = a @ w @ drop (sc_pos s) raw" using a(1) w(1) by (auto simp: reads_def start_def)
  moreover have "ws (drop (sc_pos s) raw)" using assms(2) by (simp add: space_end)
  ultimately have "document raw w" using a(2) unfolding document_def WS_def by blast
  then show ?thesis using that [of w vs fs] w json_ws by simp blast
qed

lemma document_complete:
  assumes "document raw w" and "json_value ws MaxDepth w"
  obtains s where "scan_value raw (space raw (start t e)) = Some (Some s)" "sc_pos (space raw s) = length raw"
    "\<And>vs. json_array ws MaxDepth vs w \<Longrightarrow> sc_elements s = collect True vs e"
    "\<And>fs. json_object ws MaxDepth fs w \<Longrightarrow> sc_top s = collect True fs t"
proof -
  let ?s0 = "space raw (start t e)"
  obtain a b where r: "raw = a @ w @ b" "ws a" "ws b" using assms(1) by (auto simp: document_def)
  obtain c w' where c: "w = c # w'" "\<not> is_ws c" using json_first [OF assms(2)] by blast
  note s0 = document_start [OF r(1,2) c refl, of t e]
  have f: "2 * left raw ?s0 + 1 \<le> fuel_for raw" by (simp add: fuel_for_def)
  have d: "sc_depth ?s0 + MaxDepth \<le> MaxDepth" using s0(2) by simp
  obtain s where s: "scan_value raw ?s0 = Some (Some s)" "lands ws ?s0 w s"
    using json_complete(1) [OF _ assms(2)] s0(1) ws_delim [OF r(3)] d f unfolding value_complete_def scan_value_def by blast
  have "drop (sc_pos s) raw = b" using drop_appendD [OF s0(1)] s(2) by (simp add: lands_def)
  moreover have "sc_pos s \<le> length raw" using s(2) arg_cong [OF s0(1), of length] by (cases "sc_pos ?s0 \<le> length raw") (auto simp: lands_def c(1))
  ultimately have e: "sc_pos (space raw s) = length raw" using r(3) by (simp add: space_end)
  have el: "sc_elements s = collect True vs e" if "json_array ws MaxDepth vs w" for vs
    using json_complete(2) [OF _ that] s0 d f s(1) unfolding array_complete_def scan_value_def by fastforce
  have tp: "sc_top s = collect True fs t" if "json_object ws MaxDepth fs w" for fs
    using json_complete(4) [OF _ that] s0 d f s(1) unfolding object_complete_def scan_value_def by fastforce
  show ?thesis by (rule that [OF s(1) e el tp])
qed

lemma scan_value_total: "sc_depth s = 0 \<Longrightarrow> \<exists>r. scan_value d s = Some r"
  using scan_value_ok [of s d] by (auto simp: value_ok_def)

lemma space_depth: "sc_depth (space d s) = sc_depth s"
  by (rule reads_space [of d s])

lemma object_value: "json_object W n fs w \<Longrightarrow> json_value W n w \<and> hd w = CHR ''{''"
  by (auto intro: json_value_json_array_json_elems_json_object_json_members.intros elim: json_object.cases)

lemma array_value: "json_array W n vs w \<Longrightarrow> json_value W n w \<and> hd w = CHR ''[''"
  by (auto intro: json_value_json_array_json_elems_json_object_json_members.intros elim: json_array.cases)

lemma document_at:
  assumes "document raw w" and "json_value ws MaxDepth w"
  shows "at raw (sc_pos (space raw (start t e))) (hd w)"
proof -
  obtain a b where "raw = a @ w @ b" "ws a" using assms(1) by (auto simp: document_def)
  moreover obtain c w' where "w = c # w'" "\<not> is_ws c" using json_first [OF assms(2)] by blast
  ultimately show ?thesis using document_start(5) [of raw a w b c w'] by simp
qed

lemma Valid_grammar: "Valid raw = Some (\<exists>w. document raw w \<and> json_value ws MaxDepth w)"
proof (cases "\<exists>w. document raw w \<and> json_value ws MaxDepth w")
  case True
  then obtain w where "document raw w" "json_value ws MaxDepth w" by blast
  from document_complete [OF this, of None None] show ?thesis
    using True by (fastforce simp: Valid_def start_scanner)
next
  case False
  obtain r where r: "scan_value raw (space raw (start None None)) = Some r"
    using scan_value_total [of "space raw (start None None)" raw] by (auto simp: space_depth start_def)
  have "sc_pos (space raw s) \<noteq> length raw" if "r = Some s" for s
    using document_sound [of raw None None s] r that False by blast
  then show ?thesis using False r by (cases r) (auto simp: Valid_def start_scanner)
qed

text \<open>
  C13. \<^verbatim>\<open>Valid\<close> always returns, and answers true exactly on the texts that are one JSON value of the grammar
  (nesting at most \<^verbatim>\<open>MaxDepth\<close>, no object repeating a decoded key, at any depth) between white space.
\<close>
theorem Valid_iff: "Valid raw = Some (\<exists>w. document raw w \<and> json_value ws MaxDepth w)"
  by (rule Valid_grammar)

lemma Fields_grammar: "\<exists>r. Fields raw = Some r \<and> (\<forall>fs. r = Some fs \<longleftrightarrow> (\<exists>w. document raw w \<and> json_object ws MaxDepth fs w))"
proof -
  let ?s0 = "space raw (start (Some []) None)"
  obtain r0 where r0: "scan_value raw ?s0 = Some r0"
    using scan_value_total [of ?s0 raw] by (auto simp: space_depth start_def)
  define r where "r = (if \<not> at raw (sc_pos ?s0) CHR ''{'' then None else case r0 of None \<Rightarrow> None
    | Some s \<Rightarrow> if sc_pos (space raw s) \<noteq> length raw then None else sc_top s)"
  have F: "Fields raw = Some r" using r0 by (cases r0) (simp_all add: Fields_def start_scanner r_def)
  have "\<exists>w. document raw w \<and> json_object ws MaxDepth fs w" if fs: "r = Some fs" for fs
  proof -
    obtain s where s: "at raw (sc_pos ?s0) CHR ''{''" "r0 = Some s" "sc_pos (space raw s) = length raw" "sc_top s = Some fs"
      using fs by (auto simp: r_def split: if_splits option.splits)
    obtain w vs fs' where w: "document raw w" "json_object ws MaxDepth fs' w \<and> sc_top s = collect True fs' (Some [])"
      using document_sound [of raw "Some []" None s] r0 s(1-3) by blast
    then show ?thesis using s(4) by (auto simp: collect_def)
  qed
  moreover have "r = Some fs" if w: "document raw w" "json_object ws MaxDepth fs w" for fs w
  proof -
    have o: "json_value ws MaxDepth w" "hd w = CHR ''{''" using object_value [OF w(2)] by auto
    obtain s where "scan_value raw ?s0 = Some (Some s)" "sc_pos (space raw s) = length raw"
        "\<And>fs. json_object ws MaxDepth fs w \<Longrightarrow> sc_top s = collect True fs (Some [])"
      using document_complete [OF w(1) o(1), of "Some []" None] by blast
    then show ?thesis using document_at [OF w(1) o(1), of "Some []" None] o(2) w(2) r0 by (simp add: r_def collect_def)
  qed
  ultimately show ?thesis using F by blast
qed

text \<open>
  C14. \<^verbatim>\<open>Fields\<close> always returns, and answers a list of members exactly when the text is an object
  \<^verbatim>\<open>Valid\<close> admits: the members of that object in document order, each key decoded and each value the
  bytes of the document.
\<close>
theorem Fields_iff: "\<exists>r. Fields raw = Some r \<and> (\<forall>fs. r = Some fs \<longleftrightarrow> (\<exists>w. document raw w \<and> json_object ws MaxDepth fs w))"
  by (rule Fields_grammar)

lemma Elements_grammar: "\<exists>r. Elements raw = Some r \<and> (\<forall>vs. r = Some vs \<longleftrightarrow> (\<exists>w. document raw w \<and> json_array ws MaxDepth vs w))"
proof -
  let ?s0 = "space raw (start None (Some []))"
  obtain r0 where r0: "scan_value raw ?s0 = Some r0"
    using scan_value_total [of ?s0 raw] by (auto simp: space_depth start_def)
  define r where "r = (if \<not> at raw (sc_pos ?s0) CHR ''['' then None else case r0 of None \<Rightarrow> None
    | Some s \<Rightarrow> if sc_pos (space raw s) \<noteq> length raw then None else sc_elements s)"
  have E: "Elements raw = Some r" using r0 by (cases r0) (simp_all add: Elements_def start_scanner r_def)
  have "\<exists>w. document raw w \<and> json_array ws MaxDepth vs w" if vs: "r = Some vs" for vs
  proof -
    obtain s where s: "at raw (sc_pos ?s0) CHR ''[''" "r0 = Some s" "sc_pos (space raw s) = length raw" "sc_elements s = Some vs"
      using vs by (auto simp: r_def split: if_splits option.splits)
    obtain w vs' fs where w: "document raw w" "json_array ws MaxDepth vs' w \<and> sc_elements s = collect True vs' (Some [])"
      using document_sound [of raw None "Some []" s] r0 s(1-3) by blast
    then show ?thesis using s(4) by (auto simp: collect_def)
  qed
  moreover have "r = Some vs" if w: "document raw w" "json_array ws MaxDepth vs w" for vs w
  proof -
    have o: "json_value ws MaxDepth w" "hd w = CHR ''[''" using array_value [OF w(2)] by auto
    obtain s where "scan_value raw ?s0 = Some (Some s)" "sc_pos (space raw s) = length raw"
        "\<And>vs. json_array ws MaxDepth vs w \<Longrightarrow> sc_elements s = collect True vs (Some [])"
      using document_complete [OF w(1) o(1), of None "Some []"] by blast
    then show ?thesis using document_at [OF w(1) o(1), of None "Some []"] o(2) w(2) r0 by (simp add: r_def collect_def)
  qed
  ultimately show ?thesis using E by blast
qed

text \<open>
  C15. \<^verbatim>\<open>Elements\<close> always returns, and answers a list of elements exactly when the text is an array
  \<^verbatim>\<open>Valid\<close> admits: the bytes of its elements in document order.
\<close>
theorem Elements_iff: "\<exists>r. Elements raw = Some r \<and> (\<forall>vs. r = Some vs \<longleftrightarrow> (\<exists>w. document raw w \<and> json_array ws MaxDepth vs w))"
  by (rule Elements_grammar)

text \<open>Documents without white space outside strings.\<close>

definition tight :: "string \<Rightarrow> bool" where
  "tight = json_value (\<lambda>a. a = []) MaxDepth"

lemma Compact_tight: "Compact raw = Some (tight raw)"
proof -
  let ?s0 = "start None None"
  have d: "sc_depth ?s0 = 0" "sc_pos ?s0 = 0" "\<not> sc_spaced ?s0" by (simp_all add: start_def)
  obtain r where r: "scan_value raw ?s0 = Some r" using scan_value_total [of ?s0 raw] d by blast
  have "tight raw" if s: "r = Some s" "sc_pos s = length raw" "\<not> sc_spaced s" for s
  proof -
    obtain w where w: "reads raw ?s0 w s" "json_value (WS (sc_spaced s)) MaxDepth w"
      using scan_value_ok [OF d(1), of raw] r s(1) d(1) unfolding value_ok_def by auto
    have "raw = w" using w(1) s(2) d(2) by (simp add: reads_def)
    moreover have "json_value (\<lambda>a. a = []) MaxDepth w" by (rule json_mono(1) [OF w(2)]) (simp add: WS_def s(3))
    ultimately show ?thesis by (simp add: tight_def)
  qed
  moreover have "\<exists>s. r = Some s \<and> sc_pos s = length raw \<and> \<not> sc_spaced s" if "tight raw"
  proof -
    have "value_complete (\<lambda>a. a = []) MaxDepth raw" using that json_complete(1) [of "\<lambda>a. a = []"] by (simp add: tight_def ws_def)
    moreover have "drop (sc_pos ?s0) raw = raw @ []" "delim []" "sc_depth ?s0 + MaxDepth \<le> MaxDepth" "2 * left raw ?s0 + 1 \<le> fuel_for raw"
      using d by (simp_all add: delim_def fuel_for_def)
    ultimately obtain s where "scan (fuel_for raw) raw (Value ?s0) = Some (Some s)" "lands (\<lambda>a. a = []) ?s0 raw s"
      unfolding value_complete_def by blast
    then show ?thesis using r d by (auto simp: scan_value_def lands_def)
  qed
  ultimately show ?thesis using r by (cases r) (auto simp: Compact_def start_scanner)
qed

text \<open>
  C16. \<^verbatim>\<open>Compact\<close> always returns, and answers true exactly on the values \<^verbatim>\<open>Valid\<close> admits that have no
  white space outside their strings; \<^verbatim>\<open>CanonicalRaw\<close> also requires the text to be free of the bytes and
  runes \<^verbatim>\<open>encoding/json\<close> escapes.
\<close>
theorem Compact_CanonicalRaw_iff:
  "Compact raw = Some (tight raw)
   \<and> CanonicalRaw raw = Some (tight raw \<and> set raw \<inter> {CHR ''<'', CHR ''>'', CHR ''&''} = {}
        \<and> \<not> Contains raw lineSeparator \<and> \<not> Contains raw paragraphSeparator)"
proof (intro conjI)
  show "Compact raw = Some (tight raw)" by (rule Compact_tight)
  show "CanonicalRaw raw = Some (tight raw \<and> set raw \<inter> {CHR ''<'', CHR ''>'', CHR ''&''} = {}
        \<and> \<not> Contains raw lineSeparator \<and> \<not> Contains raw paragraphSeparator)"
    by (auto simp: CanonicalRaw_def Compact_tight list_ex_iff)
qed

end
