(* ===== verification/Strictjson_Decode.thy ===== *)
theory Strictjson_Decode
  imports Strictjson_Complete Go_Json_Parse
begin

text \<open>
  What the strict scanner admits, \<^verbatim>\<open>encoding/json\<close> reads: every text of the scanner's grammar is parsed
  by the decoder's model to a tree that carries the very bytes and decoded keys the grammar names.
  This is the bridge between the fast decoders, which read members through \<^verbatim>\<open>strictjson.Fields\<close>, and
  the \<^verbatim>\<open>encoding/json\<close> decoders they replace.
\<close>

section \<open>Scalars\<close>

lemma json_space_iff [simp]: "json_space = is_ws"
  by (rule ext) (simp add: json_space_def is_ws_def)

lemma lit_body_complete: "str_body b \<Longrightarrow> lit_body (b @ CHR 0x22 # t) = Some (b, t)"
proof (induction b rule: measure_induct_rule [of length])
  case (less b)
  show ?case
  proof (cases b)
    case (Cons c b')
    show ?thesis
    proof (cases "c = CHR 0x5C")
      case False
      then have o: "c \<noteq> CHR 0x22" "\<not> ord c < 0x20" "str_body b'"
        using less.prems by (auto simp: Cons split: if_splits)
      then show ?thesis using less.IH [of b'] False by (simp add: Cons)
    next
      case True
      then obtain e b2 where b': "b' = e # b2" using less.prems by (cases b') (auto simp: Cons)
      show ?thesis
      proof (cases "simple_escape e = None")
        case no: False
        then have "str_body b2" using less.prems by (simp add: Cons b' True)
        then show ?thesis using less.IH [of b2] no True by (simp add: Cons b')
      next
        case yes: True
        then obtain h1 h2 h3 h4 b3 where b2: "e = CHR ''u''" "b2 = h1 # h2 # h3 # h4 # b3" "str_body b3"
            "list_all hex_digit [h1, h2, h3, h4]"
          using less.prems by (auto simp: Cons b' True split: if_splits list.splits)
        then show ?thesis using less.IH [of b3] yes True by (simp add: Cons b')
      qed
    qed
  qed simp
qed

lemma num_whole_complete: "whole_text w \<Longrightarrow> no_digit t \<Longrightarrow> num_whole (w @ t) = Some (w, t)"
proof -
  assume w: "whole_text w" and t: "no_digit t"
  show ?thesis
  proof (cases "w = ''0''")
    case False
    then have d: "list_all is_digit w" "w \<noteq> []" "hd w \<noteq> CHR ''0''" using w by (auto simp: whole_text_def digits_only_def)
    then have "is_digit (hd w)" by (cases w) auto
    moreover have "takeWhile is_digit (w @ t) = w" using d t by (simp add: takeWhile_digits)
    moreover have "dropWhile is_digit (w @ t) = t" using calculation(2) dropWhile_eq_drop [of is_digit "w @ t"] by simp
    ultimately show ?thesis using d by (simp add: num_whole_def)
  qed (simp add: num_whole_def)
qed

lemma digits_drop: "digits_only x \<Longrightarrow> no_digit t \<Longrightarrow> takeWhile is_digit (x @ t) = x \<and> dropWhile is_digit (x @ t) = t"
  using takeWhile_digits [of x t] dropWhile_eq_drop [of is_digit "x @ t"] by (simp add: digits_only_def)

lemma num_frac_complete:
  assumes "frac_text w" and "no_digit t" and "t = [] \<or> hd t \<noteq> CHR ''.''"
  shows "num_frac (w @ t) = Some (w, t)"
proof (cases "w = []")
  case True
  then show ?thesis using assms(3) by (auto simp: num_frac_def)
next
  case False
  then obtain f where f: "digits_only f" "w = CHR ''.'' # f" using assms(1) by (auto simp: frac_text_def)
  moreover have "f \<noteq> []" using f(1) by (simp add: digits_only_def)
  ultimately show ?thesis using digits_drop [OF f(1) assms(2)] by (simp add: num_frac_def)
qed

lemma num_exp_complete:
  assumes "exp_text w" and "delim t"
  shows "num_exp (w @ t) = Some (w, t)"
proof (cases "w = []")
  case True
  then show ?thesis using assms(2) by (auto simp: num_exp_def delim_def)
next
  case False
  then obtain e sg x where x: "e = CHR ''e'' \<or> e = CHR ''E''" "sg \<in> {[], ''+'', ''-''}" "digits_only x" "w = e # sg @ x"
    using assms(1) by (auto simp: exp_text_def)
  have ne: "x \<noteq> []" "is_digit (hd x)" using x(3) by (cases x; simp add: digits_only_def)+
  then have "hd x \<noteq> CHR ''+''" "hd x \<noteq> CHR ''-''" by (metis sign_not_digit)+
  moreover have "no_digit t" using assms(2) by (auto simp: no_digit_def delim_def)
  ultimately show ?thesis using x(1,2) ne digits_drop [OF x(3), of t] unfolding x(4) by (auto simp: num_exp_def Let_def)
qed

lemma num_prefix_complete:
  assumes "num_text w" and "delim t"
  shows "num_prefix (w @ t) = Some (w, t)"
proof -
  obtain sg wh fr ex where w: "w = sg @ wh @ fr @ ex" "sg \<in> {[], ''-''}" "whole_text wh" "frac_text fr" "exp_text ex"
    using assms(1) by (auto simp: num_text_def)
  have e: "no_digit (ex @ t)" "ex @ t = [] \<or> hd (ex @ t) \<noteq> CHR ''.''" using exp_hd [OF w(5) assms(2)] by auto
  have "wh \<noteq> []" "is_digit (hd wh)" using whole_digits [OF w(3)] by (cases wh; simp)+
  moreover from this have "hd wh \<noteq> CHR ''-''" by (metis sign_not_digit(1))
  ultimately have s: "num_sign (w @ t) = (sg, wh @ fr @ ex @ t)" using w(1,2) by (auto simp: num_sign_def)
  have "num_whole (wh @ fr @ ex @ t) = Some (wh, fr @ ex @ t)"
    by (rule num_whole_complete [OF w(3) frac_hd [OF w(4) e(1)]])
  then show ?thesis
    using num_frac_complete [OF w(4) e] num_exp_complete [OF w(5) assms(2)] unfolding num_prefix_def s by (simp add: w(1))
qed

section \<open>Trees\<close>

text \<open>
  The token walk of \<^verbatim>\<open>rejectDuplicateJSONKeys\<close> in \<^verbatim>\<open>src/plugin/host.go\<close>, which is the specification the
  scanner stands in front of: every object's keys are distinct, and every number is one \<^verbatim>\<open>Decoder.Token\<close>
  can read as a \<^verbatim>\<open>float64\<close>.
\<close>

fun walk :: "json \<Rightarrow> bool" where
  "walk JNull = True"
| "walk (JBool b) = True"
| "walk (JString s) = True"
| "walk (JNumber s) = (\<not> ParseFloat_range_error s)"
| "walk (JArray s js) = list_all walk js"
| "walk (JObject s ms) = (distinct (map fst ms) \<and> list_all (\<lambda>kj. walk (snd kj)) ms)"

definition parses :: "nat \<Rightarrow> string \<Rightarrow> json \<Rightarrow> bool" where
  "parses n w j \<longleftrightarrow> raw_of j = w \<and> walk j \<and> w \<noteq> [] \<and> \<not> is_ws (hd w) \<and> (\<forall>t f m. delim t \<longrightarrow> n \<le> m \<longrightarrow> 2 * length (w @ t) + 1 \<le> f \<longrightarrow>
     pvalue f m (w @ t) = Some (j, t))"

abbreviation elem_trees :: "nat \<Rightarrow> string list \<Rightarrow> json list \<Rightarrow> bool" where
  "elem_trees n \<equiv> list_all2 (parses n)"

abbreviation member_trees :: "nat \<Rightarrow> Field list \<Rightarrow> (string \<times> json) list \<Rightarrow> bool" where
  "member_trees n \<equiv> list_all2 (\<lambda>fd kj. fst kj = fd_Key fd \<and> parses n (fd_Value fd) (snd kj))"

lemma pvalue_Suc: "pvalue (Suc f) = value_body (pelems f) (pmembers f)"
  and pelems_Suc: "pelems (Suc f) = elems_body (pvalue f) (pelems f)"
  and pmembers_Suc: "pmembers (Suc f) = members_body (pvalue f) (pmembers f)"
  by (simp_all add: fun_eq_iff)

lemma upto_append [simp]: "upto (w @ t) t = w" "upto (c # w @ t) t = c # w"
  by (simp_all add: upto_def Suc_diff_le)

lemma skip_ws_over: "ws a \<Longrightarrow> \<not> is_ws c \<Longrightarrow> dropWhile is_ws (a @ c # t) = c # t"
  by (simp add: ws_def)

lemma starts_Cons [simp]: "starts c (d # s) \<longleftrightarrow> d = c"
  by (auto simp: starts_def)

lemma fuel_Suc: "m + 1 \<le> f \<Longrightarrow> \<exists>f'. f = Suc f' \<and> m \<le> f'"
  by (cases f) auto

lemma scalar_parses:
  assumes "\<And>t. delim t \<Longrightarrow> scalar_body (w @ t) = Some (j, t)" and "raw_of j = w" and "walk j" and "w \<noteq> []"
    and "\<not> is_ws (hd w)" and "hd w \<noteq> CHR ''[''" and "hd w \<noteq> CHR ''{''"
  shows "parses n w j"
  unfolding parses_def
proof (intro conjI allI impI)
  fix t f m
  assume "delim t" and f: "2 * length (w @ t) + 1 \<le> f"
  obtain f' where f': "f = Suc f'" using f by (cases f) auto
  show "pvalue f m (w @ t) = Some (j, t)"
    using assms(1) [OF \<open>delim t\<close>] assms(4-7) by (simp only: f' pvalue_Suc) (simp add: value_body_def starts_def)
qed (simp_all add: assms(2-5))

lemma lit_parses: "w \<in> {''true'', ''false'', ''null''} \<Longrightarrow> \<exists>j. parses n w j"
proof -
  assume w: "w \<in> {''true'', ''false'', ''null''}"
  let ?j = "if w = ''null'' then JNull else JBool (w = ''true'')"
  have "parses n w ?j" using w by (intro scalar_parses) (auto simp: scalar_body_def HasPrefix_def is_ws_def)
  then show ?thesis by blast
qed

lemma num_parses: "num_text w \<Longrightarrow> parses n w (JNumber w)"
proof -
  assume n: "num_text w"
  then obtain sg wh r where w: "w = sg @ wh @ r" "sg \<in> {[], ''-''}" "whole_text wh" by (auto simp: num_text_def)
  then obtain c w' where "wh = c # w'" "is_digit c" using whole_digits [of wh] by (cases wh) auto
  then obtain x v where xv: "w = x # v" "x = CHR ''-'' \<or> is_digit x" using w by auto
  have ne: "x \<noteq> CHR 0x22" "x \<noteq> CHR ''t''" "x \<noteq> CHR ''f''" "x \<noteq> CHR ''n''" "x \<noteq> CHR ''{''" "x \<noteq> CHR ''[''" "\<not> is_ws x"
    using xv(2) by (auto simp: is_digit_def ord_def is_ws_def)
  then have p: "\<not> starts CHR 0x22 (w @ t)" "\<not> HasPrefix (w @ t) ''null''" "\<not> HasPrefix (w @ t) ''true''" "\<not> HasPrefix (w @ t) ''false''" for t
    by (simp_all add: xv(1) HasPrefix_def)
  show ?thesis
    using p num_prefix_complete [OF n] ne(5-7) n by (intro scalar_parses) (simp_all add: scalar_body_def xv(1) num_text_def)
qed

lemma str_parses: "str_text w \<Longrightarrow> parses n w (JString w)"
proof -
  assume "str_text w"
  then obtain b where "w = CHR 0x22 # b @ [CHR 0x22]" "str_body b" by (auto simp: str_text_def)
  then show ?thesis by (intro scalar_parses) (simp_all add: scalar_body_def lit_body_complete is_ws_def)
qed

lemma parsesD: "parses n v j \<Longrightarrow> delim t \<Longrightarrow> n \<le> m \<Longrightarrow> 2 * length (v @ t) + 1 \<le> f \<Longrightarrow> pvalue f m (v @ t) = Some (j, t)"
  by (simp add: parses_def)

lemma parsesI:
  "(\<And>t f m. n \<le> m \<Longrightarrow> 2 * length (w @ t) + 1 \<le> f \<Longrightarrow> pvalue f m (w @ t) = Some (j, t)) \<Longrightarrow> raw_of j = w \<Longrightarrow> walk j \<Longrightarrow> w \<noteq> [] \<Longrightarrow> \<not> is_ws (hd w) \<Longrightarrow> parses n w j"
  by (simp add: parses_def)

lemma no_ws [simp]: "\<not> is_ws CHR '',''" "\<not> is_ws CHR '']''" "\<not> is_ws CHR ''}''" "\<not> is_ws CHR '':''" "\<not> is_ws CHR 0x22"
  by (simp_all add: is_ws_def)

lemma pelems_last:
  assumes "parses n v j" and "ws a" and "n \<le> m" and "2 * length (v @ a @ CHR '']'' # t) + 2 \<le> f"
  shows "pelems f m (v @ a @ CHR '']'' # t) = Some ([j], t)"
proof -
  obtain f' where f: "f = Suc f'" using assms(4) by (cases f) auto
  have "pvalue f' m (v @ a @ CHR '']'' # t) = Some (j, a @ CHR '']'' # t)"
    using assms delim_ws [OF assms(2)] f by (intro parsesD) auto
  then show ?thesis using skip_ws_over [OF assms(2)] by (simp only: f pelems_Suc) (simp add: elems_body_def)
qed

lemma pelems_more:
  assumes "parses n v j" and "ws a" and "ws b" and "n \<le> m" and "w = c # w'" and "\<not> is_ws c"
    and "2 * length (v @ a @ CHR '','' # b @ w @ t) + 2 \<le> f"
    and "\<And>f. 2 * length (w @ t) + 2 \<le> f \<Longrightarrow> pelems f m (w @ t) = Some (js, t)"
  shows "pelems f m (v @ a @ CHR '','' # b @ w @ t) = Some (j # js, t)"
proof -
  obtain f' where f: "f = Suc f'" using assms(7) by (cases f) auto
  have "pvalue f' m (v @ a @ CHR '','' # b @ w @ t) = Some (j, a @ CHR '','' # b @ w @ t)"
    using assms delim_ws [OF assms(2)] f by (intro parsesD) auto
  moreover have "dropWhile is_ws (b @ w @ t) = w @ t" using skip_ws_over [OF assms(3,6)] assms(5) by simp
  moreover have "pelems f' m (w @ t) = Some (js, t)" using assms(7) f by (intro assms(8)) auto
  ultimately show ?thesis using skip_ws_over [OF assms(2)] by (simp only: f pelems_Suc) (simp add: elems_body_def)
qed

lemma member_key:
  assumes "Unmarshal_string k = Some name"
  obtains b where "k = CHR 0x22 # b @ [CHR 0x22]" "str_body b" "unquote_loop b = Some name"
  using Unmarshal_SomeD [OF assms] assms by auto

lemma pmembers_last:
  assumes "Unmarshal_string k = Some name" and "parses n v j" and "ws a" and "ws b" and "ws c" and "n \<le> m"
    and "v = x # v'" and "\<not> is_ws x"
    and "2 * length (k @ a @ CHR '':'' # b @ v @ c @ CHR ''}'' # t) + 2 \<le> f"
  shows "pmembers f m (k @ a @ CHR '':'' # b @ v @ c @ CHR ''}'' # t) = Some ([(name, j)], t)"
proof -
  obtain kb where kb: "k = CHR 0x22 # kb @ [CHR 0x22]" "str_body kb" "unquote_loop kb = Some name" by (rule member_key [OF assms(1)])
  obtain f' where f: "f = Suc f'" using assms(9) by (cases f) auto
  have "pvalue f' m (v @ c @ CHR ''}'' # t) = Some (j, c @ CHR ''}'' # t)"
    using assms delim_ws [OF assms(5)] f by (intro parsesD) auto
  moreover have "dropWhile is_ws (b @ v @ c @ CHR ''}'' # t) = v @ c @ CHR ''}'' # t" using skip_ws_over [OF assms(4,8)] assms(7) by simp
  ultimately show ?thesis using skip_ws_over [OF assms(3)] skip_ws_over [OF assms(5)] kb(3) lit_body_complete [OF kb(2)]
    by (simp only: f pmembers_Suc kb(1)) (simp add: members_body_def)
qed

lemma pmembers_more:
  assumes "Unmarshal_string k = Some name" and "parses n v j" and "ws a" and "ws b" and "ws c" and "n \<le> m"
    and "v = x # v'" and "\<not> is_ws x" and "ws e" and "w = y # w'" and "\<not> is_ws y"
    and "2 * length (k @ a @ CHR '':'' # b @ v @ c @ CHR '','' # e @ w @ t) + 2 \<le> f"
    and "\<And>f. 2 * length (w @ t) + 2 \<le> f \<Longrightarrow> pmembers f m (w @ t) = Some (ms, t)"
  shows "pmembers f m (k @ a @ CHR '':'' # b @ v @ c @ CHR '','' # e @ w @ t) = Some ((name, j) # ms, t)"
proof -
  let ?r = "c @ CHR '','' # e @ w @ t"
  obtain kb where kb: "k = CHR 0x22 # kb @ [CHR 0x22]" "str_body kb" "unquote_loop kb = Some name" by (rule member_key [OF assms(1)])
  obtain f' where f: "f = Suc f'" using assms(12) by (cases f) auto
  have "pvalue f' m (v @ ?r) = Some (j, ?r)"
    using assms(2,5,6,12) delim_ws [OF assms(5)] f by (intro parsesD) auto
  moreover have "dropWhile is_ws (b @ v @ ?r) = v @ ?r" using skip_ws_over [OF assms(4,8)] assms(7) by simp
  moreover have "dropWhile is_ws (e @ w @ t) = w @ t" using skip_ws_over [OF assms(9,11)] assms(10) by simp
  moreover have "pmembers f' m (w @ t) = Some (ms, t)" using assms(12) f by (intro assms(13)) auto
  ultimately show ?thesis using skip_ws_over [OF assms(3)] skip_ws_over [OF assms(5)] kb(3) lit_body_complete [OF kb(2)]
    by (simp only: f pmembers_Suc kb(1)) (simp add: members_body_def)
qed

text \<open>What a text of each syntactic class is parsed to.\<close>

definition elems_parse :: "nat \<Rightarrow> string list \<Rightarrow> string \<Rightarrow> bool" where
  "elems_parse n vs w \<longleftrightarrow> (\<exists>c w'. w = c # w' \<and> \<not> is_ws c \<and> c \<noteq> CHR '']'') \<and> (\<exists>js. elem_trees n vs js \<and>
     (\<forall>t f m. n \<le> m \<longrightarrow> 2 * length (w @ t) + 2 \<le> f \<longrightarrow> pelems f m (w @ t) = Some (js, t)))"

definition members_parse :: "nat \<Rightarrow> string set \<Rightarrow> Field list \<Rightarrow> string \<Rightarrow> bool" where
  "members_parse n K fs w \<longleftrightarrow> distinct (map fd_Key fs) \<and> set (map fd_Key fs) \<inter> K = {} \<and> (\<exists>c w'. w = c # w' \<and> \<not> is_ws c \<and> c \<noteq> CHR ''}'') \<and> (\<exists>ms. member_trees n fs ms \<and>
     (\<forall>t f m. n \<le> m \<longrightarrow> 2 * length (w @ t) + 2 \<le> f \<longrightarrow> pmembers f m (w @ t) = Some (ms, t)))"

definition array_parse :: "nat \<Rightarrow> string list \<Rightarrow> string \<Rightarrow> bool" where
  "array_parse n vs w \<longleftrightarrow> (\<exists>js k. n = Suc k \<and> elem_trees k vs js \<and> parses n w (JArray w js))"

definition object_parse :: "nat \<Rightarrow> Field list \<Rightarrow> string \<Rightarrow> bool" where
  "object_parse n fs w \<longleftrightarrow> (\<exists>ms k. n = Suc k \<and> member_trees k fs ms \<and> parses n w (JObject w ms))"

lemma elem_trees_walk: "elem_trees n vs js \<Longrightarrow> list_all walk js"
  by (induction rule: list_all2_induct) (auto simp: parses_def)

lemma member_trees_walk: "member_trees n fs ms \<Longrightarrow> list_all (\<lambda>kj. walk (snd kj)) ms \<and> map fst ms = map fd_Key fs"
  by (induction rule: list_all2_induct) (auto simp: parses_def)

lemma array_parseI:
  assumes "ws a" and "elems_parse n vs w"
  shows "array_parse (Suc n) vs (CHR ''['' # a @ w)"
proof -
  obtain c w' js where w: "w = c # w'" "\<not> is_ws c" "c \<noteq> CHR '']''" and js: "elem_trees n vs js"
    and r: "\<And>t f m. n \<le> m \<Longrightarrow> 2 * length (w @ t) + 2 \<le> f \<Longrightarrow> pelems f m (w @ t) = Some (js, t)"
    using assms(2) unfolding elems_parse_def by blast
  let ?w = "CHR ''['' # a @ w"
  have "pvalue f m (?w @ t) = Some (JArray ?w js, t)" if m: "Suc n \<le> m" and f: "2 * length (?w @ t) + 1 \<le> f" for t f m
  proof -
    obtain f' where f': "f = Suc f'" "2 * length (w @ t) + 2 \<le> f'" using f by (cases f) auto
    have "dropWhile is_ws (a @ w @ t) = w @ t" using skip_ws_over [OF assms(1) w(2)] w(1) by simp
    moreover have "pelems f' (m - 1) (w @ t) = Some (js, t)" using m f'(2) by (intro r) auto
    moreover have "\<not> starts CHR '']'' (w @ t)" using w by simp
    ultimately show ?thesis using m upto_append(1) [of ?w t] by (simp only: f'(1) pvalue_Suc) (simp add: value_body_def Let_def)
  qed
  then have "parses (Suc n) ?w (JArray ?w js)" using elem_trees_walk [OF js] by (intro parsesI) (auto simp: is_ws_def)
  then show ?thesis using js unfolding array_parse_def by blast
qed

lemma object_parseI:
  assumes "ws a" and "members_parse n {} fs w"
  shows "object_parse (Suc n) fs (CHR ''{'' # a @ w)"
proof -
  obtain c w' ms where w: "w = c # w'" "\<not> is_ws c" "c \<noteq> CHR ''}''" and ms: "member_trees n fs ms" "distinct (map fd_Key fs)"
    and r: "\<And>t f m. n \<le> m \<Longrightarrow> 2 * length (w @ t) + 2 \<le> f \<Longrightarrow> pmembers f m (w @ t) = Some (ms, t)"
    using assms(2) unfolding members_parse_def by blast
  let ?w = "CHR ''{'' # a @ w"
  have "pvalue f m (?w @ t) = Some (JObject ?w ms, t)" if m: "Suc n \<le> m" and f: "2 * length (?w @ t) + 1 \<le> f" for t f m
  proof -
    obtain f' where f': "f = Suc f'" "2 * length (w @ t) + 2 \<le> f'" using f by (cases f) auto
    have "dropWhile is_ws (a @ w @ t) = w @ t" using skip_ws_over [OF assms(1) w(2)] w(1) by simp
    moreover have "pmembers f' (m - 1) (w @ t) = Some (ms, t)" using m f'(2) by (intro r) auto
    moreover have "\<not> starts CHR ''}'' (w @ t)" using w by simp
    ultimately show ?thesis using m upto_append(1) [of ?w t] by (simp only: f'(1) pvalue_Suc) (simp add: value_body_def Let_def)
  qed
  then have "parses (Suc n) ?w (JObject ?w ms)" using member_trees_walk [OF ms(1)] ms(2) by (intro parsesI) (auto simp: is_ws_def)
  then show ?thesis using ms(1) unfolding object_parse_def by blast
qed

lemma empty_parse:
  assumes "ws a"
  shows "array_parse (Suc n) [] (CHR ''['' # a @ '']'')" "object_parse (Suc n) [] (CHR ''{'' # a @ ''}'')"
proof -
  have "pvalue f m ((CHR ''['' # a @ '']'') @ t) = Some (JArray (CHR ''['' # a @ '']'') [], t)"
    if m: "Suc n \<le> m" and f: "2 * length ((CHR ''['' # a @ '']'') @ t) + 1 \<le> f" for t f m
  proof -
    obtain f' where "f = Suc f'" using f by (cases f) auto
    then show ?thesis using m skip_ws_over [OF assms, of "CHR '']''" t] upto_append(1) [of "CHR ''['' # a @ '']''" t]
      by (simp only: pvalue_Suc) (simp add: value_body_def Let_def)
  qed
  then have "parses (Suc n) (CHR ''['' # a @ '']'') (JArray (CHR ''['' # a @ '']'') [])" by (rule parsesI) (auto simp: is_ws_def)
  then show "array_parse (Suc n) [] (CHR ''['' # a @ '']'')" unfolding array_parse_def by blast
  have "pvalue f m ((CHR ''{'' # a @ ''}'') @ t) = Some (JObject (CHR ''{'' # a @ ''}'') [], t)"
    if m: "Suc n \<le> m" and f: "2 * length ((CHR ''{'' # a @ ''}'') @ t) + 1 \<le> f" for t f m
  proof -
    obtain f' where "f = Suc f'" using f by (cases f) auto
    then show ?thesis using m skip_ws_over [OF assms, of "CHR ''}''" t] upto_append(1) [of "CHR ''{'' # a @ ''}''" t]
      by (simp only: pvalue_Suc) (simp add: value_body_def Let_def)
  qed
  then have "parses (Suc n) (CHR ''{'' # a @ ''}'') (JObject (CHR ''{'' # a @ ''}'') [])" by (rule parsesI) (auto simp: is_ws_def)
  then show "object_parse (Suc n) [] (CHR ''{'' # a @ ''}'')" unfolding object_parse_def by blast
qed

lemma json_parse:
  "json_value W n w \<Longrightarrow> (\<And>a. W a \<Longrightarrow> ws a) \<Longrightarrow> \<exists>j. parses n w j"
  "json_array W n vs w \<Longrightarrow> (\<And>a. W a \<Longrightarrow> ws a) \<Longrightarrow> array_parse n vs w"
  "json_elems W n vs w \<Longrightarrow> (\<And>a. W a \<Longrightarrow> ws a) \<Longrightarrow> elems_parse n vs w"
  "json_object W n fs w \<Longrightarrow> (\<And>a. W a \<Longrightarrow> ws a) \<Longrightarrow> object_parse n fs w"
  "json_members W n K fs w \<Longrightarrow> (\<And>a. W a \<Longrightarrow> ws a) \<Longrightarrow> members_parse n K fs w"
proof (induction rule: json_value_json_array_json_elems_json_object_json_members.inducts)
  case (v_lit w n)
  then show ?case using lit_parses by blast
next
  case (v_num w n)
  then show ?case using num_parses by blast
next
  case (v_str w n)
  then show ?case using str_parses by blast
next
  case (v_arr n vs w)
  then show ?case unfolding array_parse_def by blast
next
  case (v_obj n fs w)
  then show ?case unfolding object_parse_def by blast
next
  case (a_nil a n)
  then show ?case using empty_parse(1) by blast
next
  case (a_cons a n vs w)
  then show ?case using array_parseI by blast
next
  case (e_last n v a)
  then obtain j where j: "parses n v j" by blast
  have "ws a" using e_last by blast
  then have "pelems f m ((v @ a @ '']'') @ t) = Some ([j], t)" if "n \<le> m" "2 * length ((v @ a @ '']'') @ t) + 2 \<le> f" for t f m
    using that pelems_last [OF j] by simp
  moreover obtain c v' where "v = c # v'" "\<not> is_ws c" "c \<noteq> CHR '']''" using json_first [OF e_last(1)] by blast
  ultimately show ?case unfolding elems_parse_def using j by (intro conjI exI [of _ "[j]"]) simp_all
next
  case (e_more n v a b vs w)
  then obtain j js where j: "parses n v j" and js: "elem_trees n vs js"
      "\<And>t f m. n \<le> m \<Longrightarrow> 2 * length (w @ t) + 2 \<le> f \<Longrightarrow> pelems f m (w @ t) = Some (js, t)" unfolding elems_parse_def by blast
  obtain y w' where y: "w = y # w'" "\<not> is_ws y" using e_more unfolding elems_parse_def by blast
  have "ws a" "ws b" using e_more by blast+
  then have "pelems f m ((v @ a @ CHR '','' # b @ w) @ t) = Some (j # js, t)"
    if "n \<le> m" "2 * length ((v @ a @ CHR '','' # b @ w) @ t) + 2 \<le> f" for t f m
    using that pelems_more [OF j _ _ _ y, of a b m t f js] js(2) by simp
  moreover obtain c v' where "v = c # v'" "\<not> is_ws c" "c \<noteq> CHR '']''" using json_first [OF e_more(1)] by blast
  ultimately show ?case unfolding elems_parse_def using j js(1) by (intro conjI exI [of _ "j # js"]) simp_all
next
  case (o_nil a n)
  then show ?case using empty_parse(2) by blast
next
  case (o_cons a n fs w)
  then show ?case using object_parseI by blast
next
  case (m_last k name K a b n v c)
  then obtain j where j: "parses n v j" by blast
  obtain x v' where x: "v = x # v'" "\<not> is_ws x" using json_first [OF m_last(5)] by blast
  have "ws a" "ws b" "ws c" using m_last by blast+
  then have "pmembers f m ((k @ a @ CHR '':'' # b @ v @ c @ ''}'') @ t) = Some ([(name, j)], t)"
    if "n \<le> m" "2 * length ((k @ a @ CHR '':'' # b @ v @ c @ ''}'') @ t) + 2 \<le> f" for t f m
    using that pmembers_last [OF m_last(1) j _ _ _ _ x, of a b c m t f] by simp
  moreover obtain k' where "k = CHR 0x22 # k'" using quoted_first [OF m_last(1)] by blast
  ultimately show ?case unfolding members_parse_def using j m_last(2) by (intro conjI exI [of _ "[(name, j)]"]) simp_all
next
  case (m_more k name K a b n v c e fs w)
  then obtain j ms where j: "parses n v j" and ms: "member_trees n fs ms"
      "\<And>t f m. n \<le> m \<Longrightarrow> 2 * length (w @ t) + 2 \<le> f \<Longrightarrow> pmembers f m (w @ t) = Some (ms, t)"
      "distinct (map fd_Key fs)" "set (map fd_Key fs) \<inter> insert name K = {}" unfolding members_parse_def by blast
  obtain x v' where x: "v = x # v'" "\<not> is_ws x" using json_first [OF m_more(5)] by blast
  obtain y w' where y: "w = y # w'" "\<not> is_ws y" using m_more unfolding members_parse_def by blast
  have "ws a" "ws b" "ws c" "ws e" using m_more by blast+
  then have "pmembers f m ((k @ a @ CHR '':'' # b @ v @ c @ CHR '','' # e @ w) @ t) = Some ((name, j) # ms, t)"
    if "n \<le> m" "2 * length ((k @ a @ CHR '':'' # b @ v @ c @ CHR '','' # e @ w) @ t) + 2 \<le> f" for t f m
    using that pmembers_more [OF m_more(1) j _ _ _ _ x _ y, of a b c m e t f ms] ms(2) by simp
  moreover obtain k' where "k = CHR 0x22 # k'" using quoted_first [OF m_more(1)] by blast
  ultimately show ?case unfolding members_parse_def using j ms(1,3,4) m_more(2)
    by (intro conjI exI [of _ "(name, j) # ms"]) auto
qed

text \<open>Whole documents.\<close>

lemma document_parse:
  assumes "document raw w" and "parses n w j" and "n \<le> maxNestingDepth"
  shows "parse_document raw = Some j"
proof -
  obtain a b where r: "raw = a @ w @ b" "ws a" "ws b" using assms(1) by (auto simp: document_def)
  obtain c w' where c: "w = c # w'" "\<not> is_ws c" using assms(2) by (cases w) (auto simp: parses_def)
  have "dropWhile is_ws raw = w @ b" using skip_ws_over [OF r(2) c(2)] by (simp add: r(1) c(1))
  moreover have "pvalue (parse_fuel raw) maxNestingDepth (w @ b) = Some (j, b)"
    by (rule parsesD [OF assms(2) ws_delim [OF r(3)] assms(3)]) (simp add: parse_fuel_def r(1))
  moreover have "dropWhile is_ws b = []" using r(3) by (simp add: ws_def list_all_iff)
  ultimately show ?thesis by (simp add: parse_document_def parse_first_def)
qed

lemma parses_document: "parses n w j \<Longrightarrow> n \<le> maxNestingDepth \<Longrightarrow> parse_document w = Some j \<and> raw_of j = w"
proof -
  have "document w w" unfolding document_def by (intro exI [of _ "[]"]) (simp add: ws_def)
  then show "parses n w j \<Longrightarrow> n \<le> maxNestingDepth \<Longrightarrow> parse_document w = Some j \<and> raw_of j = w"
    by (auto dest: document_parse simp: parses_def)
qed

lemma MaxDepth_nested: "Suc k = MaxDepth \<Longrightarrow> k \<le> maxNestingDepth" "MaxDepth \<le> maxNestingDepth"
  by (simp_all add: MaxDepth_def maxNestingDepth_def)

text \<open>The members \<^verbatim>\<open>Fields\<close> answers are the members the decoder sees, in the same order: each key is the
  decoded key and each value, read on its own, is the tree the decoder reads in its place.\<close>

lemma Fields_parse:
  assumes "Fields raw = Some (Some fs)"
  obtains w ms where "parse_document raw = Some (JObject w ms)" "walk (JObject w ms)" "distinct (map fd_Key fs)"
    "list_all2 (\<lambda>fd kj. fst kj = fd_Key fd \<and> raw_of (snd kj) = fd_Value fd \<and> parse_document (fd_Value fd) = Some (snd kj)) fs ms"
proof -
  obtain w where w: "document raw w" "json_object ws MaxDepth fs w" using Fields_grammar [of raw] assms by auto
  obtain ms k where ms: "MaxDepth = Suc k" "member_trees k fs ms" "parses MaxDepth w (JObject w ms)"
    using json_parse(4) [OF w(2)] unfolding object_parse_def by blast
  have k: "k \<le> maxNestingDepth" using ms(1) MaxDepth_nested(1) by simp
  have "list_all2 (\<lambda>fd kj. fst kj = fd_Key fd \<and> raw_of (snd kj) = fd_Value fd \<and> parse_document (fd_Value fd) = Some (snd kj)) fs ms"
    by (rule list_all2_mono [OF ms(2)]) (use parses_document [OF _ k] in blast)
  moreover have "walk (JObject w ms)" using ms(3) by (simp add: parses_def)
  moreover from this have "distinct (map fd_Key fs)" using member_trees_walk [OF ms(2)] by simp
  ultimately show ?thesis using that document_parse [OF w(1) ms(3) MaxDepth_nested(2)] by blast
qed

text \<open>
  C24. What \<^verbatim>\<open>Valid\<close> admits, the specification it stands in front of admits too: \<^verbatim>\<open>encoding/json\<close> reads
  the text as one document, and the token walk of \<^verbatim>\<open>rejectDuplicateJSONKeys\<close> finds no repeated key and no
  number out of range in it.
\<close>
theorem Valid_refuses_what_walk_refuses:
  "Valid raw = Some True \<Longrightarrow> \<exists>j. parse_document raw = Some j \<and> walk j"
proof -
  assume "Valid raw = Some True"
  then obtain w where w: "document raw w" "json_value ws MaxDepth w" using Valid_grammar [of raw] by auto
  obtain j where "parses MaxDepth w j" using json_parse(1) [OF w(2)] by blast
  then show ?thesis using document_parse [OF w(1) _ MaxDepth_nested(2)] by (auto simp: parses_def)
qed

text \<open>The document of the witness: \<^verbatim>\<open>{"a":[1,true]}\<close>.\<close>

theorem Valid_refuses_what_walk_refuses_witness:
  "Valid (CHR ''{'' # CHR 0x22 # CHR ''a'' # CHR 0x22 # '':[1,true]}'') = Some True
   \<and> (\<exists>j. parse_document (CHR ''{'' # CHR 0x22 # CHR ''a'' # CHR 0x22 # '':[1,true]}'') = Some j \<and> walk j)"
proof -
  have v: "Valid (CHR ''{'' # CHR 0x22 # CHR ''a'' # CHR 0x22 # '':[1,true]}'') = Some True" by code_simp
  then show ?thesis using Valid_refuses_what_walk_refuses [OF v] by blast
qed

end
