(* ===== verification/Plugin_Frame.thy ===== *)
theory Plugin_Frame
  imports Strictjson_Decode
begin

text \<open>
  The decoding of runtime frames: the structs of \<^verbatim>\<open>src/plugin/runtime.go\<close> and \<^verbatim>\<open>src/plugin/host.go\<close> that
  arrive as JSON, the fast decoders of \<^verbatim>\<open>src/plugin/frame_fast.go\<close> and the \<^verbatim>\<open>encoding/json\<close> path
  (\<^verbatim>\<open>strictDecodeFrame\<close>, \<^verbatim>\<open>rejectDuplicateJSONKeys\<close>) they stand in front of. A \<^verbatim>\<open>json.RawMessage\<close> is its
  bytes, nil and empty alike; a \<^verbatim>\<open>uint64\<close> is a natural number below \<open>2 ^ 64\<close>. The fast decoders are
  shown to change no answer.

  A decoder that fails answers \<open>None\<close>; every caller turns that into an error of its own. The
  outer \<open>None\<close> of \<open>Fields\<close> and \<open>Valid\<close>, running out of fuel, never occurs (\<open>Fields_grammar\<close>,
  \<open>Valid_grammar\<close>).
\<close>

section \<open>The structs\<close>

record Request_plugin =
  rq_Action :: string
  rq_Service :: string
  rq_Method :: string
  rq_Payload :: string

record CallPayload =
  cp_Service :: string
  cp_Method :: string
  cp_Payload :: string

record invokeV2Frame =
  iv_Protocol :: int
  iv_Kind :: string
  iv_Generation :: nat
  iv_InvocationID :: string
  iv_Request :: "Request_plugin option"

record strictHostResponsePayload =
  hp_ID :: string
  hp_OK :: string
  hp_Result :: string
  hp_Error :: string

record strictHostResponseEnvelope =
  sr_Protocol :: nat
  sr_Kind :: string
  sr_Generation :: nat
  sr_InvocationID :: string
  sr_HostCallID :: string
  sr_HostResponse :: strictHostResponsePayload

definition zero_Request :: Request_plugin where
  "zero_Request = \<lparr>rq_Action = [], rq_Service = [], rq_Method = [], rq_Payload = []\<rparr>"

definition zero_CallPayload :: CallPayload where
  "zero_CallPayload = \<lparr>cp_Service = [], cp_Method = [], cp_Payload = []\<rparr>"

definition zero_invokeV2Frame :: invokeV2Frame where
  "zero_invokeV2Frame = \<lparr>iv_Protocol = 0, iv_Kind = [], iv_Generation = 0, iv_InvocationID = [], iv_Request = None\<rparr>"

definition zero_strictHostResponsePayload :: strictHostResponsePayload where
  "zero_strictHostResponsePayload = \<lparr>hp_ID = [], hp_OK = [], hp_Result = [], hp_Error = []\<rparr>"

definition zero_strictHostResponseEnvelope :: strictHostResponseEnvelope where
  "zero_strictHostResponseEnvelope = \<lparr>sr_Protocol = 0, sr_Kind = [], sr_Generation = 0, sr_InvocationID = [],
     sr_HostCallID = [], sr_HostResponse = zero_strictHostResponsePayload\<rparr>"

text \<open>The fields the structs' tags name, as \<^verbatim>\<open>encoding/json\<close> stores them.\<close>

definition request_fields :: "(string \<times> Request_plugin store) list" where
  "request_fields =
     [(''action'', store_string (\<lambda>s. rq_Action_update (\<lambda>_. s))),
      (''service'', store_string (\<lambda>s. rq_Service_update (\<lambda>_. s))),
      (''method'', store_string (\<lambda>s. rq_Method_update (\<lambda>_. s))),
      (''payload'', store_raw (\<lambda>s. rq_Payload_update (\<lambda>_. s)))]"

definition call_fields :: "(string \<times> CallPayload store) list" where
  "call_fields =
     [(''service'', store_string (\<lambda>s. cp_Service_update (\<lambda>_. s))),
      (''method'', store_string (\<lambda>s. cp_Method_update (\<lambda>_. s))),
      (''payload'', store_raw (\<lambda>s. cp_Payload_update (\<lambda>_. s)))]"

definition invoke_fields :: "(string \<times> invokeV2Frame store) list" where
  "invoke_fields =
     [(''protocol'', store_int (\<lambda>n. iv_Protocol_update (\<lambda>_. n))),
      (''kind'', store_string (\<lambda>s. iv_Kind_update (\<lambda>_. s))),
      (''generation'', store_uint (\<lambda>n. iv_Generation_update (\<lambda>_. n))),
      (''invocation_id'', store_string (\<lambda>s. iv_InvocationID_update (\<lambda>_. s))),
      (''request'', store_ptr iv_Request (\<lambda>q. iv_Request_update (\<lambda>_. q)) zero_Request (store_struct request_fields True))]"

definition response_fields :: "(string \<times> strictHostResponsePayload store) list" where
  "response_fields =
     [(''id'', store_raw (\<lambda>s. hp_ID_update (\<lambda>_. s))),
      (''ok'', store_raw (\<lambda>s. hp_OK_update (\<lambda>_. s))),
      (''result'', store_raw (\<lambda>s. hp_Result_update (\<lambda>_. s))),
      (''error'', store_raw (\<lambda>s. hp_Error_update (\<lambda>_. s)))]"

text \<open>A struct field: the value is stored into the field it has.\<close>

definition store_field :: "('r \<Rightarrow> 'a) \<Rightarrow> ('a \<Rightarrow> 'r \<Rightarrow> 'r) \<Rightarrow> 'a store \<Rightarrow> 'r store" where
  "store_field get upd st r j = map_option (\<lambda>x. upd x r) (st (get r) j)"

definition envelope_fields :: "(string \<times> strictHostResponseEnvelope store) list" where
  "envelope_fields =
     [(''protocol'', store_uint (\<lambda>n. sr_Protocol_update (\<lambda>_. n))),
      (''kind'', store_string (\<lambda>s. sr_Kind_update (\<lambda>_. s))),
      (''generation'', store_uint (\<lambda>n. sr_Generation_update (\<lambda>_. n))),
      (''invocation_id'', store_string (\<lambda>s. sr_InvocationID_update (\<lambda>_. s))),
      (''host_call_id'', store_string (\<lambda>s. sr_HostCallID_update (\<lambda>_. s))),
      (''host_response'', store_field sr_HostResponse (\<lambda>p. sr_HostResponse_update (\<lambda>_. p)) (store_struct response_fields True))]"

section \<open>The helpers of json.go\<close>

text \<open>The dynamic values \<^verbatim>\<open>rawJSON\<close> (\<^verbatim>\<open>src/plugin/json.go\<close>) tells apart: nil, a raw message, and any other
  value, which is what \<^verbatim>\<open>json.Marshal\<close> makes of it, or its error.\<close>

datatype dynamic = AnyNil | AnyRaw string | AnyValue "string + string"

definition rawJSON :: "dynamic \<Rightarrow> string + string" where
  "rawJSON v = (case v of AnyNil \<Rightarrow> Inr [] | AnyRaw raw \<Rightarrow> Inr raw | AnyValue m \<Rightarrow> m)"

text \<open>\<^verbatim>\<open>decodeStrict\<close>: one document, every name known. Repeated keys are not refused: the last one wins.\<close>

definition decodeStrict :: "(string \<times> 'r store) list \<Rightarrow> 'r \<Rightarrow> string \<Rightarrow> 'r option" where
  "decodeStrict fs dst raw = Unmarshal (store_struct fs True) dst raw"

section \<open>The encoding/json path\<close>

text \<open>Whether the frame passes the check for repeated keys. The walk reads the first value of the text
  at any depth; a text with no first value is refused.\<close>

definition rejectDuplicateJSONKeys :: "string \<Rightarrow> bool" where
  "rejectDuplicateJSONKeys raw \<longleftrightarrow>
     Valid raw = Some True \<or> (case parse_first (length raw) raw of None \<Rightarrow> False | Some (j, _) \<Rightarrow> walk j)"

definition strictDecodeFrame :: "'r store \<Rightarrow> 'r \<Rightarrow> string \<Rightarrow> 'r option" where
  "strictDecodeFrame st dst raw =
     (if \<not> rejectDuplicateJSONKeys raw then None
      else case parse_document raw of None \<Rightarrow> None | Some j \<Rightarrow> st dst j)"

section \<open>The fast path\<close>

definition strictMembers :: "string \<Rightarrow> string list \<Rightarrow> (string \<times> string) list option" where
  "strictMembers raw names =
     (case Fields raw of
        Some (Some fs) \<Rightarrow>
          if list_all (\<lambda>f. fd_Key f \<in> set names) fs
          then Some (map (\<lambda>f. (fd_Key f, fd_Value f)) fs) else None
      | _ \<Rightarrow> None)"

text \<open>The kinds of target of \<^verbatim>\<open>decodeMembers\<close>: a raw message, a string, anything else.\<close>

datatype 'r target =
    ToRaw "string \<Rightarrow> 'r \<Rightarrow> 'r"
  | ToString "'r \<Rightarrow> string" "string \<Rightarrow> 'r \<Rightarrow> 'r"
  | ToValue "'r store"

definition decode_member :: "'r target \<Rightarrow> 'r \<Rightarrow> string \<Rightarrow> 'r option" where
  "decode_member t r v =
     (case t of
        ToRaw upd \<Rightarrow> Some (upd v r)
      | ToString get upd \<Rightarrow> (case StringInto v (get r) of (s, ok) \<Rightarrow> if ok then Some (upd s r) else None)
      | ToValue st \<Rightarrow> Unmarshal st r v)"

text \<open>The members are visited in document order; the source ranges over a map, and since each key has
  its own target the order does not matter.\<close>

fun decodeMembers :: "(string \<times> 'r target) list \<Rightarrow> 'r \<Rightarrow> (string \<times> string) list \<Rightarrow> 'r option" where
  "decodeMembers targets r [] = Some r"
| "decodeMembers targets r ((k, v) # ms) =
     (case map_of targets k of
        None \<Rightarrow> None
      | Some t \<Rightarrow>
          (case decode_member t r v of
             None \<Rightarrow> None
           | Some r' \<Rightarrow> decodeMembers targets r' ms))"

definition request_targets :: "(string \<times> Request_plugin target) list" where
  "request_targets =
     [(''action'', ToString rq_Action (\<lambda>s. rq_Action_update (\<lambda>_. s))),
      (''service'', ToString rq_Service (\<lambda>s. rq_Service_update (\<lambda>_. s))),
      (''method'', ToString rq_Method (\<lambda>s. rq_Method_update (\<lambda>_. s))),
      (''payload'', ToRaw (\<lambda>s. rq_Payload_update (\<lambda>_. s)))]"

definition invoke_targets :: "(string \<times> invokeV2Frame target) list" where
  "invoke_targets =
     [(''protocol'', ToValue (store_int (\<lambda>n. iv_Protocol_update (\<lambda>_. n)))),
      (''kind'', ToString iv_Kind (\<lambda>s. iv_Kind_update (\<lambda>_. s))),
      (''generation'', ToValue (store_uint (\<lambda>n. iv_Generation_update (\<lambda>_. n)))),
      (''invocation_id'', ToString iv_InvocationID (\<lambda>s. iv_InvocationID_update (\<lambda>_. s)))]"

definition decodeInvokeV2Fast :: "string \<Rightarrow> invokeV2Frame option" where
  "decodeInvokeV2Fast raw =
     (case strictMembers raw [''protocol'', ''kind'', ''generation'', ''invocation_id'', ''request''] of
        None \<Rightarrow> None
      | Some members \<Rightarrow>
          (case map_of members ''request'' of
             None \<Rightarrow> decodeMembers invoke_targets zero_invokeV2Frame members
           | Some request \<Rightarrow>
               (case strictMembers request [''action'', ''service'', ''method'', ''payload''] of
                  None \<Rightarrow> None
                | Some inner \<Rightarrow>
                    (case decodeMembers request_targets zero_Request inner of
                       None \<Rightarrow> None
                     | Some req \<Rightarrow>
                         decodeMembers invoke_targets (zero_invokeV2Frame\<lparr>iv_Request := Some req\<rparr>)
                           (filter (\<lambda>kv. fst kv \<noteq> ''request'') members)))))"

definition response_targets :: "(string \<times> strictHostResponsePayload target) list" where
  "response_targets =
     [(''id'', ToRaw (\<lambda>s. hp_ID_update (\<lambda>_. s))),
      (''ok'', ToRaw (\<lambda>s. hp_OK_update (\<lambda>_. s))),
      (''result'', ToRaw (\<lambda>s. hp_Result_update (\<lambda>_. s))),
      (''error'', ToRaw (\<lambda>s. hp_Error_update (\<lambda>_. s)))]"

definition envelope_targets :: "(string \<times> strictHostResponseEnvelope target) list" where
  "envelope_targets =
     [(''protocol'', ToValue (store_uint (\<lambda>n. sr_Protocol_update (\<lambda>_. n)))),
      (''kind'', ToString sr_Kind (\<lambda>s. sr_Kind_update (\<lambda>_. s))),
      (''generation'', ToValue (store_uint (\<lambda>n. sr_Generation_update (\<lambda>_. n)))),
      (''invocation_id'', ToString sr_InvocationID (\<lambda>s. sr_InvocationID_update (\<lambda>_. s))),
      (''host_call_id'', ToString sr_HostCallID (\<lambda>s. sr_HostCallID_update (\<lambda>_. s)))]"

definition decodeHostResponseFast :: "string \<Rightarrow> strictHostResponseEnvelope option" where
  "decodeHostResponseFast raw =
     (case strictMembers raw [''protocol'', ''kind'', ''generation'', ''invocation_id'', ''host_call_id'', ''host_response''] of
        None \<Rightarrow> None
      | Some members \<Rightarrow>
          (case map_of members ''host_response'' of
             None \<Rightarrow> decodeMembers envelope_targets zero_strictHostResponseEnvelope members
           | Some response \<Rightarrow>
               (case strictMembers response [''id'', ''ok'', ''result'', ''error''] of
                  None \<Rightarrow> None
                | Some inner \<Rightarrow>
                    (case decodeMembers response_targets zero_strictHostResponsePayload inner of
                       None \<Rightarrow> None
                     | Some p \<Rightarrow>
                         decodeMembers envelope_targets (zero_strictHostResponseEnvelope\<lparr>sr_HostResponse := p\<rparr>)
                           (filter (\<lambda>kv. fst kv \<noteq> ''host_response'') members)))))"

definition call_targets :: "(string \<times> CallPayload target) list" where
  "call_targets =
     [(''service'', ToString cp_Service (\<lambda>s. cp_Service_update (\<lambda>_. s))),
      (''method'', ToString cp_Method (\<lambda>s. cp_Method_update (\<lambda>_. s))),
      (''payload'', ToRaw (\<lambda>s. cp_Payload_update (\<lambda>_. s)))]"

definition callPayloadFast :: "string \<Rightarrow> CallPayload option" where
  "callPayloadFast raw =
     (case strictMembers raw [''service'', ''method'', ''payload''] of
        None \<Rightarrow> None
      | Some members \<Rightarrow> decodeMembers call_targets zero_CallPayload members)"

section \<open>The decoders the runtime calls\<close>

text \<open>\<^verbatim>\<open>Request.CallPayload\<close>: \<open>None\<close> is its decode error.\<close>

definition Request_CallPayload :: "Request_plugin \<Rightarrow> CallPayload option" where
  "Request_CallPayload r =
     (if rq_Service r \<noteq> [] \<or> rq_Method r \<noteq> [] then
        Some \<lparr>cp_Service = rq_Service r, cp_Method = rq_Method r, cp_Payload = rq_Payload r\<rparr>
      else if rq_Payload r = [] then Some zero_CallPayload
      else case callPayloadFast (rq_Payload r) of
        Some fast \<Rightarrow> Some fast
      | None \<Rightarrow> Unmarshal (store_struct call_fields False) zero_CallPayload (rq_Payload r))"

definition DefaultMaxRequestBytes :: int where "DefaultMaxRequestBytes = 2 ^ 20"

definition validInvocationID :: "string \<Rightarrow> bool" where
  "validInvocationID i \<longleftrightarrow> (case ParseInt i of None \<Rightarrow> False | Some n \<Rightarrow> n > 0 \<and> FormatInt n = i)"

definition validHostCallID :: "string \<Rightarrow> bool" where
  "validHostCallID i \<longleftrightarrow>
     2 \<le> length i \<and> hd i = CHR ''h'' \<and>
     (case ParseUint (tl i) of None \<Rightarrow> False | Some n \<Rightarrow> n > 0 \<and> CHR ''h'' # dec n = i)"

definition invoke_frame_ok :: "nat \<Rightarrow> invokeV2Frame \<Rightarrow> bool" where
  "invoke_frame_ok generation f \<longleftrightarrow>
     iv_Protocol f = 2 \<and> iv_Kind f = ''invoke'' \<and> iv_Generation f \<noteq> 0 \<and> iv_Generation f = generation \<and>
     validInvocationID (iv_InvocationID f) \<and> iv_Request f \<noteq> None"

definition decodeInvokeV2 :: "string \<Rightarrow> nat \<Rightarrow> int \<Rightarrow> invokeV2Frame option" where
  "decodeInvokeV2 raw generation maxBytes =
     (let limit = (if maxBytes \<le> 0 then DefaultMaxRequestBytes else maxBytes) in
      if int (length raw) > limit then None
      else
        case (case decodeInvokeV2Fast raw of
                Some f \<Rightarrow> Some f
              | None \<Rightarrow> strictDecodeFrame (store_struct invoke_fields True) zero_invokeV2Frame raw) of
          None \<Rightarrow> None
        | Some f \<Rightarrow> if invoke_frame_ok generation f then Some f else None)"

definition decode_host_response :: "string \<Rightarrow> strictHostResponseEnvelope option" where
  "decode_host_response raw =
     (case decodeHostResponseFast raw of
        Some f \<Rightarrow> Some f
      | None \<Rightarrow> strictDecodeFrame (store_struct envelope_fields True) zero_strictHostResponseEnvelope raw)"

section \<open>The fast path changes no answer\<close>

text \<open>A target agrees with a store when a value the target takes on its own is stored the same way by
  the decoder.\<close>

definition agree :: "'r target \<Rightarrow> 'r store \<Rightarrow> bool" where
  "agree t st \<longleftrightarrow> (\<forall>r v j r'. parse_document v = Some j \<longrightarrow> raw_of j = v \<longrightarrow> decode_member t r v = Some r' \<longrightarrow> st r j = Some r')"

lemma agree_raw: "agree (ToRaw upd) (store_raw upd)"
  by (simp add: agree_def decode_member_def store_raw_def)

lemma agree_value: "agree (ToValue st) st"
  by (simp add: agree_def decode_member_def Unmarshal_def)

lemma parse_document_quoted:
  assumes "parse_document v = Some j" and "v \<noteq> []" and "hd v = CHR 0x22"
  shows "\<exists>l. j = JString l"
proof -
  obtain c t where v: "v = c # t" "c = CHR 0x22" using assms(2,3) by (cases v) auto
  obtain r where "pvalue (parse_fuel v) maxNestingDepth (dropWhile is_ws v) = Some (j, r)"
    using assms(1) by (auto simp: parse_document_def parse_first_def split: option.splits if_splits)
  then have "pvalue (Suc (2 * length v)) maxNestingDepth v = Some (j, r)" by (simp add: parse_fuel_def v is_ws_def)
  then show ?thesis unfolding pvalue_Suc by (auto simp: value_body_def scalar_body_def v)
qed

lemma parse_null: "parse_document ''null'' = Some JNull"
  by (simp add: parse_document_def parse_first_def parse_fuel_def numeral_eq_Suc value_body_def
      scalar_body_def HasPrefix_def is_ws_def)

lemma agree_string:
  assumes "\<And>r. upd (get r) r = r"
  shows "agree (ToString get upd) (store_string upd)"
  unfolding agree_def
proof (intro allI impI)
  fix r v j r'
  assume p: "parse_document v = Some j" "raw_of j = v" and d: "decode_member (ToString get upd) r v = Some r'"
  show "store_string upd r j = Some r'"
  proof (cases "v = ''null''")
    case True
    then have "j = JNull" using p parse_null by simp
    then show ?thesis using d True assms by (simp add: decode_member_def StringInto_def store_string_def)
  next
    case False
    then obtain s where s: "json_String v = Some s" "r' = upd s r"
      using d by (auto simp: decode_member_def StringInto_def split: option.splits)
    then have u: "Unmarshal_string v = Some s" by (simp add: String_Unmarshal)
    then obtain b where "v = CHR 0x22 # b @ [CHR 0x22]" using Unmarshal_SomeD by blast
    then obtain l where "j = JString l" using parse_document_quoted [OF p(1)] by auto
    then show ?thesis using p(2) u s(2) by (simp add: store_string_def)
  qed
qed

abbreviation tree_of :: "string \<times> string \<Rightarrow> string \<times> json \<Rightarrow> bool" where
  "tree_of kv kj \<equiv> fst kj = fst kv \<and> raw_of (snd kj) = snd kv \<and> parse_document (snd kv) = Some (snd kj)"

lemma strictMembers_parse:
  assumes "strictMembers raw names = Some members"
  obtains w ms where "parse_document raw = Some (JObject w ms)" "rejectDuplicateJSONKeys raw" "distinct (map fst members)"
    "set (map fst members) \<subseteq> set names" "list_all2 tree_of members ms"
proof -
  obtain fs where fs: "Fields raw = Some (Some fs)" "list_all (\<lambda>f. fd_Key f \<in> set names) fs"
      "members = map (\<lambda>f. (fd_Key f, fd_Value f)) fs"
    using assms by (auto simp: strictMembers_def split: option.splits if_splits)
  obtain w ms where w: "parse_document raw = Some (JObject w ms)" "distinct (map fd_Key fs)"
    "list_all2 (\<lambda>fd kj. fst kj = fd_Key fd \<and> raw_of (snd kj) = fd_Value fd \<and> parse_document (fd_Value fd) = Some (snd kj)) fs ms"
    by (rule Fields_parse [OF fs(1)])
  obtain d where "document raw d" "json_object ws MaxDepth fs d" using Fields_grammar [of raw] fs(1) by auto
  then have "Valid raw = Some True" using object_value Valid_grammar [of raw] by auto
  then have "rejectDuplicateJSONKeys raw" by (simp add: rejectDuplicateJSONKeys_def)
  moreover have "distinct (map fst members)" using w(2) by (simp add: fs(3) comp_def)
  moreover have "set (map fst members) \<subseteq> set names" using fs(2) by (auto simp: fs(3) list_all_iff)
  moreover have "list_all2 tree_of members ms" using w(3) by (simp add: fs(3) list_all2_map1)
  ultimately show ?thesis using that w(1) by blast
qed

text \<open>A list of targets agrees with the fields of a struct.\<close>

definition agree_all :: "(string \<times> 'r target) list \<Rightarrow> (string \<times> 'r store) list \<Rightarrow> bool" where
  "agree_all ts fs \<longleftrightarrow> (\<forall>k t. map_of ts k = Some t \<longrightarrow> (\<exists>st. map_of fs k = Some st \<and> agree t st))"

lemma agree_all_Nil: "agree_all [] fs"
  by (simp add: agree_all_def)

lemma agree_all_Cons: "map_of fs k = Some st \<Longrightarrow> agree t st \<Longrightarrow> agree_all ts fs \<Longrightarrow> agree_all ((k, t) # ts) fs"
  by (auto simp: agree_all_def)

lemma decodeMembers_struct:
  assumes "list_all2 tree_of members ms" and "agree_all ts fs" and "decodeMembers ts r members = Some r'"
  shows "struct_members fs disallow r ms = Some r'"
  using assms(1,3)
proof (induction arbitrary: r rule: list_all2_induct)
  case (Cons kv members kj ms)
  obtain k v j where kv: "kv = (k, v)" "kj = (k, j)" using Cons.hyps(1) by (metis prod.collapse)
  obtain t r1 where t: "map_of ts k = Some t" "decode_member t r v = Some r1" "decodeMembers ts r1 members = Some r'"
    using Cons.prems by (auto simp: kv split: option.splits)
  obtain st where st: "map_of fs k = Some st" "agree t st" using assms(2) t(1) by (auto simp: agree_all_def)
  have "st r j = Some r1" using st(2) t(2) Cons.hyps(1) by (auto simp: agree_def kv)
  moreover have "k \<in> set (map fst fs)" using map_of_SomeD [OF st(1)] by force
  then have "find_field (map fst fs) k = Some k" by (auto simp: find_field_def)
  ultimately show ?case using st(1) Cons.IH [OF t(3)] by (simp add: kv)
qed simp

text \<open>The rest of a frame's members do not touch the member decoded first.\<close>

definition ignores :: "('r \<Rightarrow> 'r) \<Rightarrow> (string \<times> 'r target) list \<Rightarrow> bool" where
  "ignores h ts \<longleftrightarrow> (\<forall>k t. map_of ts k = Some t \<longrightarrow> (\<forall>r v. decode_member t (h r) v = map_option h (decode_member t r v)))"

lemma decodeMembers_ignores: "ignores h ts \<Longrightarrow> decodeMembers ts (h r) ms = map_option h (decodeMembers ts r ms)"
proof (induction ms arbitrary: r)
  case (Cons kv ms)
  obtain k v where "kv = (k, v)" by (cases kv)
  then show ?case using Cons by (auto simp: ignores_def split: option.splits)
qed simp

text \<open>A frame with one nested member: the fast path decodes it first, the decoder where it stands.\<close>

lemma nested_member:
  assumes "list_all2 tree_of members ms" and "distinct (map fst members)" and "agree_all ts fs"
    and "map_of members n = Some v" and "map_of fs n = Some st" and "map_of ts n = None" and "parse_document v = Some j"
    and "\<And>r. g r = r \<Longrightarrow> st r j = Some (h r)" and "ignores h ts"
    and "decodeMembers ts (h r) (filter (\<lambda>kv. fst kv \<noteq> n) members) = Some r'"
    and "ignores g ts" and "g r = r"
  shows "struct_members fs disallow r ms = Some r'"
  using assms(1,2,4,10,12)
proof (induction arbitrary: r rule: list_all2_induct)
  case (Cons kv members kj ms)
  obtain k x y where kv: "kv = (k, x)" "kj = (k, y)" using Cons.hyps(1) by (metis prod.collapse)
  show ?case
  proof (cases "k = n")
    case True
    then have "x = v" "y = j" using Cons.prems(2) Cons.hyps(1) assms(7) by (auto simp: kv)
    moreover have "filter (\<lambda>kv. fst kv \<noteq> n) members = members" using Cons.prems(1) by (auto simp: kv True filter_id_conv)
    then have "decodeMembers ts (h r) members = Some r'" using Cons.prems(3) by (simp add: kv True)
    then have "struct_members fs disallow (h r) ms = Some r'" by (rule decodeMembers_struct [OF Cons.hyps(2) assms(3)])
    moreover have "n \<in> set (map fst fs)" using map_of_SomeD [OF assms(5)] by force
    then have "find_field (map fst fs) n = Some n" by (auto simp: find_field_def)
    ultimately show ?thesis using assms(5,8) Cons.prems(4) by (simp add: kv True)
  next
    case False
    then obtain t hr1 where t: "map_of ts k = Some t" "decode_member t (h r) x = Some hr1"
        "decodeMembers ts hr1 (filter (\<lambda>kv. fst kv \<noteq> n) members) = Some r'"
      using Cons.prems(3) by (auto simp: kv split: option.splits)
    obtain r1 where r1: "decode_member t r x = Some r1" "hr1 = h r1"
      using assms(9) t(1,2) by (auto simp: ignores_def)
    obtain s1 where s1: "map_of fs k = Some s1" "agree t s1" using assms(3) t(1) by (auto simp: agree_all_def)
    have "g r1 = r1" using assms(11) t(1) r1(1) Cons.prems(4) unfolding ignores_def by (metis option.inject option.simps(9))
    have "s1 r y = Some r1" using s1(2) r1(1) Cons.hyps(1) by (auto simp: agree_def kv)
    moreover have "k \<in> set (map fst fs)" using map_of_SomeD [OF s1(1)] by force
    then have "find_field (map fst fs) k = Some k" by (auto simp: find_field_def)
    moreover have "struct_members fs disallow r1 ms = Some r'"
      using Cons.IH [of r1] Cons.prems(1,2) t(3) r1(2) False \<open>g r1 = r1\<close> by (simp add: kv)
    ultimately show ?thesis using s1(1) by (simp add: kv)
  qed
qed simp

lemmas agree_intros = agree_raw agree_value agree_string

lemma request_agree: "agree_all request_targets request_fields"
  unfolding request_targets_def by (intro agree_all_Nil agree_all_Cons) (auto simp: request_fields_def intro!: agree_intros)

lemma call_agree: "agree_all call_targets call_fields"
  unfolding call_targets_def by (intro agree_all_Nil agree_all_Cons) (auto simp: call_fields_def intro!: agree_intros)

lemma response_agree: "agree_all response_targets response_fields"
  unfolding response_targets_def by (intro agree_all_Nil agree_all_Cons) (auto simp: response_fields_def intro!: agree_intros)

lemma invoke_agree: "agree_all invoke_targets invoke_fields"
  unfolding invoke_targets_def by (intro agree_all_Nil agree_all_Cons) (auto simp: invoke_fields_def intro!: agree_intros)

lemma envelope_agree: "agree_all envelope_targets envelope_fields"
  unfolding envelope_targets_def by (intro agree_all_Nil agree_all_Cons) (auto simp: envelope_fields_def intro!: agree_intros)

definition commutes :: "('r \<Rightarrow> 'r) \<Rightarrow> 'r target \<Rightarrow> bool" where
  "commutes h t \<longleftrightarrow> (\<forall>r v. decode_member t (h r) v = map_option h (decode_member t r v))"

lemma ignores_Nil: "ignores h []"
  and ignores_Cons: "commutes h t \<Longrightarrow> ignores h ts \<Longrightarrow> ignores h ((k, t) # ts)"
  by (auto simp: ignores_def commutes_def)

lemma commutes_string:
  "(\<And>s r. upd s (h r) = h (upd s r)) \<Longrightarrow> (\<And>r. get (h r) = get r) \<Longrightarrow> commutes h (ToString get upd)"
  by (simp add: commutes_def decode_member_def case_prod_beta)

lemma commutes_int: "(\<And>n r. upd n (h r) = h (upd n r)) \<Longrightarrow> commutes h (ToValue (store_int upd))"
  by (simp add: commutes_def decode_member_def Unmarshal_def store_int_def option.map_comp comp_def split: option.split json.split)

lemma commutes_uint: "(\<And>n r. upd n (h r) = h (upd n r)) \<Longrightarrow> commutes h (ToValue (store_uint upd))"
  by (simp add: commutes_def decode_member_def Unmarshal_def store_uint_def option.map_comp comp_def split: option.split json.split)

lemma invoke_ignores: "ignores (iv_Request_update g) invoke_targets"
  unfolding invoke_targets_def by (intro ignores_Nil ignores_Cons commutes_string commutes_int commutes_uint) simp_all

lemma envelope_ignores: "ignores (sr_HostResponse_update g) envelope_targets"
  unfolding envelope_targets_def by (intro ignores_Nil ignores_Cons commutes_string commutes_uint) simp_all

lemma decodeInvokeV2Fast_strict:
  assumes "decodeInvokeV2Fast raw = Some f"
  shows "strictDecodeFrame (store_struct invoke_fields True) zero_invokeV2Frame raw = Some f"
proof -
  obtain members where m: "strictMembers raw [''protocol'', ''kind'', ''generation'', ''invocation_id'', ''request''] = Some members"
    using assms by (auto simp: decodeInvokeV2Fast_def split: option.splits)
  obtain w ms where w: "parse_document raw = Some (JObject w ms)" "rejectDuplicateJSONKeys raw" "distinct (map fst members)"
    "list_all2 tree_of members ms" by (rule strictMembers_parse [OF m])
  have "struct_members invoke_fields True zero_invokeV2Frame ms = Some f"
  proof (cases "map_of members ''request''")
    case None
    then have "decodeMembers invoke_targets zero_invokeV2Frame members = Some f" using assms m by (simp add: decodeInvokeV2Fast_def)
    then show ?thesis by (rule decodeMembers_struct [OF w(4) invoke_agree])
  next
    case (Some v)
    then obtain inner req where i: "strictMembers v [''action'', ''service'', ''method'', ''payload''] = Some inner"
        "decodeMembers request_targets zero_Request inner = Some req"
        "decodeMembers invoke_targets (zero_invokeV2Frame\<lparr>iv_Request := Some req\<rparr>) (filter (\<lambda>kv. fst kv \<noteq> ''request'') members) = Some f"
      using assms m by (auto simp: decodeInvokeV2Fast_def split: option.splits)
    obtain wi mi where wi: "parse_document v = Some (JObject wi mi)" "list_all2 tree_of inner mi"
      by (rule strictMembers_parse [OF i(1)])
    have s: "struct_members request_fields True zero_Request mi = Some req"
      by (rule decodeMembers_struct [OF wi(2) request_agree i(2)])
    have st: "store_ptr iv_Request (\<lambda>q. iv_Request_update (\<lambda>_. q)) zero_Request (store_struct request_fields True) r (JObject wi mi)
        = Some (iv_Request_update (\<lambda>_. Some req) r)" if "iv_Request_update (\<lambda>_. None) r = r" for r
    proof -
      have "iv_Request r = None" by (subst that [symmetric]) simp
      then show ?thesis using s by (simp add: store_ptr_def store_struct_def)
    qed
    show ?thesis
      by (rule nested_member [where g = "iv_Request_update (\<lambda>_. None)" and h = "iv_Request_update (\<lambda>_. Some req)"
          and st = "store_ptr iv_Request (\<lambda>q. iv_Request_update (\<lambda>_. q)) zero_Request (store_struct request_fields True)",
            OF w(4,3) invoke_agree Some _ _ wi(1) st invoke_ignores i(3) invoke_ignores])
        (simp_all add: invoke_fields_def invoke_targets_def zero_invokeV2Frame_def)
  qed
  then show ?thesis using w(1,2) by (simp add: strictDecodeFrame_def store_struct_def)
qed

lemma decodeHostResponseFast_strict:
  assumes "decodeHostResponseFast raw = Some f"
  shows "strictDecodeFrame (store_struct envelope_fields True) zero_strictHostResponseEnvelope raw = Some f"
proof -
  obtain members where m: "strictMembers raw [''protocol'', ''kind'', ''generation'', ''invocation_id'', ''host_call_id'', ''host_response''] = Some members"
    using assms by (auto simp: decodeHostResponseFast_def split: option.splits)
  obtain w ms where w: "parse_document raw = Some (JObject w ms)" "rejectDuplicateJSONKeys raw" "distinct (map fst members)"
    "list_all2 tree_of members ms" by (rule strictMembers_parse [OF m])
  have "struct_members envelope_fields True zero_strictHostResponseEnvelope ms = Some f"
  proof (cases "map_of members ''host_response''")
    case None
    then have "decodeMembers envelope_targets zero_strictHostResponseEnvelope members = Some f" using assms m by (simp add: decodeHostResponseFast_def)
    then show ?thesis by (rule decodeMembers_struct [OF w(4) envelope_agree])
  next
    case (Some v)
    then obtain inner p where i: "strictMembers v [''id'', ''ok'', ''result'', ''error''] = Some inner"
        "decodeMembers response_targets zero_strictHostResponsePayload inner = Some p"
        "decodeMembers envelope_targets (zero_strictHostResponseEnvelope\<lparr>sr_HostResponse := p\<rparr>) (filter (\<lambda>kv. fst kv \<noteq> ''host_response'') members) = Some f"
      using assms m by (auto simp: decodeHostResponseFast_def split: option.splits)
    obtain wi mi where wi: "parse_document v = Some (JObject wi mi)" "list_all2 tree_of inner mi"
      by (rule strictMembers_parse [OF i(1)])
    have s: "struct_members response_fields True zero_strictHostResponsePayload mi = Some p"
      by (rule decodeMembers_struct [OF wi(2) response_agree i(2)])
    have st: "store_field sr_HostResponse (\<lambda>p. sr_HostResponse_update (\<lambda>_. p)) (store_struct response_fields True) r (JObject wi mi)
        = Some (sr_HostResponse_update (\<lambda>_. p) r)" if "sr_HostResponse_update (\<lambda>_. zero_strictHostResponsePayload) r = r" for r
    proof -
      have "sr_HostResponse r = zero_strictHostResponsePayload" by (subst that [symmetric]) simp
      then show ?thesis using s by (simp add: store_field_def store_struct_def)
    qed
    show ?thesis
      by (rule nested_member [where g = "sr_HostResponse_update (\<lambda>_. zero_strictHostResponsePayload)" and h = "sr_HostResponse_update (\<lambda>_. p)"
          and st = "store_field sr_HostResponse (\<lambda>p. sr_HostResponse_update (\<lambda>_. p)) (store_struct response_fields True)",
            OF w(4,3) envelope_agree Some _ _ wi(1) st envelope_ignores i(3) envelope_ignores])
        (simp_all add: envelope_fields_def envelope_targets_def zero_strictHostResponseEnvelope_def)
  qed
  then show ?thesis using w(1,2) by (simp add: strictDecodeFrame_def store_struct_def)
qed

lemma callPayloadFast_Unmarshal:
  assumes "callPayloadFast raw = Some c"
  shows "Unmarshal (store_struct call_fields False) zero_CallPayload raw = Some c"
proof -
  obtain members where m: "strictMembers raw [''service'', ''method'', ''payload''] = Some members"
      "decodeMembers call_targets zero_CallPayload members = Some c"
    using assms by (auto simp: callPayloadFast_def split: option.splits)
  obtain w ms where w: "parse_document raw = Some (JObject w ms)" "list_all2 tree_of members ms" by (rule strictMembers_parse [OF m(1)])
  show ?thesis using decodeMembers_struct [OF w(2) call_agree m(2)] w(1) by (simp add: Unmarshal_def store_struct_def)
qed

text \<open>
  C22. The fast decoders change no answer. Every frame and payload is decoded exactly as the
  \<^verbatim>\<open>encoding/json\<close> path alone decodes it, accepted or refused: the invoke frame, the host response
  frame, and the call payload of a request that names no service or method itself.
\<close>
theorem fast_decoders_equivalent:
  "decodeInvokeV2 raw generation maxBytes =
     (if int (length raw) > (if maxBytes \<le> 0 then DefaultMaxRequestBytes else maxBytes) then None
      else case strictDecodeFrame (store_struct invoke_fields True) zero_invokeV2Frame raw of
        None \<Rightarrow> None | Some f \<Rightarrow> if invoke_frame_ok generation f then Some f else None)
   \<and> decode_host_response raw = strictDecodeFrame (store_struct envelope_fields True) zero_strictHostResponseEnvelope raw
   \<and> Request_CallPayload r =
     (if rq_Service r = [] \<and> rq_Method r = [] then
        (if rq_Payload r = [] then Some zero_CallPayload
         else Unmarshal (store_struct call_fields False) zero_CallPayload (rq_Payload r))
      else Some \<lparr>cp_Service = rq_Service r, cp_Method = rq_Method r, cp_Payload = rq_Payload r\<rparr>)"
proof (intro conjI)
  show "decodeInvokeV2 raw generation maxBytes =
     (if int (length raw) > (if maxBytes \<le> 0 then DefaultMaxRequestBytes else maxBytes) then None
      else case strictDecodeFrame (store_struct invoke_fields True) zero_invokeV2Frame raw of
        None \<Rightarrow> None | Some f \<Rightarrow> if invoke_frame_ok generation f then Some f else None)"
    using decodeInvokeV2Fast_strict [of raw] by (simp add: decodeInvokeV2_def Let_def split: option.split)
  show "decode_host_response raw = strictDecodeFrame (store_struct envelope_fields True) zero_strictHostResponseEnvelope raw"
    using decodeHostResponseFast_strict [of raw] by (simp add: decode_host_response_def split: option.split)
  show "Request_CallPayload r =
     (if rq_Service r = [] \<and> rq_Method r = [] then
        (if rq_Payload r = [] then Some zero_CallPayload
         else Unmarshal (store_struct call_fields False) zero_CallPayload (rq_Payload r))
      else Some \<lparr>cp_Service = rq_Service r, cp_Method = rq_Method r, cp_Payload = rq_Payload r\<rparr>)"
    using callPayloadFast_Unmarshal [of "rq_Payload r"] by (simp add: Request_CallPayload_def split: option.split)
qed

end
