(* ===== verification/Go_Json_Encode.thy ===== *)
theory Go_Json_Encode
  imports Go_Json_Parse
begin

text \<open>
  What the sources use of the encoder of \<^verbatim>\<open>encoding/json\<close> and of \<^verbatim>\<open>encoding/base64\<close>: strings with
  their escapes, a \<^verbatim>\<open>json.RawMessage\<close> compacted into the output, objects whose empty members may be
  omitted, and the standard base64 alphabet with padding.
\<close>

text \<open>A text written with tildes for its quotation marks.\<close>

definition tilde_json :: "string \<Rightarrow> string" where
  "tilde_json = map (\<lambda>c. if c = CHR ''~'' then CHR 0x22 else c)"

section \<open>Strings\<close>

definition hex_char :: "nat \<Rightarrow> char" where
  "hex_char n = (if n < 10 then char_of (48 + n) else char_of (87 + n))"

definition u00 :: "char \<Rightarrow> string" where
  "u00 c = CHR 0x5C # ''u00'' @ [hex_char (ord c div 16), hex_char (ord c mod 16)]"

definition html_safe :: "char \<Rightarrow> bool" where
  "html_safe c \<longleftrightarrow> 0x20 \<le> ord c \<and> ord c < 0x80 \<and> c \<notin> {CHR 0x22, CHR 0x5C, CHR ''<'', CHR ''>'', CHR ''&''}"

definition escape_ascii :: "char \<Rightarrow> string" where
  "escape_ascii c =
     (if html_safe c then [c]
      else if c = CHR 0x22 \<or> c = CHR 0x5C then [CHR 0x5C, c]
      else if c = CHR 0x08 then CHR 0x5C # ''b''
      else if c = CHR 0x0C then CHR 0x5C # ''f''
      else if c = CHR 0x0A then CHR 0x5C # ''n''
      else if c = CHR 0x0D then CHR 0x5C # ''r''
      else if c = CHR 0x09 then CHR 0x5C # ''t''
      else u00 c)"

function quote_loop :: "string \<Rightarrow> string" where
  "quote_loop s =
     (case s of
        [] \<Rightarrow> []
      | c # t \<Rightarrow>
          if ord c < 0x80 then escape_ascii c @ quote_loop t
          else
            let r = fst (DecodeRune s); k = snd (DecodeRune s) in
            if r = RuneError \<and> k = 1 then CHR 0x5C # ''ufffd'' @ quote_loop t
            else if r = 0x2028 \<or> r = 0x2029
            then CHR 0x5C # ''u202'' @ [hex_char (r mod 16)] @ quote_loop (drop k s)
            else take k s @ quote_loop (drop k s))"
  by pat_completeness auto
termination
  by (relation "measure length") (use DecodeRune_width in \<open>auto simp: Suc_le_eq\<close>)

declare quote_loop.simps [simp del]

definition json_quote :: "string \<Rightarrow> string" where
  "json_quote s = CHR 0x22 # quote_loop s @ [CHR 0x22]"

section \<open>Raw messages\<close>

text \<open>\<open>compact q s\<close> copies \<open>s\<close> without the white space outside strings, and with the bytes the encoder
  escapes escaped; \<open>q\<close> says whether \<open>s\<close> starts inside a string.\<close>

definition separator :: "string \<Rightarrow> bool" where
  "separator s \<longleftrightarrow> take 3 s = [CHR 0xE2, CHR 0x80, CHR 0xA8] \<or> take 3 s = [CHR 0xE2, CHR 0x80, CHR 0xA9]"

function compact_json :: "bool \<Rightarrow> string \<Rightarrow> string" where
  "compact_json q s =
     (case s of
        [] \<Rightarrow> []
      | c # t \<Rightarrow>
          if c \<in> {CHR ''<'', CHR ''>'', CHR ''&''} then u00 c @ compact_json q t
          else if separator s then CHR 0x5C # ''u202'' @ [hex_char (ord (s ! 2) mod 16)] @ compact_json q (drop 3 s)
          else if \<not> q then
            (if json_space c then compact_json q t else c # compact_json (c = CHR 0x22) t)
          else if c = CHR 0x5C then c # take 1 t @ compact_json q (drop 1 t)
          else c # compact_json (c \<noteq> CHR 0x22) t)"
  by pat_completeness auto
termination by (relation "measure (\<lambda>(q, s). length s)") auto

declare compact_json.simps [simp del]

definition encode_raw :: "string \<Rightarrow> string option" where
  "encode_raw raw = (if json_Valid raw then Some (compact_json False raw) else None)"

section \<open>Composite values\<close>

fun comma_list :: "string list \<Rightarrow> string" where
  "comma_list [] = []"
| "comma_list [x] = x"
| "comma_list (x # y # xs) = x @ CHR '','' # comma_list (y # xs)"

text \<open>The members of an object in field order; an omitted member is \<open>None\<close>.\<close>

definition encode_member :: "string \<Rightarrow> string \<Rightarrow> string" where
  "encode_member k v = json_quote k @ CHR '':'' # v"

definition encode_object :: "(string \<times> string option) list \<Rightarrow> string" where
  "encode_object ms =
     CHR ''{'' # comma_list (map (\<lambda>kv. encode_member (fst kv) (the (snd kv))) (filter (\<lambda>kv. snd kv \<noteq> None) ms)) @ ''}''"

definition encode_strings :: "string list \<Rightarrow> string" where
  "encode_strings xs = CHR ''['' # comma_list (map json_quote xs) @ '']''"

definition encode_bool :: "bool \<Rightarrow> string" where
  "encode_bool b = (if b then ''true'' else ''false'')"

definition omitempty :: "string \<Rightarrow> string option" where
  "omitempty s = (if s = [] then None else Some (json_quote s))"

section \<open>Base64\<close>

definition b64_char :: "nat \<Rightarrow> char" where
  "b64_char n =
     (if n < 26 then char_of (65 + n) else if n < 52 then char_of (71 + n) else if n < 62 then char_of (n - 4)
      else if n = 62 then CHR ''+'' else CHR ''/'')"

definition b64_val :: "char \<Rightarrow> nat option" where
  "b64_val c =
     (let n = ord c in
      if 65 \<le> n \<and> n \<le> 90 then Some (n - 65)
      else if 97 \<le> n \<and> n \<le> 122 then Some (n - 71)
      else if 48 \<le> n \<and> n \<le> 57 then Some (n + 4)
      else if n = 43 then Some 62
      else if n = 47 then Some 63
      else None)"

fun b64_EncodeToString :: "string \<Rightarrow> string" where
  "b64_EncodeToString (a # b # c # s) =
     [b64_char (ord a div 4), b64_char (ord a mod 4 * 16 + ord b div 16),
      b64_char (ord b mod 16 * 4 + ord c div 64), b64_char (ord c mod 64)] @ b64_EncodeToString s"
| "b64_EncodeToString [a, b] =
     [b64_char (ord a div 4), b64_char (ord a mod 4 * 16 + ord b div 16), b64_char (ord b mod 16 * 4), CHR ''='']"
| "b64_EncodeToString [a] =
     [b64_char (ord a div 4), b64_char (ord a mod 4 * 16), CHR ''='', CHR ''='']"
| "b64_EncodeToString [] = []"

text \<open>The decoder skips carriage returns and line feeds anywhere; padding ends the input, and the
  unused bits before it are not checked.\<close>

fun b64_quanta :: "string \<Rightarrow> string option" where
  "b64_quanta [] = Some []"
| "b64_quanta (a # b # c # d # s) =
     (case (b64_val a, b64_val b) of
        (Some i, Some j) \<Rightarrow>
          (if c = CHR ''='' then
             (if d = CHR ''='' \<and> s = [] then Some [char_of (i * 4 + j div 16)] else None)
           else case b64_val c of
             None \<Rightarrow> None
           | Some k \<Rightarrow>
               (if d = CHR ''='' then
                  (if s = [] then Some [char_of (i * 4 + j div 16), char_of (j mod 16 * 16 + k div 4)] else None)
                else case b64_val d of
                  None \<Rightarrow> None
                | Some l \<Rightarrow>
                    map_option (\<lambda>r. char_of (i * 4 + j div 16) # char_of (j mod 16 * 16 + k div 4) # char_of (k mod 4 * 64 + l) # r)
                      (b64_quanta s)))
      | _ \<Rightarrow> None)"
| "b64_quanta _ = None"

definition b64_DecodeString :: "string \<Rightarrow> string option" where
  "b64_DecodeString s = b64_quanta (filter (\<lambda>c. c \<noteq> CHR 0x0A \<and> c \<noteq> CHR 0x0D) s)"

lemma b64_char_less: "n < 64 \<Longrightarrow> b64_val (b64_char n) = Some n \<and> b64_char n \<noteq> CHR ''='' \<and> b64_char n \<noteq> CHR 0x0A \<and> b64_char n \<noteq> CHR 0x0D"
proof -
  assume n: "n < 64"
  consider "n < 26" | "26 \<le> n" "n < 52" | "52 \<le> n" "n < 62" | "n = 62" | "n = 63" using n by linarith
  then have "b64_val (b64_char n) = Some n"
    by cases (simp_all add: b64_char_def b64_val_def Let_def, arith, simp_all add: ord_def)
  moreover have "b64_val CHR ''='' = None" "b64_val CHR 0x0A = None" "b64_val CHR 0x0D = None"
    by (simp_all add: b64_val_def ord_def)
  ultimately show ?thesis by force
qed

lemma digit_pair: "y < n \<Longrightarrow> (x * n + y) div n = (x :: nat)" "y < n \<Longrightarrow> (x * n + y) mod n = (y :: nat)"
  by simp_all

lemma b64_sextets:
  "ord a div 4 < 64" "ord a mod 4 * 16 + ord b div 16 < 64" "ord b mod 16 * 4 + ord c div 64 < 64" "ord c mod 64 < 64"
  "ord a mod 4 * 16 < 64" "ord b mod 16 * 4 < 64"
  using ord_less_256 [of a] ord_less_256 [of b] ord_less_256 [of c] by linarith+

lemma b64_roundtrip [simp]: "b64_DecodeString (b64_EncodeToString s) = Some s"
proof -
  have "filter (\<lambda>c. c \<noteq> CHR 0x0A \<and> c \<noteq> CHR 0x0D) (b64_EncodeToString s) = b64_EncodeToString s" for s
    by (induction s rule: b64_EncodeToString.induct) (simp_all add: b64_char_less b64_sextets)
  moreover have "b64_quanta (b64_EncodeToString s) = Some s"
  proof (induction s rule: b64_EncodeToString.induct)
    case (1 a b c s)
    have d: "ord b div 16 < 16" "ord c div 64 < 4" using ord_less_256 [of b] ord_less_256 [of c] by linarith+
    have "(ord a div 4) * 4 + (ord a mod 4 * 16 + ord b div 16) div 16 = ord a"
      "(ord a mod 4 * 16 + ord b div 16) mod 16 * 16 + (ord b mod 16 * 4 + ord c div 64) div 4 = ord b"
      "(ord b mod 16 * 4 + ord c div 64) mod 4 * 64 + ord c mod 64 = ord c"
      unfolding digit_pair [OF d(1)] digit_pair [OF d(2)] by (simp_all only: div_mult_mod_eq)
    with 1 show ?case by (simp add: b64_char_less b64_sextets)
  next
    case (2 a b)
    have d: "ord b div 16 < 16" using ord_less_256 [of b] by linarith
    have "(ord a div 4) * 4 + (ord a mod 4 * 16 + ord b div 16) div 16 = ord a"
      "(ord a mod 4 * 16 + ord b div 16) mod 16 * 16 + (ord b mod 16 * 4) div 4 = ord b"
      unfolding digit_pair [OF d] by simp_all
    then show ?case by (simp add: b64_char_less b64_sextets)
  next
    case (3 a)
    have "(ord a div 4) * 4 + (ord a mod 4 * 16) div 16 = ord a" by simp
    then show ?case by (simp add: b64_char_less b64_sextets)
  qed simp
  ultimately show ?thesis by (simp add: b64_DecodeString_def)
qed

section \<open>Hexadecimal\<close>

text \<open>\<^verbatim>\<open>EncodeToString\<close> of \<^verbatim>\<open>encoding/hex\<close>.\<close>

definition hex_EncodeToString :: "bytes \<Rightarrow> string" where
  "hex_EncodeToString bs = concat (map (\<lambda>b. [hex_char (unat b div 16), hex_char (unat b mod 16)]) bs)"

lemma hex_digest: "n < 16 \<Longrightarrow> (48 \<le> ord (hex_char n) \<and> ord (hex_char n) \<le> 57) \<or> (97 \<le> ord (hex_char n) \<and> ord (hex_char n) \<le> 102)"
  by (auto simp: hex_char_def)

lemma length_hex [simp]: "length (hex_EncodeToString bs) = 2 * length bs"
  by (induction bs) (simp_all add: hex_EncodeToString_def)

lemma hex_parts: "list_all P (hex_EncodeToString bs)" if "\<And>n. n < 16 \<Longrightarrow> P (hex_char n)"
proof (induction bs)
  case (Cons b bs)
  have "unat b div 16 < 16" using unat_byte_less [of b] by linarith
  with Cons that show ?case by (simp add: hex_EncodeToString_def)
qed (simp add: hex_EncodeToString_def)

end
