(* ===== verification/Plugin_Host.thy ===== *)
theory Plugin_Host
  imports Plugin_Frame Go_Json_Encode
begin

text \<open>
  The plugin side of host calls, \<^verbatim>\<open>src/plugin/host.go\<close>: the client with its lease, the transport it
  shares with other clients, one \<^verbatim>\<open>Call\<close> from its admission to the checked response, and the ways a
  lease ends. The pointers of a client are non-nil flags; the transport they lead to is passed and
  returned beside the client, so that several clients can share one. Calls on one transport are
  serialised by its exchange token, so a call is one step.

  What the world does during a call is the record \<open>call_env\<close>: whether the context is done at each
  point the source looks, whether another goroutine ends the lease in between, whether the write
  fails, and what the read of the response stream yields. A call that never returns is \<open>None\<close>.
\<close>

section \<open>Clients and transports\<close>

definition DefaultMaxHostResponseBytes :: int where "DefaultMaxHostResponseBytes = 4 * 2 ^ 20"
definition DefaultMaxHostResponseFrameOverheadBytes :: int where "DefaultMaxHostResponseFrameOverheadBytes = 4 * 2 ^ 10"
definition maxInt :: int where "maxInt = 2 ^ 63 - 1"
definition maxUint64 :: nat where "maxUint64 = 2 ^ 64 - 1"

record HostClient =
  hc_output :: bool
  hc_responses :: bool
  hc_transport :: bool
  hc_maxResponseBytes :: int
  hc_maxFrameBytes :: int
  hc_generation :: nat
  hc_invocationID :: string
  hc_expired :: bool
  hc_strict :: bool

record host_frame =
  hf_strict :: bool
  hf_generation :: nat
  hf_invocationID :: string
  hf_id :: string
  hf_method :: string
  hf_params :: "string option"

record hostTransport =
  ht_exchange :: bool
  ht_nextID :: nat
  ht_closer :: bool
  ht_poisoned :: bool
  ht_written :: "host_frame list"

record HostClientOptions =
  op_Output :: bool
  op_Responses :: bool
  op_closer :: bool
  op_MaxResponseBytes :: int

definition hostResponseFrameLimit :: "int \<Rightarrow> int" where
  "hostResponseFrameLimit payloadLimit =
     (let l = (if payloadLimit \<le> 0 then DefaultMaxHostResponseBytes else payloadLimit) in
      if l > maxInt - DefaultMaxHostResponseFrameOverheadBytes then maxInt
      else l + DefaultMaxHostResponseFrameOverheadBytes)"

definition scannerCapacity :: "int \<Rightarrow> int" where
  "scannerCapacity frameLimit = (if frameLimit \<ge> maxInt then maxInt else frameLimit + 1)"

definition new_transport :: "bool \<Rightarrow> hostTransport" where
  "new_transport closer = \<lparr>ht_exchange = True, ht_nextID = 0, ht_closer = closer, ht_poisoned = False, ht_written = []\<rparr>"

definition NewHostClient :: "HostClientOptions \<Rightarrow> HostClient \<times> hostTransport" where
  "NewHostClient opts =
     (let m = (if op_MaxResponseBytes opts \<le> 0 then DefaultMaxHostResponseBytes else op_MaxResponseBytes opts) in
      (\<lparr>hc_output = op_Output opts, hc_responses = op_Responses opts, hc_transport = True, hc_maxResponseBytes = m,
        hc_maxFrameBytes = hostResponseFrameLimit m, hc_generation = 0, hc_invocationID = [], hc_expired = False,
        hc_strict = False\<rparr>, new_transport (op_Responses opts \<and> op_closer opts)))"

definition NewInvocationHostClient :: "HostClientOptions \<Rightarrow> nat \<Rightarrow> string \<Rightarrow> HostClient \<times> hostTransport" where
  "NewInvocationHostClient opts generation invocationID =
     (let (c, t) = NewHostClient opts;
          c1 = (if generation = 0 \<or> \<not> validInvocationID invocationID
                then c\<lparr>hc_output := False, hc_responses := False, hc_transport := False\<rparr> else c);
          c2 = (if \<not> (op_Responses opts \<and> op_closer opts)
                then c1\<lparr>hc_output := False, hc_responses := False, hc_transport := False\<rparr> else c1)
      in (c2\<lparr>hc_generation := generation, hc_invocationID := invocationID, hc_strict := True\<rparr>, t))"

definition scoped :: "HostClient \<Rightarrow> nat \<Rightarrow> string \<Rightarrow> HostClient" where
  "scoped c generation invocationID =
     c\<lparr>hc_generation := generation, hc_invocationID := invocationID, hc_expired := False, hc_strict := True\<rparr>"

text \<open>\<open>out\<close> and \<open>resp\<close> say whether the transport has an output and a response stream.\<close>

definition scopedTransport :: "HostClient \<Rightarrow> hostTransport option \<Rightarrow> bool \<Rightarrow> bool \<Rightarrow> nat \<Rightarrow> string \<Rightarrow> HostClient" where
  "scopedTransport c t out resp generation invocationID =
     (if (case t of None \<Rightarrow> True | Some t \<Rightarrow> \<not> ht_closer t) then
        \<lparr>hc_output = False, hc_responses = False, hc_transport = False, hc_maxResponseBytes = 0, hc_maxFrameBytes = 0,
         hc_generation = generation, hc_invocationID = invocationID, hc_expired = False, hc_strict = True\<rparr>
      else
        \<lparr>hc_output = out, hc_responses = resp, hc_transport = True, hc_maxResponseBytes = hc_maxResponseBytes c,
         hc_maxFrameBytes = hc_maxFrameBytes c, hc_generation = generation, hc_invocationID = invocationID,
         hc_expired = False, hc_strict = True\<rparr>)"

definition Expire :: "HostClient \<Rightarrow> HostClient" where
  "Expire c = c\<lparr>hc_expired := True\<rparr>"

definition Abort :: "HostClient \<Rightarrow> hostTransport \<Rightarrow> HostClient \<times> hostTransport" where
  "Abort c t = (c\<lparr>hc_expired := True\<rparr>, if hc_transport c then t\<lparr>ht_poisoned := True\<rparr> else t)"

definition Available :: "HostClient \<Rightarrow> bool" where
  "Available c \<longleftrightarrow> hc_output c \<and> hc_responses c"

text \<open>The file descriptor \<^verbatim>\<open>NewHostClientFromEnv\<close> reads responses from, given the environment
  variable's value; \<open>None\<close> gives a client without responses.\<close>

definition defaultHostResponseFD :: int where "defaultHostResponseFD = 3"

definition response_fd :: "string \<Rightarrow> int option" where
  "response_fd value =
     (let raw = TrimSpace value in
      if raw = [] then Some defaultHostResponseFD
      else case ParseInt raw of
        None \<Rightarrow> None
      | Some parsed \<Rightarrow> if parsed < defaultHostResponseFD then None else Some parsed)"

definition NewHostClientFromEnv :: "string \<Rightarrow> bool \<Rightarrow> HostClient \<times> hostTransport" where
  "NewHostClientFromEnv value output =
     NewHostClient \<lparr>op_Output = output, op_Responses = (response_fd value \<noteq> None),
       op_closer = (response_fd value \<noteq> None), op_MaxResponseBytes = 0\<rparr>"

section \<open>The response\<close>

datatype host_error =
    ErrHostUnavailable | ErrHostClientExpired | ErrContext | ErrIDExhausted | ErrStrictPayload | ErrWriteHostCall
  | ErrReadEOF | ErrReadFailed | ErrFrameLimit | ErrDecode | ErrMissingPayload | ErrInvalidPayload | ErrMissingResult
  | ErrResultLimit | ErrInvalidFailure | ErrFailureResult | ErrFailureError | ErrSuccessError | ErrInvalidError
  | ErrHostCallID | ErrIDMismatch | ErrHostCallIDMismatch | ErrCorrelation | ErrHost string

record hostResponse =
  hr_ID :: string
  hr_HostCallID :: string
  hr_Generation :: nat
  hr_InvocationID :: string
  hr_OK :: bool
  hr_Result :: string
  hr_Error :: string

record hostResponseEnvelope =
  he_Protocol :: nat
  he_Kind :: string
  he_Generation :: nat
  he_InvocationID :: string
  he_HostCallID :: string
  he_HostResponse :: hostResponse

definition zero_hostResponse :: hostResponse where
  "zero_hostResponse = \<lparr>hr_ID = [], hr_HostCallID = [], hr_Generation = 0, hr_InvocationID = [], hr_OK = False,
     hr_Result = [], hr_Error = []\<rparr>"

definition zero_hostResponseEnvelope :: hostResponseEnvelope where
  "zero_hostResponseEnvelope = \<lparr>he_Protocol = 0, he_Kind = [], he_Generation = 0, he_InvocationID = [],
     he_HostCallID = [], he_HostResponse = zero_hostResponse\<rparr>"

definition hostResponse_fields :: "(string \<times> hostResponse store) list" where
  "hostResponse_fields =
     [(''id'', store_string (\<lambda>s. hr_ID_update (\<lambda>_. s))),
      (''host_call_id'', store_string (\<lambda>s. hr_HostCallID_update (\<lambda>_. s))),
      (''generation'', store_uint (\<lambda>n. hr_Generation_update (\<lambda>_. n))),
      (''invocation_id'', store_string (\<lambda>s. hr_InvocationID_update (\<lambda>_. s))),
      (''ok'', store_bool (\<lambda>b. hr_OK_update (\<lambda>_. b))),
      (''result'', store_raw (\<lambda>s. hr_Result_update (\<lambda>_. s))),
      (''error'', store_string (\<lambda>s. hr_Error_update (\<lambda>_. s)))]"

definition hostResponseEnvelope_fields :: "(string \<times> hostResponseEnvelope store) list" where
  "hostResponseEnvelope_fields =
     [(''protocol'', store_uint (\<lambda>n. he_Protocol_update (\<lambda>_. n))),
      (''kind'', store_string (\<lambda>s. he_Kind_update (\<lambda>_. s))),
      (''generation'', store_uint (\<lambda>n. he_Generation_update (\<lambda>_. n))),
      (''invocation_id'', store_string (\<lambda>s. he_InvocationID_update (\<lambda>_. s))),
      (''host_call_id'', store_string (\<lambda>s. he_HostCallID_update (\<lambda>_. s))),
      (''host_response'', store_field he_HostResponse (\<lambda>p. he_HostResponse_update (\<lambda>_. p)) (store_struct hostResponse_fields False))]"

definition Unmarshal_text :: "string \<Rightarrow> string option" where
  "Unmarshal_text raw = Unmarshal (store_string (\<lambda>s _. s)) [] raw"

definition Unmarshal_bool :: "string \<Rightarrow> bool option" where
  "Unmarshal_bool raw = Unmarshal (store_bool (\<lambda>b _. b)) False raw"

definition absent :: "string \<Rightarrow> bool" where
  "absent raw \<longleftrightarrow> raw = [] \<or> raw = ''null''"

text \<open>The checks of the strict envelope's payload, in the order of the source.\<close>

definition strict_payload :: "HostClient \<Rightarrow> strictHostResponsePayload \<Rightarrow> host_error + hostResponse" where
  "strict_payload c p =
     (if absent (hp_ID p) \<or> absent (hp_OK p) then Inl ErrMissingPayload
      else case (Unmarshal_text (hp_ID p), Unmarshal_bool (hp_OK p)) of
        (Some i, Some ok) \<Rightarrow>
          if i = [] then Inl ErrInvalidPayload
          else if ok \<and> absent (hp_Result p) then Inl ErrMissingResult
          else if int (length (hp_Result p)) > hc_maxResponseBytes c then Inl ErrResultLimit
          else if \<not> ok \<and> absent (hp_Error p) then Inl ErrInvalidFailure
          else if \<not> ok \<and> hp_Result p \<noteq> [] then Inl ErrFailureResult
          else if \<not> ok \<and> (case Unmarshal_text (hp_Error p) of None \<Rightarrow> True | Some e \<Rightarrow> TrimSpace e = []) then Inl ErrFailureError
          else if ok \<and> hp_Error p \<noteq> [] then Inl ErrSuccessError
          else
            (case (if absent (hp_Error p) then Some [] else Unmarshal_text (hp_Error p)) of
               None \<Rightarrow> Inl ErrInvalidError
             | Some e \<Rightarrow> Inr (zero_hostResponse\<lparr>hr_ID := i, hr_OK := ok, hr_Result := hp_Result p, hr_Error := e\<rparr>))
      | _ \<Rightarrow> Inl ErrInvalidPayload)"

definition decode_response :: "HostClient \<Rightarrow> string \<Rightarrow> host_error + hostResponseEnvelope" where
  "decode_response c raw =
     (if hc_strict c then
        (case decode_host_response raw of
           None \<Rightarrow> Inl ErrDecode
         | Some s \<Rightarrow>
             (case strict_payload c (sr_HostResponse s) of
                Inl e \<Rightarrow> Inl e
              | Inr r \<Rightarrow> Inr \<lparr>he_Protocol = sr_Protocol s, he_Kind = sr_Kind s, he_Generation = sr_Generation s,
                  he_InvocationID = sr_InvocationID s, he_HostCallID = sr_HostCallID s, he_HostResponse = r\<rparr>))
      else case Unmarshal (store_struct hostResponseEnvelope_fields False) zero_hostResponseEnvelope raw of
        None \<Rightarrow> Inl ErrDecode
      | Some env \<Rightarrow> Inr env)"

definition correlated :: "HostClient \<Rightarrow> string \<Rightarrow> hostResponseEnvelope \<Rightarrow> bool" where
  "correlated c i env \<longleftrightarrow>
     he_Protocol env = 2 \<and> he_Kind env = ''host_response'' \<and> he_HostCallID env = i \<and> he_Generation env = hc_generation c \<and>
     he_InvocationID env = hc_invocationID c \<and> validInvocationID (he_InvocationID env) \<and> validHostCallID (he_HostCallID env)"

definition check_response :: "HostClient \<Rightarrow> string \<Rightarrow> string \<Rightarrow> hostResponseEnvelope \<Rightarrow> host_error + string" where
  "check_response c i meth env =
     (let r = he_HostResponse env in
      if int (length (hr_Result r)) > hc_maxResponseBytes c then Inl ErrResultLimit
      else if \<not> validHostCallID (hr_ID r) \<or> (hr_HostCallID r \<noteq> [] \<and> \<not> validHostCallID (hr_HostCallID r)) then Inl ErrHostCallID
      else if hr_ID r \<noteq> i then Inl ErrIDMismatch
      else if hr_HostCallID r \<noteq> [] \<and> hr_HostCallID r \<noteq> i then Inl ErrHostCallIDMismatch
      else if hc_strict c \<and> \<not> correlated c i env then Inl ErrCorrelation
      else if \<not> hr_OK r then
        Inl (ErrHost (meth @ '': '' @ (if hr_Error r = [] then ''host call failed'' else hr_Error r)))
      else Inr (hr_Result r))"

definition read_response :: "HostClient \<Rightarrow> string \<Rightarrow> string \<Rightarrow> string \<Rightarrow> host_error + string" where
  "read_response c i meth raw =
     (if int (length raw) > hc_maxFrameBytes c then Inl ErrFrameLimit
      else case decode_response c raw of
        Inl e \<Rightarrow> Inl e
      | Inr env \<Rightarrow> check_response c i meth env)"

section \<open>Call\<close>

datatype read_event = ReadLine string | ReadEOF | ReadFailed | ReadCancelled

record call_env =
  ce_ctx_err :: bool
  ce_wait_cancelled :: bool
  ce_expired :: bool
  ce_write_fails :: bool
  ce_ctx_after_write :: bool
  ce_read :: read_event

type_synonym call_result = "(host_error + string) \<times> HostClient \<times> hostTransport"

definition nil_transport :: hostTransport where
  "nil_transport = \<lparr>ht_exchange = False, ht_nextID = 0, ht_closer = False, ht_poisoned = False, ht_written = []\<rparr>"

definition call_id :: "nat \<Rightarrow> string" where
  "call_id n = CHR ''h'' # dec n"

definition call_frame :: "HostClient \<Rightarrow> string \<Rightarrow> string \<Rightarrow> string option \<Rightarrow> host_frame" where
  "call_frame c i meth prms =
     \<lparr>hf_strict = hc_strict c, hf_generation = (if hc_strict c then hc_generation c else 0),
      hf_invocationID = (if hc_strict c then hc_invocationID c else []), hf_id = i, hf_method = meth, hf_params = prms\<rparr>"

text \<open>From the write of the frame, with the exchange token held, to the return.\<close>

definition exchange_step ::
  "call_env \<Rightarrow> string \<Rightarrow> string option \<Rightarrow> HostClient \<Rightarrow> hostTransport \<Rightarrow> call_result" where
  "exchange_step env meth prms c t =
     (if ht_nextID t = maxUint64 then (Inl ErrIDExhausted, c, t)
      else
        let n = ht_nextID t + 1; t1 = t\<lparr>ht_nextID := n\<rparr>; i = call_id n in
        if ce_expired env then (Inl ErrHostClientExpired, Expire c, t1)
        else if hc_strict c \<and> (meth = [] \<or> prms = None) then (Inl ErrStrictPayload, c, t1)
        else if ce_write_fails env then (Inl ErrWriteHostCall, c, t1)
        else
          let t2 = t1\<lparr>ht_written := ht_written t1 @ [call_frame c i meth prms]\<rparr> in
          if ce_ctx_after_write env then (Inl ErrContext, Abort c t2)
          else case ce_read env of
            ReadCancelled \<Rightarrow> (Inl ErrContext, Abort c t2)
          | ReadEOF \<Rightarrow> (Inl ErrReadEOF, c, t2)
          | ReadFailed \<Rightarrow> (Inl ErrReadFailed, c, t2)
          | ReadLine raw \<Rightarrow> (read_response c i meth raw, c, t2))"

definition Call :: "call_env \<Rightarrow> string \<Rightarrow> string option \<Rightarrow> HostClient \<Rightarrow> hostTransport \<Rightarrow> call_result option" where
  "Call env meth prms c t =
     (if \<not> hc_output c \<or> \<not> hc_responses c then Some (Inl ErrHostUnavailable, c, t)
      else if ce_ctx_err env then Some (Inl ErrContext, c, t)
      else if hc_expired c then Some (Inl ErrHostClientExpired, c, t)
      else if hc_transport c \<and> ht_poisoned t then Some (Inl ErrHostClientExpired, c, t)
      else
        let t1 = (if hc_transport c then t else nil_transport); c1 = c\<lparr>hc_transport := True\<rparr> in
        if ce_wait_cancelled env then Some (Inl ErrContext, c1, t1)
        else if \<not> ht_exchange t1 then None
        else Some (exchange_step env meth prms c1 t1))"

section \<open>What one call does\<close>

lemma check_response_Inr:
  "check_response c i meth e = Inr result \<longleftrightarrow>
     hr_Result (he_HostResponse e) = result \<and> int (length result) \<le> hc_maxResponseBytes c \<and> hr_OK (he_HostResponse e) \<and>
     hr_ID (he_HostResponse e) = i \<and> validHostCallID i \<and> hr_HostCallID (he_HostResponse e) \<in> {[], i} \<and>
     (hc_strict c \<longrightarrow> correlated c i e)"
  by (auto simp: check_response_def Let_def)

lemma exchange_step_Inr:
  "exchange_step env meth prms c t = (Inr result, c', t') \<longleftrightarrow>
     ht_nextID t \<noteq> maxUint64 \<and> \<not> ce_expired env \<and> (hc_strict c \<longrightarrow> meth \<noteq> [] \<and> prms \<noteq> None) \<and> \<not> ce_write_fails env \<and>
     \<not> ce_ctx_after_write env \<and> c' = c \<and>
     t' = t\<lparr>ht_nextID := ht_nextID t + 1, ht_written := ht_written t @ [call_frame c (call_id (ht_nextID t + 1)) meth prms]\<rparr> \<and>
     (\<exists>raw. ce_read env = ReadLine raw \<and> read_response c (call_id (ht_nextID t + 1)) meth raw = Inr result)"
  by (auto simp: exchange_step_def Let_def Abort_def split: read_event.splits if_splits)

lemma strict_payload_Inr:
  "strict_payload c p = Inr r \<and> hr_OK r \<longleftrightarrow>
     \<not> absent (hp_ID p) \<and> \<not> absent (hp_OK p) \<and> Unmarshal_bool (hp_OK p) = Some True \<and> \<not> absent (hp_Result p) \<and>
     int (length (hp_Result p)) \<le> hc_maxResponseBytes c \<and> hp_Error p = [] \<and>
     (\<exists>i. Unmarshal_text (hp_ID p) = Some i \<and> i \<noteq> [] \<and> r = zero_hostResponse\<lparr>hr_ID := i, hr_OK := True, hr_Result := hp_Result p\<rparr>)"
  (is "?l \<longleftrightarrow> ?r")
proof
  assume l: ?l
  then obtain i ok where "\<not> absent (hp_ID p)" "\<not> absent (hp_OK p)" "Unmarshal_text (hp_ID p) = Some i" "Unmarshal_bool (hp_OK p) = Some ok"
    by (auto simp: strict_payload_def split: if_splits option.splits)
  then show ?r using l by (cases ok) (auto simp: strict_payload_def absent_def zero_hostResponse_def split: if_splits option.splits)
next
  assume ?r
  then show ?l by (auto simp: strict_payload_def absent_def zero_hostResponse_def)
qed

lemma valid_call_id: "0 < n \<Longrightarrow> n < 2 ^ 64 \<Longrightarrow> validHostCallID (call_id n)"
proof -
  assume n: "0 < n" "n < 2 ^ 64"
  have "1 \<le> length (dec n)" using dec_nonempty [of n] by (simp add: Suc_le_eq)
  then show ?thesis using n by (simp add: validHostCallID_def call_id_def ParseUint_dec)
qed

text \<open>The success of a call of an invocation's client, in terms of the frame that answers it.\<close>

definition answers :: "HostClient \<Rightarrow> string \<Rightarrow> strictHostResponseEnvelope \<Rightarrow> string \<Rightarrow> bool" where
  "answers c i f result \<longleftrightarrow>
     sr_Protocol f = 2 \<and> sr_Kind f = ''host_response'' \<and> sr_Generation f = hc_generation c \<and>
     sr_InvocationID f = hc_invocationID c \<and> sr_HostCallID f = i \<and>
     Unmarshal_text (hp_ID (sr_HostResponse f)) = Some i \<and> Unmarshal_bool (hp_OK (sr_HostResponse f)) = Some True \<and>
     hp_OK (sr_HostResponse f) \<noteq> ''null'' \<and> hp_Error (sr_HostResponse f) = [] \<and>
     hp_Result (sr_HostResponse f) = result \<and> result \<noteq> [] \<and> result \<noteq> ''null'' \<and> int (length result) \<le> hc_maxResponseBytes c"

lemma Unmarshal_text_absent: "Unmarshal_text raw = Some i \<Longrightarrow> i \<noteq> [] \<Longrightarrow> \<not> absent raw"
proof
  assume u: "Unmarshal_text raw = Some i" "i \<noteq> []" "absent raw"
  have "parse_document [] = None"
    by (simp add: parse_document_def parse_first_def parse_fuel_def value_body_def scalar_body_def starts_def
        HasPrefix_def num_prefix_def num_sign_def num_whole_def)
  then show False using u by (auto simp: absent_def Unmarshal_text_def Unmarshal_def parse_null store_string_def)
qed

lemma Unmarshal_bool_absent: "Unmarshal_bool raw = Some b \<Longrightarrow> raw \<noteq> ''null'' \<Longrightarrow> \<not> absent raw"
proof
  assume u: "Unmarshal_bool raw = Some b" "raw \<noteq> ''null''" "absent raw"
  have "parse_document [] = None"
    by (simp add: parse_document_def parse_first_def parse_fuel_def value_body_def scalar_body_def starts_def
        HasPrefix_def num_prefix_def num_sign_def num_whole_def)
  then show False using u by (auto simp: absent_def Unmarshal_bool_def Unmarshal_def)
qed

lemma read_response_strict:
  assumes "hc_strict c" and "validInvocationID (hc_invocationID c)" and "validHostCallID i"
  shows "read_response c i meth raw = Inr result \<longleftrightarrow>
     int (length raw) \<le> hc_maxFrameBytes c \<and> (\<exists>f. decode_host_response raw = Some f \<and> answers c i f result)"
proof -
  have ne: "i \<noteq> []" using assms(3) by (auto simp: validHostCallID_def)
  have "(\<exists>e. decode_response c raw = Inr e \<and> check_response c i meth e = Inr result) \<longleftrightarrow>
      (\<exists>f. decode_host_response raw = Some f \<and> answers c i f result)" (is "?l \<longleftrightarrow> ?r")
  proof
    assume ?l
    then obtain f r where f: "decode_host_response raw = Some f" "strict_payload c (sr_HostResponse f) = Inr r"
        "check_response c i meth \<lparr>he_Protocol = sr_Protocol f, he_Kind = sr_Kind f, he_Generation = sr_Generation f,
           he_InvocationID = sr_InvocationID f, he_HostCallID = sr_HostCallID f, he_HostResponse = r\<rparr> = Inr result"
      using assms(1) by (auto simp: decode_response_def split: option.splits sum.splits)
    then have "hr_OK r" by (simp add: check_response_Inr)
    then show ?r using f strict_payload_Inr [of c "sr_HostResponse f" r] assms(1)
      by (auto simp: check_response_Inr correlated_def answers_def absent_def)
  next
    assume ?r
    then obtain f where f: "decode_host_response raw = Some f" "answers c i f result" by blast
    let ?r = "zero_hostResponse\<lparr>hr_ID := i, hr_OK := True, hr_Result := result\<rparr>"
    have "strict_payload c (sr_HostResponse f) = Inr ?r"
      using strict_payload_Inr [of c "sr_HostResponse f" ?r] f(2) ne Unmarshal_text_absent Unmarshal_bool_absent
      by (auto simp: answers_def absent_def)
    then show ?l using f assms
      by (simp add: decode_response_def check_response_Inr correlated_def answers_def zero_hostResponse_def)
  qed
  then show ?thesis by (auto simp: read_response_def split: sum.splits)
qed

lemma Call_ok:
  assumes "hc_strict c" and "hc_transport c" and "ht_exchange t" and "validInvocationID (hc_invocationID c)" and "ht_nextID t \<le> maxUint64"
  shows "Call env meth prms c t = Some (Inr result, c', t') \<longleftrightarrow>
     Available c \<and> \<not> hc_expired c \<and> \<not> ht_poisoned t \<and> ht_nextID t < maxUint64 \<and> meth \<noteq> [] \<and> prms \<noteq> None \<and>
     \<not> ce_ctx_err env \<and> \<not> ce_wait_cancelled env \<and> \<not> ce_expired env \<and> \<not> ce_write_fails env \<and> \<not> ce_ctx_after_write env \<and>
     (\<exists>raw f. ce_read env = ReadLine raw \<and> int (length raw) \<le> hc_maxFrameBytes c \<and> decode_host_response raw = Some f \<and>
        answers c (call_id (ht_nextID t + 1)) f result) \<and>
     c' = c \<and> t' = t\<lparr>ht_nextID := ht_nextID t + 1, ht_written := ht_written t @ [call_frame c (call_id (ht_nextID t + 1)) meth prms]\<rparr>"
proof -
  have c: "c\<lparr>hc_transport := True\<rparr> = c" using assms(2) by (cases c) simp
  have v: "validHostCallID (call_id (ht_nextID t + 1))" if "ht_nextID t \<noteq> maxUint64"
    using that assms(5) by (intro valid_call_id) (auto simp: maxUint64_def)
  have l: "ht_nextID t < maxUint64 \<longleftrightarrow> ht_nextID t \<noteq> maxUint64" using assms(5) by auto
  have "Call env meth prms c t = Some (Inr result, c', t') \<longleftrightarrow>
      Available c \<and> \<not> ce_ctx_err env \<and> \<not> hc_expired c \<and> \<not> ht_poisoned t \<and> \<not> ce_wait_cancelled env \<and>
      exchange_step env meth prms c t = (Inr result, c', t')"
    unfolding Call_def Let_def Available_def c using assms(2,3) by auto
  then show ?thesis unfolding exchange_step_Inr l using read_response_strict [OF assms(1,4) v] assms(1) by auto
qed

text \<open>
  C20. A call of an invocation's client on a live transport succeeds exactly when nothing ends the lease
  or the context meanwhile, the call is well formed, an id is left, and the line read back is a frame
  within the limit whose envelope carries protocol 2, this generation, this invocation and this
  call's id (twice), says ok, and has a result within the payload limit and no error. What it
  returns are the bytes of that result, and it has written exactly one frame, under a new id.
\<close>
theorem Call_ok_iff:
  assumes "hc_strict c" and "hc_transport c" and "ht_exchange t" and "validInvocationID (hc_invocationID c)" and "ht_nextID t \<le> maxUint64"
  shows "Call env meth prms c t = Some (Inr result, c', t') \<longleftrightarrow>
     Available c \<and> \<not> hc_expired c \<and> \<not> ht_poisoned t \<and> ht_nextID t < maxUint64 \<and> meth \<noteq> [] \<and> prms \<noteq> None \<and>
     \<not> ce_ctx_err env \<and> \<not> ce_wait_cancelled env \<and> \<not> ce_expired env \<and> \<not> ce_write_fails env \<and> \<not> ce_ctx_after_write env \<and>
     (\<exists>raw f. ce_read env = ReadLine raw \<and> int (length raw) \<le> hc_maxFrameBytes c \<and> decode_host_response raw = Some f \<and>
        answers c (call_id (ht_nextID t + 1)) f result) \<and>
     c' = c \<and> t' = t\<lparr>ht_nextID := ht_nextID t + 1, ht_written := ht_written t @ [call_frame c (call_id (ht_nextID t + 1)) meth prms]\<rparr>"
  by (rule Call_ok [OF assms])

definition sample_client :: HostClient where
  "sample_client = fst (NewInvocationHostClient \<lparr>op_Output = True, op_Responses = True, op_closer = True, op_MaxResponseBytes = 0\<rparr> 7 ''12'')"

definition sample_raw :: string where
  "sample_raw = tilde_json
     ''{~protocol~:2,~kind~:~host_response~,~generation~:7,~invocation_id~:~12~,~host_call_id~:~h1~,~host_response~:{~id~:~h1~,~ok~:true,~result~:[1]}}''"

definition sample_frame :: strictHostResponseEnvelope where
  "sample_frame = \<lparr>sr_Protocol = 2, sr_Kind = ''host_response'', sr_Generation = 7, sr_InvocationID = ''12'', sr_HostCallID = ''h1'',
     sr_HostResponse = \<lparr>hp_ID = tilde_json ''~h1~'', hp_OK = ''true'', hp_Result = ''[1]'', hp_Error = []\<rparr>\<rparr>"

definition sample_env :: call_env where
  "sample_env = \<lparr>ce_ctx_err = False, ce_wait_cancelled = False, ce_expired = False, ce_write_fails = False,
     ce_ctx_after_write = False, ce_read = ReadLine sample_raw\<rparr>"

definition sample_transport :: hostTransport where
  "sample_transport = (new_transport True)\<lparr>ht_nextID := 1, ht_written := [call_frame sample_client ''h1'' ''kv.get'' (Some ''{}'')]\<rparr>"

lemma sample_facts:
  "hc_strict sample_client" "hc_transport sample_client" "ht_exchange (new_transport True)"
  "validInvocationID (hc_invocationID sample_client)" "Available sample_client" "\<not> hc_expired sample_client"
  "\<not> ht_poisoned (new_transport True)" "call_id (ht_nextID (new_transport True) + 1) = ''h1''"
  "ht_nextID (new_transport True) = 0" "ht_written (new_transport True) = []"
  "decode_host_response sample_raw = Some sample_frame"
  "answers sample_client (call_id (ht_nextID (new_transport True) + 1)) sample_frame ''[1]''"
  "int (length sample_raw) \<le> hc_maxFrameBytes sample_client"
  by code_simp+

lemma sample_id: "ht_nextID (new_transport True) < maxUint64" "ht_nextID (new_transport True) \<le> maxUint64"
  by (simp_all add: new_transport_def maxUint64_def)

theorem Call_ok_iff_witness:
  "hc_strict sample_client \<and> hc_transport sample_client \<and> ht_exchange (new_transport True)
   \<and> validInvocationID (hc_invocationID sample_client) \<and> ht_nextID (new_transport True) \<le> maxUint64
   \<and> Call sample_env ''kv.get'' (Some ''{}'') sample_client (new_transport True) = Some (Inr ''[1]'', sample_client, sample_transport)"
  using Call_ok_iff [OF sample_facts(1-4) sample_id(2), of sample_env "''kv.get''" "Some ''{}''" "''[1]''"] sample_facts sample_id
  by (simp add: sample_env_def sample_transport_def)

lemma sample_call:
  "Call sample_env ''kv.get'' (Some ''{}'') sample_client (new_transport True) = Some (Inr ''[1]'', sample_client, sample_transport)"
  using Call_ok [OF sample_facts(1-4) sample_id(2), of sample_env "''kv.get''" "Some ''{}''" "''[1]''"] sample_facts sample_id
  by (simp add: sample_env_def sample_transport_def)

section \<open>Leases over one transport\<close>

text \<open>
  Any number of invocation clients over one transport, as \<^verbatim>\<open>ServeV2\<close> opens them: a client is opened,
  calls, and is expired or aborted, in any order and interleaving at the granularity of calls.
  \<open>hs_log\<close> records which client wrote which frame.
\<close>

record host_state =
  hs_clients :: "nat \<Rightarrow> HostClient option"
  hs_transport :: hostTransport
  hs_log :: "(nat \<times> host_frame) list"

definition host_start :: "bool \<Rightarrow> host_state" where
  "host_start closer = \<lparr>hs_clients = Map.empty, hs_transport = new_transport closer, hs_log = []\<rparr>"

inductive host_step :: "HostClient \<Rightarrow> host_state \<Rightarrow> host_state \<Rightarrow> bool" for base where
  open_client: "hs_clients s k = None \<Longrightarrow> c = scopedTransport base (Some (hs_transport s)) out resp g iid \<Longrightarrow>
    host_step base s (s\<lparr>hs_clients := (hs_clients s)(k \<mapsto> c)\<rparr>)"
| call_client: "hs_clients s k = Some c \<Longrightarrow> Call env meth prms c (hs_transport s) = Some (r, c', t') \<Longrightarrow>
    new = drop (length (ht_written (hs_transport s))) (ht_written t') \<Longrightarrow>
    host_step base s (s\<lparr>hs_clients := (hs_clients s)(k \<mapsto> c'), hs_transport := t', hs_log := hs_log s @ map (Pair k) new\<rparr>)"
| expire_client: "hs_clients s k = Some c \<Longrightarrow> host_step base s (s\<lparr>hs_clients := (hs_clients s)(k \<mapsto> Expire c)\<rparr>)"
| abort_client: "hs_clients s k = Some c \<Longrightarrow> Abort c (hs_transport s) = (c', t') \<Longrightarrow>
    host_step base s (s\<lparr>hs_clients := (hs_clients s)(k \<mapsto> c'), hs_transport := t'\<rparr>)"

inductive_cases host_stepE: "host_step base s s'"

text \<open>What a call can do to its client and its transport.\<close>

definition lease_ok :: "HostClient \<Rightarrow> bool" where
  "lease_ok c \<longleftrightarrow> hc_strict c \<and> (hc_output c \<longrightarrow> hc_transport c)"

lemma lease_transport: "lease_ok c \<Longrightarrow> hc_output c \<Longrightarrow> c\<lparr>hc_transport := True\<rparr> = c"
  by (cases c) (simp add: lease_ok_def)

lemma call_effect:
  assumes "Call env meth prms c t = Some (r, c', t')" and "lease_ok c" and "ht_nextID t \<le> maxUint64"
  shows "lease_ok c' \<and> (hc_expired c \<longrightarrow> hc_expired c') \<and> hc_generation c' = hc_generation c \<and> hc_invocationID c' = hc_invocationID c
     \<and> ht_exchange t' = ht_exchange t \<and> ht_closer t' = ht_closer t \<and> (ht_poisoned t \<longrightarrow> ht_poisoned t')
     \<and> ht_nextID t \<le> ht_nextID t' \<and> ht_nextID t' \<le> maxUint64
     \<and> (ht_written t' = ht_written t
        \<or> (\<not> hc_expired c \<and> \<not> ht_poisoned t \<and> ht_nextID t' = ht_nextID t + 1
           \<and> ht_written t' = ht_written t @ [call_frame c (call_id (ht_nextID t')) meth prms]))"
proof (cases "hc_output c \<and> hc_responses c \<and> \<not> ce_ctx_err env \<and> \<not> hc_expired c \<and> \<not> ht_poisoned t")
  case False
  then have "(c', t') = (c, t)" using assms(1,2) unfolding Call_def by (auto simp: lease_ok_def split: if_splits)
  then show ?thesis using assms(2,3) by simp
next
  case True
  have c: "c\<lparr>hc_transport := True\<rparr> = c" using lease_transport [OF assms(2)] True by simp
  have "hc_transport c" using True assms(2) by (simp add: lease_ok_def)
  then have "(c', t') = (c, t) \<or> exchange_step env meth prms c t = (r, c', t')"
    using assms(1) True unfolding Call_def Let_def c by (auto split: if_splits)
  then show ?thesis
  proof
    assume "exchange_step env meth prms c t = (r, c', t')"
    then show ?thesis using True assms(2,3) \<open>hc_transport c\<close>
      by (auto simp: exchange_step_def Let_def Abort_def Expire_def lease_ok_def split: if_splits read_event.splits)
  qed (use assms in simp)
qed

lemma Call_returns:
  assumes "lease_ok c" and "ht_exchange t"
  shows "\<exists>x. Call env meth prms c t = Some x"
proof (cases "hc_output c")
  case True
  obtain a b c' where "exchange_step env meth prms (c\<lparr>hc_transport := True\<rparr>) t = (a, b, c')" by (rule prod_cases3)
  then show ?thesis using True assms unfolding Call_def Let_def by (simp add: lease_ok_def)
qed (simp add: Call_def)

text \<open>The invariant of a transport and its clients: every frame is in the log under the client that
  wrote it, with that client's generation and invocation, and the ids are those of an increasing
  run of numbers no later call can use again.\<close>

definition numbered :: "host_frame list \<Rightarrow> nat \<Rightarrow> bool" where
  "numbered fs m \<longleftrightarrow> (\<exists>ns. map hf_id fs = map call_id ns \<and> sorted_wrt (<) ns \<and> list_all (\<lambda>n. 0 < n \<and> n \<le> m) ns)"

definition owned :: "(nat \<Rightarrow> HostClient option) \<Rightarrow> nat \<times> host_frame \<Rightarrow> bool" where
  "owned cs kf \<longleftrightarrow> (\<exists>c. cs (fst kf) = Some c \<and> hf_strict (snd kf) \<and> hf_generation (snd kf) = hc_generation c
     \<and> hf_invocationID (snd kf) = hc_invocationID c)"

definition leases :: "(nat \<Rightarrow> HostClient option) \<Rightarrow> bool" where
  "leases cs \<longleftrightarrow> (\<forall>k c. cs k = Some c \<longrightarrow> lease_ok c)"

definition host_inv :: "host_state \<Rightarrow> bool" where
  "host_inv s \<longleftrightarrow>
     ht_exchange (hs_transport s) \<and> ht_nextID (hs_transport s) \<le> maxUint64
     \<and> leases (hs_clients s)
     \<and> map snd (hs_log s) = ht_written (hs_transport s)
     \<and> numbered (ht_written (hs_transport s)) (ht_nextID (hs_transport s))
     \<and> list_all (owned (hs_clients s)) (hs_log s)"

lemma numbered_mono: "numbered fs m \<Longrightarrow> m \<le> n \<Longrightarrow> numbered fs n"
  unfolding numbered_def list_all_iff by (meson order_trans)

lemma numbered_snoc:
  assumes "numbered fs m" and "hf_id f = call_id (m + 1)"
  shows "numbered (fs @ [f]) (m + 1)"
proof -
  obtain ns where ns: "map hf_id fs = map call_id ns" "sorted_wrt (<) ns" "list_all (\<lambda>n. 0 < n \<and> n \<le> m) ns"
    using assms(1) by (auto simp: numbered_def)
  have "sorted_wrt (<) (ns @ [m + 1])" using ns(2,3) by (auto simp: sorted_wrt_append list_all_iff)
  moreover have "list_all (\<lambda>n. 0 < n \<and> n \<le> m + 1) (ns @ [m + 1])" using ns(3) by (auto simp: list_all_iff)
  ultimately show ?thesis using ns(1) assms(2) unfolding numbered_def by (intro exI [of _ "ns @ [m + 1]"]) simp
qed

lemma numbered_distinct: "numbered fs m \<Longrightarrow> distinct (map hf_id fs)"
proof -
  assume "numbered fs m"
  then obtain ns where ns: "map hf_id fs = map call_id ns" "sorted_wrt (<) ns" by (auto simp: numbered_def)
  then have "distinct ns" by (simp add: strict_sorted_iff)
  then show ?thesis using ns(1) by (simp add: distinct_map inj_on_def call_id_def)
qed

lemma host_inv_start: "host_inv (host_start closer)"
  by (simp add: host_inv_def host_start_def new_transport_def numbered_def leases_def)

lemma scoped_lease_ok: "lease_ok (scopedTransport base t out resp g iid)"
  by (auto simp: scopedTransport_def lease_ok_def)

lemma leases_upd: "leases cs \<Longrightarrow> lease_ok c \<Longrightarrow> leases (cs(k \<mapsto> c))"
  by (auto simp: leases_def)

lemma owned_new: "cs k = None \<Longrightarrow> list_all (owned cs) l \<Longrightarrow> list_all (owned (cs(k \<mapsto> c))) l"
  by (auto simp: owned_def list_all_iff)

lemma owned_upd:
  "cs k = Some c \<Longrightarrow> hc_generation c' = hc_generation c \<Longrightarrow> hc_invocationID c' = hc_invocationID c \<Longrightarrow>
     list_all (owned cs) l \<Longrightarrow> list_all (owned (cs(k \<mapsto> c'))) l"
  unfolding list_all_iff by (auto simp: owned_def split: if_splits)

lemma host_inv_step:
  assumes "host_step base s s'" and "host_inv s"
  shows "host_inv s'"
  using assms(1)
proof (cases rule: host_step.cases)
  case (open_client k c out resp g iid)
  then show ?thesis using assms(2) by (simp add: host_inv_def leases_upd owned_new scoped_lease_ok)
next
  case (call_client k c env meth prms r c' t' new)
  have c: "lease_ok c" using assms(2) call_client(2) by (simp add: host_inv_def leases_def)
  note i = assms(2) [unfolded host_inv_def]
  have n: "ht_nextID (hs_transport s) \<le> maxUint64" using i by blast
  note e = call_effect [OF call_client(3) c n]
  have o: "list_all (owned ((hs_clients s)(k \<mapsto> c'))) (hs_log s)" using i e by (intro owned_upd [where cs = "hs_clients s" and k = k, OF call_client(2)]) auto
  have l: "leases ((hs_clients s)(k \<mapsto> c'))" using i e by (intro leases_upd) auto
  consider (silent) "ht_written t' = ht_written (hs_transport s)" "new = []"
    | (wrote) "new = [call_frame c (call_id (ht_nextID (hs_transport s) + 1)) meth prms]"
        "ht_nextID t' = ht_nextID (hs_transport s) + 1" "ht_written t' = ht_written (hs_transport s) @ new"
  proof -
    have "ht_written t' = ht_written (hs_transport s) \<or> ht_nextID t' = ht_nextID (hs_transport s) + 1
       \<and> ht_written t' = ht_written (hs_transport s) @ [call_frame c (call_id (ht_nextID t')) meth prms]" using e by blast
    then show thesis using that by (elim disjE conjE) (simp_all add: call_client(4))
  qed
  then have "numbered (ht_written t') (ht_nextID t') \<and> map snd (hs_log s @ map (Pair k) new) = ht_written t'
     \<and> list_all (owned ((hs_clients s)(k \<mapsto> c'))) (map (Pair k) new)"
  proof cases
    case silent
    then show ?thesis using i e by (auto intro: numbered_mono)
  next
    case wrote
    have "numbered (ht_written t') (ht_nextID t')"
      unfolding wrote(2,3) wrote(1) by (rule numbered_snoc) (use i in \<open>simp_all add: call_frame_def\<close>)
    moreover have "hc_strict c" "hc_generation c' = hc_generation c" "hc_invocationID c' = hc_invocationID c"
      using c e by (simp_all add: lease_ok_def)
    then have "owned ((hs_clients s)(k \<mapsto> c')) (k, call_frame c (call_id (ht_nextID (hs_transport s) + 1)) meth prms)"
      by (simp add: owned_def call_frame_def)
    ultimately show ?thesis using i wrote by (simp add: comp_def)
  qed
  then show ?thesis using i e o l unfolding host_inv_def call_client(1) by simp
next
  case (expire_client k c)
  have "lease_ok (Expire c)" using assms(2) expire_client(2) by (auto simp: host_inv_def leases_def lease_ok_def Expire_def)
  then show ?thesis using assms(2) expire_client owned_upd [where cs = "hs_clients s" and k = k, OF expire_client(2), of "Expire c"]
    by (simp add: host_inv_def leases_upd Expire_def)
next
  case (abort_client k c c' t')
  have "lease_ok c'" "hc_generation c' = hc_generation c" "hc_invocationID c' = hc_invocationID c"
    using assms(2) abort_client(2,3) by (auto simp: host_inv_def leases_def lease_ok_def Abort_def)
  moreover have "ht_exchange t' = ht_exchange (hs_transport s)" "ht_nextID t' = ht_nextID (hs_transport s)"
    "ht_written t' = ht_written (hs_transport s)" using abort_client(3) by (auto simp: Abort_def split: if_splits)
  ultimately show ?thesis using assms(2) abort_client(1) owned_upd [where cs = "hs_clients s" and k = k, OF abort_client(2), of c'] by (simp add: host_inv_def leases_upd)
qed

lemma host_inv_reachable: "(host_step base)\<^sup>*\<^sup>* s s' \<Longrightarrow> host_inv s \<Longrightarrow> host_inv s'"
  by (induction rule: rtranclp_induct) (auto intro: host_inv_step)

text \<open>A lease that has ended, and a transport that has been poisoned, stay so and stay silent.\<close>

definition written_by :: "nat \<Rightarrow> host_state \<Rightarrow> host_frame list" where
  "written_by k s = map snd (filter (\<lambda>kf. fst kf = k) (hs_log s))"

definition ended :: "nat \<Rightarrow> host_state \<Rightarrow> bool" where
  "ended k s \<longleftrightarrow> (\<exists>c. hs_clients s k = Some c \<and> hc_expired c)"

lemma call_silent:
  assumes "Call env meth prms c t = Some (r, c', t')" and "lease_ok c" and "hc_expired c \<or> ht_poisoned t" and "Available c"
  shows "c' = c \<and> t' = t \<and> (r = Inl ErrHostClientExpired \<or> r = Inl ErrContext)"
  using assms by (auto simp: Call_def Available_def lease_ok_def split: if_splits)

lemma call_unavailable: "\<not> Available c \<Longrightarrow> Call env meth prms c t = Some (Inl ErrHostUnavailable, c, t)"
  by (auto simp: Call_def Available_def)

lemma ended_step:
  assumes "host_step base s s'" and "host_inv s" and "ended k s"
  shows "ended k s' \<and> written_by k s' = written_by k s"
  using assms(1)
proof (cases rule: host_step.cases)
  case (call_client j c env meth prms r c' t' new)
  have c: "lease_ok c" using assms(2) call_client(2) by (simp add: host_inv_def leases_def)
  have n: "ht_nextID (hs_transport s) \<le> maxUint64" using assms(2) by (simp add: host_inv_def)
  note e = call_effect [OF call_client(3) c n]
  show ?thesis
  proof (cases "j = k")
    case True
    then have x: "hc_expired c" using assms(3) call_client(2) by (auto simp: ended_def)
    then have "new = []" using e call_client(4) by auto
    then show ?thesis using x e True call_client(1) by (auto simp: ended_def written_by_def)
  next
    case False
    then show ?thesis using assms(3) call_client(1) by (auto simp: ended_def written_by_def filter_map comp_def)
  qed
qed (use assms(3) in \<open>auto simp: ended_def written_by_def Expire_def Abort_def\<close>)

lemma poisoned_step:
  assumes "host_step base s s'" and "host_inv s" and "ht_poisoned (hs_transport s)"
  shows "ht_poisoned (hs_transport s') \<and> ht_written (hs_transport s') = ht_written (hs_transport s)"
  using assms(1)
proof (cases rule: host_step.cases)
  case (call_client j c env meth prms r c' t' new)
  have c: "lease_ok c" using assms(2) call_client(2) by (simp add: host_inv_def leases_def)
  have n: "ht_nextID (hs_transport s) \<le> maxUint64" using assms(2) by (simp add: host_inv_def)
  show ?thesis using call_effect [OF call_client(3) c n] assms(3) call_client(1) by auto
qed (use assms(3) in \<open>auto simp: Abort_def\<close>)

text \<open>
  C18. Over any interleaving of invocations on one transport, every frame written carries the generation
  and invocation of the client that wrote it, the host call ids of all frames are valid and pairwise
  distinct, and the id counter never wraps.
\<close>
theorem host_calls_invariant:
  assumes "(host_step base)\<^sup>*\<^sup>* (host_start closer) s"
  shows "distinct (map hf_id (ht_written (hs_transport s))) \<and> list_all (\<lambda>f. validHostCallID (hf_id f)) (ht_written (hs_transport s))
     \<and> ht_nextID (hs_transport s) < 2 ^ 64 \<and> map snd (hs_log s) = ht_written (hs_transport s)
     \<and> list_all (\<lambda>(k, f). \<exists>c. hs_clients s k = Some c \<and> hf_generation f = hc_generation c \<and> hf_invocationID f = hc_invocationID c) (hs_log s)"
proof -
  have i: "host_inv s" using host_inv_reachable [OF assms host_inv_start] .
  then have n: "numbered (ht_written (hs_transport s)) (ht_nextID (hs_transport s))" and m: "ht_nextID (hs_transport s) \<le> maxUint64"
    by (auto simp: host_inv_def)
  obtain ns where ns: "map hf_id (ht_written (hs_transport s)) = map call_id ns" "list_all (\<lambda>n. 0 < n \<and> n \<le> ht_nextID (hs_transport s)) ns"
    using n by (auto simp: numbered_def)
  have v: "validHostCallID (call_id n)" if "n \<in> set ns" for n
    using that ns(2) m by (intro valid_call_id) (auto simp: list_all_iff maxUint64_def)
  have "validHostCallID x" if "x \<in> set (map hf_id (ht_written (hs_transport s)))" for x
    using that v unfolding ns(1) by auto
  then have "list_all (\<lambda>f. validHostCallID (hf_id f)) (ht_written (hs_transport s))" by (simp add: list_all_iff)
  moreover have "list_all (\<lambda>(k, f). \<exists>c. hs_clients s k = Some c \<and> hf_generation f = hc_generation c \<and> hf_invocationID f = hc_invocationID c) (hs_log s)"
    using i unfolding host_inv_def list_all_iff owned_def by fastforce
  ultimately show ?thesis using i m numbered_distinct [OF n] by (simp add: host_inv_def maxUint64_def)
qed

lemma ended_reachable:
  assumes "(host_step base)\<^sup>*\<^sup>* s s'" and "host_inv s" and "ended k s"
  shows "ended k s' \<and> written_by k s' = written_by k s"
  using assms(1) by (induction rule: rtranclp_induct) (use assms(2,3) in \<open>auto dest: ended_step host_inv_reachable\<close>)

lemma poisoned_reachable:
  assumes "(host_step base)\<^sup>*\<^sup>* s s'" and "host_inv s" and "ht_poisoned (hs_transport s)"
  shows "ht_poisoned (hs_transport s') \<and> ht_written (hs_transport s') = ht_written (hs_transport s)"
  using assms(1) by (induction rule: rtranclp_induct) (use assms(2,3) in \<open>auto dest: poisoned_step host_inv_reachable\<close>)



text \<open>A run for the witnesses: an invocation is opened, makes a call that succeeds, and its lease expires.\<close>

definition sample_opened :: host_state where
  "sample_opened = (host_start True)\<lparr>hs_clients := [0 \<mapsto> sample_client]\<rparr>"

definition sample_called :: host_state where
  "sample_called = sample_opened\<lparr>hs_transport := sample_transport, hs_log := [(0, call_frame sample_client ''h1'' ''kv.get'' (Some ''{}''))]\<rparr>"

definition sample_expired :: host_state where
  "sample_expired = sample_called\<lparr>hs_clients := [0 \<mapsto> Expire sample_client]\<rparr>"

lemma sample_scoped: "scopedTransport sample_client (Some (new_transport True)) True True 7 ''12'' = sample_client"
  by code_simp

lemma sample_run:
  "(host_step sample_client)\<^sup>*\<^sup>* (host_start True) sample_called" "host_step sample_client sample_called sample_expired"
proof -
  have "host_step sample_client (host_start True) ((host_start True)\<lparr>hs_clients := (hs_clients (host_start True))(0 \<mapsto> sample_client)\<rparr>)"
    by (rule open_client [where out = True and resp = True and g = 7 and iid = "''12''"]) (simp_all add: host_start_def sample_scoped)
  then have 1: "host_step sample_client (host_start True) sample_opened" by (simp add: sample_opened_def host_start_def)
  have "host_step sample_client sample_opened (sample_opened\<lparr>hs_clients := (hs_clients sample_opened)(0 \<mapsto> sample_client),
      hs_transport := sample_transport, hs_log := hs_log sample_opened @ map (Pair 0) [call_frame sample_client ''h1'' ''kv.get'' (Some ''{}'')]\<rparr>)"
    by (rule call_client [where c = sample_client and env = sample_env and meth = "''kv.get''" and prms = "Some ''{}''" and r = "Inr ''[1]''"])
      (simp_all add: sample_opened_def host_start_def sample_call sample_transport_def sample_facts(10))
  then have 2: "host_step sample_client sample_opened sample_called" by (simp add: sample_called_def sample_opened_def host_start_def)
  show "(host_step sample_client)\<^sup>*\<^sup>* (host_start True) sample_called" using 1 2 by (meson r_into_rtranclp rtranclp_trans)
  have "host_step sample_client sample_called (sample_called\<lparr>hs_clients := (hs_clients sample_called)(0 \<mapsto> Expire sample_client)\<rparr>)"
    by (rule expire_client) (simp add: sample_called_def sample_opened_def)
  then show "host_step sample_client sample_called sample_expired"
    by (simp add: sample_expired_def sample_called_def sample_opened_def)
qed

theorem host_calls_invariant_witness:
  "(host_step sample_client)\<^sup>*\<^sup>* (host_start True) sample_called
   \<and> map hf_id (ht_written (hs_transport sample_called)) = [''h1''] \<and> list_all (\<lambda>f. validHostCallID (hf_id f)) (ht_written (hs_transport sample_called))"
  using sample_run(1) host_calls_invariant [OF sample_run(1)]
  by (simp add: sample_called_def sample_opened_def sample_transport_def call_frame_def)



end
