(* ===== verification/Json_Roundtrip.thy ===== *)
theory Json_Roundtrip
  imports Strictjson_Decode Go_Json_Encode
begin

text \<open>
  What the encoder writes, the decoder reads back: strings of safe ASCII are written as they are,
  and an object the encoder assembles is parsed to its members.
\<close>

section \<open>Safe strings\<close>

lemma quote_loop_safe: "list_all html_safe s \<Longrightarrow> quote_loop s = s"
proof (induction s)
  case (Cons c s)
  then have c: "ord c < 0x80" "escape_ascii c = [c]" by (simp_all add: html_safe_def escape_ascii_def)
  show ?case using Cons c by (subst quote_loop.simps) simp
qed (simp add: quote_loop.simps)

lemma str_body_safe: "list_all html_safe s \<Longrightarrow> str_body s \<and> list_all plain_char s"
  by (induction s) (auto simp: html_safe_def plain_char_def)

lemma Unmarshal_safe: "list_all html_safe s \<Longrightarrow> Unmarshal_string (json_quote s) = Some s"
  using str_body_safe [of s] unquote_plain [of s] by (simp add: json_quote_def quote_loop_safe)

lemma str_text_safe: "list_all html_safe s \<Longrightarrow> str_text (json_quote s)"
  using str_body_safe [of s] by (auto simp: str_text_def json_quote_def quote_loop_safe)

lemma parse_quote: "list_all html_safe s \<Longrightarrow> parse_document (json_quote s) = Some (JString (json_quote s))"
  using parses_document [OF str_parses [OF str_text_safe], of s 0] by simp

lemma b64_safe: "list_all html_safe (b64_EncodeToString s)"
proof -
  have v: "html_safe c" if "b64_val c \<noteq> None" for c
  proof -
    have "0x20 \<le> ord c \<and> ord c < 0x80" using that by (auto simp: b64_val_def Let_def split: if_splits)
    moreover have "b64_val CHR 0x22 = None" "b64_val CHR 0x5C = None" "b64_val CHR ''<'' = None" "b64_val CHR ''>'' = None" "b64_val CHR ''&'' = None"
      by (simp_all add: b64_val_def ord_def)
    then have "c \<notin> {CHR 0x22, CHR 0x5C, CHR ''<'', CHR ''>'', CHR ''&''}" using that by auto
    ultimately show ?thesis by (simp add: html_safe_def)
  qed
  then have "html_safe (b64_char n)" if "n < 64" for n using b64_char_less [OF that] by simp
  moreover have "html_safe CHR ''=''" by (simp add: html_safe_def ord_def)
  ultimately show ?thesis
    by (induction s rule: b64_EncodeToString.induct) (simp_all add: b64_sextets)
qed

section \<open>Objects\<close>

abbreviation no_space :: "string \<Rightarrow> bool" where "no_space a \<equiv> a = []"

lemma encode_members:
  assumes "ms \<noteq> []" and "distinct (map fst ms)" and "set (map fst ms) \<inter> K = {}"
    and "\<forall>kv \<in> set ms. list_all html_safe (fst kv) \<and> json_value no_space n (snd kv)"
  shows "json_members no_space n K (map (\<lambda>kv. \<lparr>fd_Key = fst kv, fd_Value = snd kv\<rparr>) ms)
     (comma_list (map (\<lambda>kv. encode_member (fst kv) (snd kv)) ms) @ ''}'')"
  using assms
proof (induction ms arbitrary: K)
  case (Cons kv ms)
  obtain k v where kv: "kv = (k, v)" by (cases kv)
  have k: "Unmarshal_string (json_quote k) = Some k" "k \<notin> K" and v: "json_value no_space n v"
    using Cons.prems by (auto simp: kv intro: Unmarshal_safe)
  show ?case
  proof (cases ms)
    case Nil
    show ?thesis using m_last [OF k, of no_space "[]" "[]" n v "[]"] v by (simp add: Nil kv encode_member_def)
  next
    case (Cons kv' ms')
    have "json_members no_space n (insert k K) (map (\<lambda>kv. \<lparr>fd_Key = fst kv, fd_Value = snd kv\<rparr>) ms)
       (comma_list (map (\<lambda>kv. encode_member (fst kv) (snd kv)) ms) @ ''}'')"
      using Cons.IH Cons.prems by (intro Cons.IH) (auto simp: Cons kv)
    from m_more [OF k refl refl v refl refl this] show ?thesis by (simp add: Cons kv encode_member_def)
  qed
qed simp

definition present :: "(string \<times> string option) list \<Rightarrow> (string \<times> string) list" where
  "present ms = map (\<lambda>kv. (fst kv, the (snd kv))) (filter (\<lambda>kv. snd kv \<noteq> None) ms)"

lemma encode_object_grammar:
  assumes "distinct (map fst (present ms))" and "\<forall>kv \<in> set (present ms). list_all html_safe (fst kv) \<and> json_value no_space n (snd kv)"
  shows "json_object no_space (Suc n) (map (\<lambda>kv. \<lparr>fd_Key = fst kv, fd_Value = snd kv\<rparr>) (present ms)) (encode_object ms)"
proof -
  have e: "encode_object ms = CHR ''{'' # comma_list (map (\<lambda>kv. encode_member (fst kv) (snd kv)) (present ms)) @ ''}''"
    by (simp add: encode_object_def present_def comp_def)
  show ?thesis
  proof (cases "present ms = []")
    case True
    then show ?thesis using o_nil [of no_space "[]" n] by (simp add: e)
  next
    case False
    then show ?thesis using o_cons [OF refl encode_members [OF False assms(1) _ assms(2), of "{}"]] by (simp add: e)
  qed
qed

lemma parse_encode_object:
  assumes "distinct (map fst (present ms))" and "\<forall>kv \<in> set (present ms). list_all html_safe (fst kv) \<and> json_value no_space n (snd kv)"
    and "n < maxNestingDepth"
  shows "parse_document (encode_object ms) =
     Some (JObject (encode_object ms) (map (\<lambda>kv. (fst kv, the (parse_document (snd kv)))) (present ms)))"
proof -
  let ?fs = "map (\<lambda>kv. \<lparr>fd_Key = fst kv, fd_Value = snd kv\<rparr>) (present ms)"
  have "object_parse (Suc n) ?fs (encode_object ms)"
    by (rule json_parse(4) [OF encode_object_grammar [OF assms(1,2)]]) (simp add: ws_def)
  then obtain trees where t: "member_trees n ?fs trees" "parses (Suc n) (encode_object ms) (JObject (encode_object ms) trees)"
    by (auto simp: object_parse_def)
  have "n \<le> maxNestingDepth" using assms(3) by simp
  have "trees = map (\<lambda>kv. (fst kv, the (parse_document (snd kv)))) (present ms)"
  proof (rule nth_equalityI)
    show "length trees = length (map (\<lambda>kv. (fst kv, the (parse_document (snd kv)))) (present ms))"
      using list_all2_lengthD [OF t(1)] by simp
    fix i assume "i < length trees"
    then show "trees ! i = map (\<lambda>kv. (fst kv, the (parse_document (snd kv)))) (present ms) ! i"
      using list_all2_nthD2 [OF t(1), of i] list_all2_lengthD [OF t(1)] parses_document [OF _ \<open>n \<le> maxNestingDepth\<close>]
      by (cases "trees ! i") fastforce
  qed
  then show ?thesis using parses_document [OF t(2)] assms(3) by simp
qed

lemma grammar_scalars:
  "json_value no_space n ''true''" "json_value no_space n ''false''" "list_all html_safe s \<Longrightarrow> json_value no_space n (json_quote s)"
  by (auto intro: json_value_json_array_json_elems_json_object_json_members.intros str_text_safe)

lemma parse_bools: "parse_document ''true'' = Some (JBool True)" "parse_document ''false'' = Some (JBool False)"
  by code_simp+

section \<open>Numbers\<close>

lemma whole_dec: "whole_text (dec n)"
proof -
  note c = canonical_dec_dec [of n, unfolded canonical_dec_def]
  have "hd (dec n) \<noteq> CHR ''0'' \<or> dec n = ''0''" using c by blast
  with c show ?thesis unfolding whole_text_def digits_only_def by blast
qed

lemma dec_in_range:
  assumes "sg \<in> {[], ''-''}" and "n < 2 ^ 64"
  shows "\<not> ParseFloat_range_error (sg @ dec n)"
proof -
  have d: "list_all is_digit (dec n)" "dec n \<noteq> []" using dec_digits [of _ n] by (auto simp: list_all_iff)
  have t: "(if sg @ dec n \<noteq> [] \<and> hd (sg @ dec n) = CHR ''-'' then tl (sg @ dec n) else sg @ dec n) = dec n"
    using assms(1) hd_dec_no_sign [of n] by auto
  have w: "takeWhile is_digit (dec n) = dec n" "dropWhile is_digit (dec n) = []" using d(1) by (simp_all add: list_all_iff)
  have "ParseFloat_range_error (sg @ dec n) = scaled_over n 0" unfolding ParseFloat_range_error_def Let_def t w by simp
  moreover have "n < float_limit" using assms(2) by (rule less_le_trans) (simp add: float_limit_def)
  ultimately show ?thesis by (simp add: scaled_over_def)
qed

lemma num_text_signed: "sg \<in> {[], ''-''} \<Longrightarrow> n < 2 ^ 64 \<Longrightarrow> num_text (sg @ dec n)"
proof -
  assume a: "sg \<in> {[], ''-''}" "n < 2 ^ 64"
  have f: "frac_text []" "exp_text []" by (simp_all add: frac_text_def exp_text_def)
  have s: "sg @ dec n = sg @ dec n @ [] @ []" by (simp only: append_Nil2)
  show "num_text (sg @ dec n)" unfolding num_text_def
    by (rule conjI, (rule exI)+, intro conjI, rule s, rule a(1), rule whole_dec, rule f(1), rule f(2), rule dec_in_range [OF a])
qed

lemma num_text_dec: "n < 2 ^ 64 \<Longrightarrow> num_text (dec n)"
  using num_text_signed [of "[]"] by simp

lemma num_text_FormatInt: "in_i64 n \<Longrightarrow> num_text (FormatInt n)"
proof -
  assume n: "in_i64 n"
  then have "- n < 2 ^ 64" "n < 2 ^ 64" by (simp_all add: in_i64_def)
  then have "nat (- n) < 2 ^ 64" "nat n < 2 ^ 64" by (simp_all add: nat_less_numeral_power_cancel_iff)
  then show ?thesis using num_text_signed [of "''-''" "nat (- n)"] num_text_dec [of "nat n"] by (simp add: FormatInt_def)
qed

lemma grammar_num: "num_text w \<Longrightarrow> json_value W n w"
  by (rule json_value_json_array_json_elems_json_object_json_members.v_num)

lemma parse_num: "num_text w \<Longrightarrow> parse_document w = Some (JNumber w)"
  using parses_document [OF num_parses, of w 0] by simp

end
