(* ===== verification/Plugin_Host_Ops.thy ===== *)
theory Plugin_Host_Ops
  imports Plugin_Host Json_Roundtrip Sha256 "HOL-Library.AList" "HOL-Library.List_Lexorder" "HOL-Library.Char_ord"
begin

text \<open>
  The operations of \<^verbatim>\<open>src/plugin/host.go\<close> over \<^verbatim>\<open>Call\<close>: HTTP, RPC, the plugin's key-value store with
  its compare-and-swap, notifications, logs and secrets. Each makes one host call with the JSON of
  its parameters and reads the JSON of the answer. A Go map is an association list with distinct
  keys; \<^verbatim>\<open>encoding/json\<close> writes it in key order.
\<close>

section \<open>One call, one answer\<close>

datatype op_error = OpHost host_error | OpDecode | OpBase64 | OpDigest | OpIfMatch | OpConflict host_error | OpEncode | OpInvalid

text \<open>\<open>params\<close> is \<open>None\<close> when the parameters cannot be encoded: then the write of the frame fails.\<close>

definition via_call ::
  "call_env \<Rightarrow> string \<Rightarrow> string option \<Rightarrow> (host_error + string \<Rightarrow> op_error + 'a) \<Rightarrow> HostClient \<Rightarrow> hostTransport
     \<Rightarrow> ((op_error + 'a) \<times> HostClient \<times> hostTransport) option" where
  "via_call env method params reply c t =
     map_option (\<lambda>(r, c', t'). (reply r, c', t'))
       (case params of
          Some p \<Rightarrow> Call env method (Some p) c t
        | None \<Rightarrow> Call (env\<lparr>ce_write_fails := True\<rparr>) method (Some []) c t)"

definition HostMethodRPCCall :: string where "HostMethodRPCCall = ''rpc.call''"
definition HostMethodHTTPDo :: string where "HostMethodHTTPDo = ''http.do''"
definition HostMethodHTTPOperatorDo :: string where "HostMethodHTTPOperatorDo = ''http.operator.do''"
definition HostMethodKVGet :: string where "HostMethodKVGet = ''kv.get''"
definition HostMethodKVPut :: string where "HostMethodKVPut = ''kv.put''"
definition HostMethodKVDelete :: string where "HostMethodKVDelete = ''kv.delete''"
definition HostMethodNotifySend :: string where "HostMethodNotifySend = ''notify.send''"
definition HostMethodLogWrite :: string where "HostMethodLogWrite = ''log.write''"
definition HostMethodSecretGet :: string where "HostMethodSecretGet = ''secret.get''"
definition HostMethodSecretPut :: string where "HostMethodSecretPut = ''secret.put''"
definition HostMethodSecretDelete :: string where "HostMethodSecretDelete = ''secret.delete''"

text \<open>An operation that only reports the error of its call.\<close>

definition ignore_result :: "host_error + string \<Rightarrow> op_error + unit" where
  "ignore_result r = (case r of Inl e \<Rightarrow> Inl (OpHost e) | Inr _ \<Rightarrow> Inr ())"

definition key_params :: "string \<Rightarrow> string" where
  "key_params key = encode_object [(''key'', Some (json_quote key))]"

section \<open>HTTP and RPC\<close>

record HTTPRequest =
  hq_Method :: string
  hq_URL :: string
  hq_Header :: "(string \<times> string) list"
  hq_Body :: string

record HTTPResponse =
  hs_StatusCode :: int
  hs_Header :: "(string \<times> string) list"
  hs_Body :: string

definition cloneStringMap :: "(string \<times> string) list \<Rightarrow> (string \<times> string) list" where
  "cloneStringMap m = (if m = [] then [] else fold (\<lambda>kv. AList.update (fst kv) (snd kv)) m [])"

definition encode_map :: "(string \<times> string) list \<Rightarrow> string" where
  "encode_map m = CHR ''{'' # comma_list (map (\<lambda>kv. encode_member (fst kv) (json_quote (snd kv))) (sort_key fst m)) @ ''}''"

record http_out =
  ho_StatusCode :: int
  ho_Header :: "(string \<times> string) list"
  ho_BodyBase64 :: string

definition http_fields :: "(string \<times> http_out store) list" where
  "http_fields =
     [(''status_code'', store_int (\<lambda>n. ho_StatusCode_update (\<lambda>_. n))),
      (''header'', store_map ho_Header (\<lambda>m. ho_Header_update (\<lambda>_. m))),
      (''body_base64'', store_string (\<lambda>s. ho_BodyBase64_update (\<lambda>_. s)))]"

definition http_params :: "HTTPRequest \<Rightarrow> string" where
  "http_params req =
     encode_object
       [(''method'', omitempty (hq_Method req)),
        (''url'', Some (json_quote (hq_URL req))),
        (''header'', if hq_Header req = [] then None else Some (encode_map (cloneStringMap (hq_Header req)))),
        (''body_base64'', if hq_Body req = [] then None else Some (json_quote (b64_EncodeToString (hq_Body req))))]"

definition http_reply :: "host_error + string \<Rightarrow> op_error + HTTPResponse" where
  "http_reply r =
     (case r of
        Inl e \<Rightarrow> Inl (OpHost e)
      | Inr raw \<Rightarrow>
          (case Unmarshal (store_struct http_fields False) \<lparr>ho_StatusCode = 0, ho_Header = [], ho_BodyBase64 = []\<rparr> raw of
             None \<Rightarrow> Inl OpDecode
           | Some out \<Rightarrow>
               (case (if ho_BodyBase64 out = [] then Some [] else b64_DecodeString (ho_BodyBase64 out)) of
                  None \<Rightarrow> Inl OpBase64
                | Some body \<Rightarrow>
                    Inr \<lparr>hs_StatusCode = ho_StatusCode out, hs_Header = cloneStringMap (ho_Header out), hs_Body = body\<rparr>)))"

definition httpDo where
  "httpDo env method req = via_call env method (Some (http_params req)) http_reply"

definition HTTPDo where "HTTPDo env req = httpDo env HostMethodHTTPDo req"
definition HTTPOperatorDo where "HTTPOperatorDo env req = httpDo env HostMethodHTTPOperatorDo req"

definition pass_result :: "host_error + string \<Rightarrow> op_error + string" where
  "pass_result r = (case r of Inl e \<Rightarrow> Inl (OpHost e) | Inr raw \<Rightarrow> Inr raw)"

definition rpc_params :: "string \<Rightarrow> string \<Rightarrow> string \<Rightarrow> string option" where
  "rpc_params service method request =
     (if request = [] then
        Some (encode_object [(''service'', Some (json_quote service)), (''method'', Some (json_quote method))])
      else
        map_option (\<lambda>raw. encode_object [(''service'', Some (json_quote service)), (''method'', Some (json_quote method)),
            (''request'', Some raw)])
          (encode_raw request))"

definition RPCCallRaw where
  "RPCCallRaw env service method request = via_call env HostMethodRPCCall (rpc_params service method request) pass_result"

definition RPCCall where
  "RPCCall env service method request c t =
     (case rawJSON request of
        Inl _ \<Rightarrow> Some (Inl OpEncode, c, t)
      | Inr raw \<Rightarrow> RPCCallRaw env service method raw c t)"

section \<open>The key-value store\<close>

record kv_out =
  ko_OK :: bool
  ko_Value :: string
  ko_ValueBase64 :: string
  ko_SHA256 :: string

definition zero_kv_out :: kv_out where
  "zero_kv_out = \<lparr>ko_OK = False, ko_Value = [], ko_ValueBase64 = [], ko_SHA256 = []\<rparr>"

definition kv_fields :: "(string \<times> kv_out store) list" where
  "kv_fields =
     [(''ok'', store_bool (\<lambda>b. ko_OK_update (\<lambda>_. b))),
      (''value'', store_string (\<lambda>s. ko_Value_update (\<lambda>_. s))),
      (''value_base64'', store_string (\<lambda>s. ko_ValueBase64_update (\<lambda>_. s)))]"

definition kv_digest_fields :: "(string \<times> kv_out store) list" where
  "kv_digest_fields = kv_fields @ [(''sha256'', store_string (\<lambda>s. ko_SHA256_update (\<lambda>_. s)))]"

text \<open>The value and whether the key was found.\<close>

definition kv_get_reply :: "host_error + string \<Rightarrow> op_error + string \<times> bool" where
  "kv_get_reply r =
     (case r of
        Inl e \<Rightarrow> Inl (OpHost e)
      | Inr raw \<Rightarrow>
          (case Unmarshal (store_struct kv_fields False) zero_kv_out raw of
             None \<Rightarrow> Inl OpDecode
           | Some out \<Rightarrow>
               if \<not> ko_OK out then Inr ([], False)
               else if ko_ValueBase64 out \<noteq> [] then
                 (case b64_DecodeString (ko_ValueBase64 out) of None \<Rightarrow> Inl OpBase64 | Some v \<Rightarrow> Inr (v, True))
               else Inr (ko_Value out, True)))"

definition KVGet where
  "KVGet env key = via_call env HostMethodKVGet (Some (key_params key)) kv_get_reply"

definition kv_put_params :: "string \<Rightarrow> string \<Rightarrow> string" where
  "kv_put_params key val =
     encode_object [(''key'', Some (json_quote key)), (''value_base64'', Some (json_quote (b64_EncodeToString val)))]"

definition KVPut where
  "KVPut env key val = via_call env HostMethodKVPut (Some (kv_put_params key val)) ignore_result"

definition KVConflictCode :: string where "KVConflictCode = ''kv_conflict''"

definition to_bytes :: "string \<Rightarrow> bytes" where
  "to_bytes = map (\<lambda>c. of_nat (ord c))"

definition KVValueDigest :: "string \<Rightarrow> string" where
  "KVValueDigest val = hex_EncodeToString (sha256 (to_bytes val))"

text \<open>The value, its digest as the host reports it, and whether the key was found.\<close>

definition kv_digest_reply :: "host_error + string \<Rightarrow> op_error + string \<times> string \<times> bool" where
  "kv_digest_reply r =
     (case r of
        Inl e \<Rightarrow> Inl (OpHost e)
      | Inr raw \<Rightarrow>
          (case Unmarshal (store_struct kv_digest_fields False) zero_kv_out raw of
             None \<Rightarrow> Inl OpDecode
           | Some out \<Rightarrow>
               if \<not> ko_OK out then Inr ([], [], False)
               else
                 (case (if ko_ValueBase64 out \<noteq> [] then b64_DecodeString (ko_ValueBase64 out) else Some (ko_Value out)) of
                    None \<Rightarrow> Inl OpBase64
                  | Some v \<Rightarrow>
                      if ko_SHA256 out \<noteq> [] \<and> ko_SHA256 out \<noteq> KVValueDigest v then Inl OpDigest
                      else Inr (v, ko_SHA256 out, True))))"

definition KVGetWithDigest where
  "KVGetWithDigest env key = via_call env HostMethodKVGet (Some (key_params key)) kv_digest_reply"

text \<open>A digest is 64 bytes of lowercase hexadecimal; a rune outside ASCII is in neither range.\<close>

definition validKVDigest :: "string \<Rightarrow> bool" where
  "validKVDigest digest \<longleftrightarrow>
     length digest = 64 \<and> list_all (\<lambda>r. (48 \<le> ord r \<and> ord r \<le> 57) \<or> (97 \<le> ord r \<and> ord r \<le> 102)) digest"

text \<open>Only the host's own refusals carry the method's name in front of their message.\<close>

definition kv_conflict :: "host_error \<Rightarrow> bool" where
  "kv_conflict e = (case e of ErrHost msg \<Rightarrow> HasPrefix msg (HostMethodKVPut @ '': '' @ KVConflictCode) | _ \<Rightarrow> False)"

definition if_match_reply :: "host_error + string \<Rightarrow> op_error + unit" where
  "if_match_reply r = (case r of Inl e \<Rightarrow> Inl (if kv_conflict e then OpConflict e else OpHost e) | Inr _ \<Rightarrow> Inr ())"

definition if_match_params :: "string \<Rightarrow> string \<Rightarrow> string \<Rightarrow> string" where
  "if_match_params key val ifMatch =
     encode_object [(''key'', Some (json_quote key)), (''value_base64'', Some (json_quote (b64_EncodeToString val))),
       (''if_match'', Some (json_quote ifMatch))]"

definition KVPutIfMatch where
  "KVPutIfMatch env key val ifMatch c t =
     (if ifMatch \<noteq> [] \<and> \<not> validKVDigest ifMatch then Some (Inl OpIfMatch, c, t)
      else via_call env HostMethodKVPut (Some (if_match_params key val ifMatch)) if_match_reply c t)"

definition KVDelete where
  "KVDelete env key = via_call env HostMethodKVDelete (Some (key_params key)) ignore_result"

section \<open>Notifications, logs, secrets\<close>

definition notify_params :: "string \<Rightarrow> string \<Rightarrow> string" where
  "notify_params title body = encode_object [(''title'', Some (json_quote title)), (''body'', Some (json_quote body))]"

definition NotifySend where
  "NotifySend env title body = via_call env HostMethodNotifySend (Some (notify_params title body)) ignore_result"

record LogEntry =
  le_Level :: string
  le_Message :: string
  le_Fields :: "(string \<times> string) list"

definition log_params :: "LogEntry \<Rightarrow> string" where
  "log_params entry =
     encode_object [(''level'', Some (json_quote (le_Level entry))), (''message'', Some (json_quote (le_Message entry))),
       (''fields'', if le_Fields entry = [] then None else Some (encode_map (cloneStringMap (le_Fields entry))))]"

definition LogWrite where
  "LogWrite env entry = via_call env HostMethodLogWrite (Some (log_params entry)) ignore_result"

definition secret_fields :: "(string \<times> kv_out store) list" where
  "secret_fields =
     [(''ok'', store_bool (\<lambda>b. ko_OK_update (\<lambda>_. b))),
      (''value_base64'', store_string (\<lambda>s. ko_ValueBase64_update (\<lambda>_. s)))]"

definition secret_get_reply :: "host_error + string \<Rightarrow> op_error + string \<times> bool" where
  "secret_get_reply r =
     (case r of
        Inl e \<Rightarrow> Inl (OpHost e)
      | Inr raw \<Rightarrow>
          (case Unmarshal (store_struct secret_fields False) zero_kv_out raw of
             None \<Rightarrow> Inl OpDecode
           | Some out \<Rightarrow>
               if \<not> ko_OK out then Inr ([], False)
               else (case b64_DecodeString (ko_ValueBase64 out) of None \<Rightarrow> Inl OpBase64 | Some v \<Rightarrow> Inr (v, True))))"

definition SecretGet where
  "SecretGet env key = via_call env HostMethodSecretGet (Some (key_params key)) secret_get_reply"

definition secret_string :: "op_error + string \<times> bool \<Rightarrow> op_error + string \<times> bool" where
  "secret_string r = (case r of Inl e \<Rightarrow> Inl e | Inr (v, ok) \<Rightarrow> if \<not> ok then Inr ([], False) else Inr (v, True))"

definition SecretGetString where
  "SecretGetString env key c t = map_option (\<lambda>(r, c', t'). (secret_string r, c', t')) (SecretGet env key c t)"

definition SecretPut where
  "SecretPut env key val = via_call env HostMethodSecretPut (Some (kv_put_params key val)) ignore_result"

definition SecretPutString where "SecretPutString env key val = SecretPut env key val"

definition SecretDelete where
  "SecretDelete env key = via_call env HostMethodSecretDelete (Some (key_params key)) ignore_result"

section \<open>What every operation inherits from Call\<close>

text \<open>An operation fails and has no effect.\<close>

definition no_effect :: "((op_error + 'a) \<times> HostClient \<times> hostTransport) option \<Rightarrow> HostClient \<Rightarrow> hostTransport \<Rightarrow> bool" where
  "no_effect x c t \<longleftrightarrow> (\<exists>e. x = Some (Inl e, c, t))"

lemma via_call_returns:
  assumes "lease_ok c" and "ht_exchange t"
  shows "\<exists>r c' t'. via_call env method params reply c t = Some (r, c', t')"
  using Call_returns [OF assms] unfolding via_call_def by (cases params) (simp_all add: split_beta, (metis option.simps(9))+)

text \<open>The contract of an operation: it is one call of a fixed method, and a failed call is its failure.\<close>

locale host_operation =
  fixes op :: "call_env \<Rightarrow> 'x \<Rightarrow> HostClient \<Rightarrow> hostTransport \<Rightarrow> ((op_error + 'a) \<times> HostClient \<times> hostTransport) option"
    and meth :: string
    and body :: "'x \<Rightarrow> string"
    and reply :: "host_error + string \<Rightarrow> op_error + 'a"
  assumes op_call: "op env x = via_call env meth (Some (body x)) reply"
    and reply_error: "\<exists>e'. reply (Inl e) = Inl e'"
begin

lemma op_Call:
  assumes "op env x c t = Some (r, c', t')"
  obtains q where "Call env meth (Some (body x)) c t = Some (q, c', t')" "r = reply q"
  using assms that unfolding op_call via_call_def by auto

lemma one_frame:
  assumes "op env x c t = Some (r, c', t')" and "lease_ok c" and "ht_nextID t \<le> maxUint64"
  shows "ht_written t' = ht_written t
     \<or> ht_written t' = ht_written t @ [call_frame c (call_id (ht_nextID t')) meth (Some (body x))]"
  using op_Call [OF assms(1)] call_effect [OF _ assms(2,3)] by metis

lemma ended_silent:
  assumes "op env x c t = Some (r, c', t')" and "lease_ok c" and "hc_expired c \<or> ht_poisoned t"
  shows "(\<exists>e. r = Inl e) \<and> c' = c \<and> t' = t"
proof -
  obtain q where q: "Call env meth (Some (body x)) c t = Some (q, c', t')" "r = reply q" by (rule op_Call [OF assms(1)])
  have "c' = c \<and> t' = t \<and> (\<exists>e. q = Inl e)"
    using call_silent [OF q(1) assms(2,3)] call_unavailable [of c env meth "Some (body x)" t] q(1) by (cases "Available c") auto
  then show ?thesis using q(2) reply_error by auto
qed

lemma ended_no_effect:
  assumes "lease_ok c" and "ht_exchange t" and "hc_expired c \<or> ht_poisoned t"
  shows "no_effect (op env x c t) c t"
proof -
  obtain r c' t' where "op env x c t = Some (r, c', t')"
    unfolding op_call using via_call_returns [OF assms(1,2)] by blast
  then show ?thesis using ended_silent [OF _ assms(1,3)] unfolding no_effect_def by blast
qed

end

interpretation kv_get: host_operation KVGet HostMethodKVGet key_params kv_get_reply
  by unfold_locales (auto simp: KVGet_def kv_get_reply_def)

interpretation kv_digest: host_operation KVGetWithDigest HostMethodKVGet key_params kv_digest_reply
  by unfold_locales (auto simp: KVGetWithDigest_def kv_digest_reply_def)

interpretation kv_put: host_operation "\<lambda>env (key, val). KVPut env key val" HostMethodKVPut "\<lambda>(key, val). kv_put_params key val" ignore_result
  by unfold_locales (auto simp: KVPut_def ignore_result_def)

interpretation kv_swap: host_operation
  "\<lambda>env (key, val, m). via_call env HostMethodKVPut (Some (if_match_params key val m)) if_match_reply"
  HostMethodKVPut "\<lambda>(key, val, m). if_match_params key val m" if_match_reply
  by unfold_locales (auto simp: if_match_reply_def)

interpretation kv_delete: host_operation KVDelete HostMethodKVDelete key_params ignore_result
  by unfold_locales (auto simp: KVDelete_def ignore_result_def)

interpretation notify: host_operation "\<lambda>env (title, body). NotifySend env title body" HostMethodNotifySend
  "\<lambda>(title, body). notify_params title body" ignore_result
  by unfold_locales (auto simp: NotifySend_def ignore_result_def)

interpretation log_write: host_operation LogWrite HostMethodLogWrite log_params ignore_result
  by unfold_locales (auto simp: LogWrite_def ignore_result_def)

interpretation secret_get: host_operation SecretGet HostMethodSecretGet key_params secret_get_reply
  by unfold_locales (auto simp: SecretGet_def secret_get_reply_def)

interpretation secret_put: host_operation "\<lambda>env (key, val). SecretPut env key val" HostMethodSecretPut "\<lambda>(key, val). kv_put_params key val" ignore_result
  by unfold_locales (auto simp: SecretPut_def ignore_result_def)

interpretation secret_delete: host_operation SecretDelete HostMethodSecretDelete key_params ignore_result
  by unfold_locales (auto simp: SecretDelete_def ignore_result_def)

interpretation http_do: host_operation HTTPDo HostMethodHTTPDo http_params http_reply
  by unfold_locales (auto simp: HTTPDo_def httpDo_def http_reply_def)

interpretation http_operator: host_operation HTTPOperatorDo HostMethodHTTPOperatorDo http_params http_reply
  by unfold_locales (auto simp: HTTPOperatorDo_def httpDo_def http_reply_def)



section \<open>Values and digests\<close>

lemma hex_safe: "n < 16 \<Longrightarrow> html_safe (hex_char n)"
proof -
  assume n: "n < 16"
  have o: "ord CHR 0x22 = 34" "ord CHR 0x5C = 92" "ord CHR ''<'' = 60" "ord CHR ''>'' = 62" "ord CHR ''&'' = 38" by (simp_all add: ord_def)
  from hex_digest [OF n] show ?thesis unfolding html_safe_def by (auto simp: o simp flip: ord_inj)
qed

lemma validKVDigest_digest: "validKVDigest (KVValueDigest val)" and digest_safe: "list_all html_safe (KVValueDigest val)"
  unfolding validKVDigest_def KVValueDigest_def using hex_digest hex_safe by (auto intro!: hex_parts)

text \<open>The answers of a host that stores what \<^verbatim>\<open>kv.put\<close> sends it, and of one that also reports the digest.\<close>

definition stored_answer :: "string \<Rightarrow> string" where
  "stored_answer val = encode_object [(''ok'', Some ''true''), (''value_base64'', Some (json_quote (b64_EncodeToString val)))]"

definition digest_answer :: "string \<Rightarrow> string \<Rightarrow> string" where
  "digest_answer val digest = encode_object [(''ok'', Some ''true''), (''value_base64'', Some (json_quote (b64_EncodeToString val))),
     (''sha256'', Some (json_quote digest))]"

lemma parse_stored: "parse_document (stored_answer val) =
    Some (JObject (stored_answer val) [(''ok'', JBool True), (''value_base64'', JString (json_quote (b64_EncodeToString val)))])"
  unfolding stored_answer_def by (subst parse_encode_object [where n = 0])
    (simp_all add: present_def maxNestingDepth_def html_safe_def ord_def grammar_scalars b64_safe parse_bools parse_quote)

lemma parse_digest_answer:
  assumes "list_all html_safe digest"
  shows "parse_document (digest_answer val digest) = Some (JObject (digest_answer val digest)
    [(''ok'', JBool True), (''value_base64'', JString (json_quote (b64_EncodeToString val))), (''sha256'', JString (json_quote digest))])"
  unfolding digest_answer_def by (subst parse_encode_object [where n = 0])
    (simp_all add: present_def maxNestingDepth_def html_safe_def ord_def grammar_scalars b64_safe parse_bools parse_quote assms)


end
