(* ===== verification/Plugin_Result.thy ===== *)
theory Plugin_Result
  imports Plugin_Frame Json_Roundtrip
begin

text \<open>
  The responses of a plugin (\<^verbatim>\<open>src/plugin/runtime.go\<close>) and the frame that carries one back to the host:
  \<^verbatim>\<open>appendInvokeResultFrame\<close> of \<^verbatim>\<open>src/plugin/frame_fast.go\<close>, which assembles the bytes by hand, against
  what \<^verbatim>\<open>json.Encoder\<close> writes for the frame's struct.
\<close>

section \<open>Responses\<close>

record Response =
  rs_OK :: bool
  rs_Plan :: string
  rs_Message :: string
  rs_Result :: string
  rs_Error :: string
  rs_Warnings :: "string list"

definition zero_Response :: Response where
  "zero_Response = \<lparr>rs_OK = False, rs_Plan = [], rs_Message = [], rs_Result = [], rs_Error = [], rs_Warnings = []\<rparr>"

definition ErrorResponse :: "string option \<Rightarrow> Response" where
  "ErrorResponse err = zero_Response\<lparr>rs_Error := (case err of None \<Rightarrow> ''plugin call failed'' | Some e \<Rightarrow> e)\<rparr>"

definition ResultResponse :: "dynamic \<Rightarrow> string \<Rightarrow> Response" where
  "ResultResponse result message =
     (case rawJSON result of
        Inl err \<Rightarrow> ErrorResponse (Some (''encode result: '' @ err))
      | Inr raw \<Rightarrow> zero_Response\<lparr>rs_OK := True, rs_Result := raw, rs_Message := message\<rparr>)"

definition RawResultResponse :: "string \<Rightarrow> string \<Rightarrow> Response" where
  "RawResultResponse result message = zero_Response\<lparr>rs_OK := True, rs_Result := result, rs_Message := message\<rparr>"

definition MessageResponse :: "string \<Rightarrow> Response" where
  "MessageResponse message = zero_Response\<lparr>rs_OK := True, rs_Message := message\<rparr>"

definition PlanResponse :: "string \<Rightarrow> string \<Rightarrow> Response" where
  "PlanResponse plan message = zero_Response\<lparr>rs_OK := True, rs_Plan := plan, rs_Message := message\<rparr>"

section \<open>The encoder's frame\<close>

text \<open>\<open>None\<close> when the result is not JSON: the encoder fails.\<close>

definition encode_response :: "Response \<Rightarrow> string option" where
  "encode_response r =
     (case (if rs_Result r = [] then Some None else map_option Some (encode_raw (rs_Result r))) of
        None \<Rightarrow> None
      | Some result \<Rightarrow>
          Some (encode_object
            [(''ok'', Some (encode_bool (rs_OK r))), (''plan'', omitempty (rs_Plan r)), (''message'', omitempty (rs_Message r)),
             (''result'', result), (''error'', omitempty (rs_Error r)),
             (''warnings'', if rs_Warnings r = [] then None else Some (encode_strings (rs_Warnings r)))]))"

definition invokeResultFrame :: "nat \<Rightarrow> string \<Rightarrow> Response \<Rightarrow> string option" where
  "invokeResultFrame generation invocationID resp =
     map_option (\<lambda>r. encode_object
         [(''protocol'', Some ''2''), (''kind'', Some (json_quote ''invoke_result'')), (''generation'', Some (dec generation)),
          (''invocation_id'', Some (json_quote invocationID)), (''response'', Some r)] @ [CHR 0x0A])
       (encode_response resp)"

section \<open>The frame by hand\<close>

definition appendJSONValue :: "string \<Rightarrow> string \<Rightarrow> string" where
  "appendJSONValue dst v = dst @ v"

definition appendInvokeResultFrame :: "string \<Rightarrow> nat \<Rightarrow> string \<Rightarrow> Response \<Rightarrow> string option" where
  "appendInvokeResultFrame dst generation invocationID resp =
     (if rs_Result resp \<noteq> [] \<and> CanonicalRaw (rs_Result resp) \<noteq> Some True then None
      else
        let d1 = dst @ tilde_json ''{~protocol~:2,~kind~:~invoke_result~,~generation~:'';
            d2 = d1 @ dec generation;
            d3 = d2 @ tilde_json '',~invocation_id~:'';
            d4 = appendJSONValue d3 (json_quote invocationID);
            d5 = d4 @ tilde_json '',~response~:{~ok~:'';
            d6 = d5 @ encode_bool (rs_OK resp);
            d7 = (if rs_Plan resp \<noteq> [] then appendJSONValue (d6 @ tilde_json '',~plan~:'') (json_quote (rs_Plan resp)) else d6);
            d8 = (if rs_Message resp \<noteq> [] then appendJSONValue (d7 @ tilde_json '',~message~:'') (json_quote (rs_Message resp)) else d7);
            d9 = (if rs_Result resp \<noteq> [] then d8 @ tilde_json '',~result~:'' @ rs_Result resp else d8);
            d10 = (if rs_Error resp \<noteq> [] then appendJSONValue (d9 @ tilde_json '',~error~:'') (json_quote (rs_Error resp)) else d9);
            d11 = (if rs_Warnings resp \<noteq> [] then appendJSONValue (d10 @ tilde_json '',~warnings~:'') (encode_strings (rs_Warnings resp)) else d10)
        in Some (d11 @ ''}}'' @ [CHR 0x0A]))"

section \<open>A canonical result is written as it is\<close>

text \<open>Texts with nothing the encoder escapes.\<close>

definition escape_free :: "string \<Rightarrow> bool" where
  "escape_free s \<longleftrightarrow> set s \<inter> {CHR ''<'', CHR ''>'', CHR ''&''} = {} \<and> \<not> Contains s lineSeparator \<and> \<not> Contains s paragraphSeparator"

lemma Contains_suffix: "\<not> Contains (a @ s) p \<Longrightarrow> \<not> Contains s p"
  by (induction a) auto

lemma escape_free_suffix: "escape_free (a @ s) \<Longrightarrow> escape_free s"
  unfolding escape_free_def using Contains_suffix by auto

lemma escape_free_head:
  assumes "escape_free (c # s)"
  shows "c \<notin> {CHR ''<'', CHR ''>'', CHR ''&''}" "\<not> separator (c # s)" "escape_free s"
proof -
  have n: "\<not> HasPrefix (c # s) lineSeparator" "\<not> HasPrefix (c # s) paragraphSeparator" using assms by (simp_all add: escape_free_def)
  then show "\<not> separator (c # s)" by (simp add: separator_def HasPrefix_def lineSeparator_def paragraphSeparator_def numeral_2_eq_2)
  show "c \<notin> {CHR ''<'', CHR ''>'', CHR ''&''}" using assms by (auto simp: escape_free_def)
  show "escape_free s" using assms escape_free_suffix [of "[c]" s] by simp
qed

lemma compact_out:
  assumes "escape_free (c # t)" and "\<not> is_ws c"
  shows "compact_json False (c # t) = c # compact_json (c = CHR 0x22) t"
  using escape_free_head(1,2) [OF assms(1)] assms(2) by (subst compact_json.simps) simp

lemma compact_in:
  assumes "escape_free (c # t)" and "c \<noteq> CHR 0x5C"
  shows "compact_json True (c # t) = c # compact_json (c \<noteq> CHR 0x22) t"
  using escape_free_head(1,2) [OF assms(1)] assms(2) by (subst compact_json.simps) simp

lemma compact_escape:
  assumes "escape_free (CHR 0x5C # e # t)"
  shows "compact_json True (CHR 0x5C # e # t) = CHR 0x5C # e # compact_json True t"
  using escape_free_head(1,2) [OF assms(1)] by (subst compact_json.simps) simp

lemma compact_plain:
  "\<forall>c \<in> set w. \<not> is_ws c \<and> c \<noteq> CHR 0x22 \<Longrightarrow> escape_free (w @ t) \<Longrightarrow> compact_json False (w @ t) = w @ compact_json False t"
proof (induction w)
  case (Cons c w)
  then show ?case using compact_out [of c "w @ t"] escape_free_head(3) [of c "w @ t"] by simp
qed simp

lemma compact_chars:
  "\<forall>c \<in> set w. c \<noteq> CHR 0x5C \<and> c \<noteq> CHR 0x22 \<Longrightarrow> escape_free (w @ t) \<Longrightarrow> compact_json True (w @ t) = w @ compact_json True t"
proof (induction w)
  case (Cons c w)
  then show ?case using compact_in [of c "w @ t"] escape_free_head(3) [of c "w @ t"] by simp
qed simp

lemma compact_string:
  "str_body b \<Longrightarrow> escape_free (b @ CHR 0x22 # t) \<Longrightarrow> compact_json True (b @ CHR 0x22 # t) = b @ CHR 0x22 # compact_json False t"
proof (induction b rule: measure_induct_rule [of length])
  case (less b)
  show ?case
  proof (cases b)
    case Nil
    then show ?thesis using compact_in [of "CHR 0x22" t] less.prems(2) by simp
  next
    case (Cons c b')
    have f: "escape_free (b' @ CHR 0x22 # t)" using less.prems(2) escape_free_suffix [of "[c]"] by (simp add: Cons)
    show ?thesis
    proof (cases "c = CHR 0x5C")
      case False
      then have "c \<noteq> CHR 0x22" "str_body b'" using less.prems(1) by (auto simp: Cons split: if_splits)
      then show ?thesis using compact_in [of c "b' @ CHR 0x22 # t"] False less.prems(2) less.IH [of b'] f by (simp add: Cons)
    next
      case True
      then obtain e b2 where b': "b' = e # b2" using less.prems(1) by (cases b') (auto simp: Cons)
      have f2: "escape_free (b2 @ CHR 0x22 # t)" using f escape_free_suffix [of "[e]"] by (simp add: b')
      have step: "compact_json True (b @ CHR 0x22 # t) = CHR 0x5C # e # compact_json True (b2 @ CHR 0x22 # t)"
        using compact_escape [of e "b2 @ CHR 0x22 # t"] less.prems(2) by (simp add: Cons b' True)
      show ?thesis
      proof (cases "simple_escape e = None")
        case no: False
        then have "str_body b2" using less.prems(1) by (simp add: Cons b' True)
        then show ?thesis using step less.IH [of b2] f2 by (simp add: Cons b' True)
      next
        case yes: True
        then obtain h1 h2 h3 h4 b3 where b2: "e = CHR ''u''" "b2 = h1 # h2 # h3 # h4 # b3" "str_body b3"
            "list_all hex_digit [h1, h2, h3, h4]"
          using less.prems(1) by (auto simp: Cons b' True split: if_splits list.splits)
        have h: "h \<noteq> CHR 0x5C" "h \<noteq> CHR 0x22" if "hex_digit h" for h
          using that by (auto simp: hex_digit_def hex_val_def Let_def ord_def)
        have "compact_json True ([h1, h2, h3, h4] @ b3 @ CHR 0x22 # t) = [h1, h2, h3, h4] @ compact_json True (b3 @ CHR 0x22 # t)"
          by (rule compact_chars) (use b2(2,4) h f2 in auto)
        moreover have "escape_free (b3 @ CHR 0x22 # t)" using f2 escape_free_suffix [of "[h1, h2, h3, h4]"] by (simp add: b2(2))
        ultimately show ?thesis using step less.IH [of b3] b2 by (simp add: Cons b' True)
      qed
    qed
  qed
qed

lemma num_chars: "num_text w \<Longrightarrow> \<forall>c \<in> set w. \<not> is_ws c \<and> c \<noteq> CHR 0x22"
proof -
  assume "num_text w"
  then obtain sg wh fr ex where w: "w = sg @ wh @ fr @ ex" "sg \<in> {[], ''-''}" "whole_text wh" "frac_text fr" "exp_text ex"
    by (auto simp: num_text_def)
  have d: "\<not> is_ws c \<and> c \<noteq> CHR 0x22" if "is_digit c" for c using that by (auto simp: is_digit_def is_ws_def ord_def)
  have "\<forall>c \<in> set wh. is_digit c" using whole_digits [OF w(3)] by (simp add: list_all_iff)
  moreover have "\<forall>c \<in> set fr. is_digit c \<or> c = CHR ''.''" using w(4) by (auto simp: frac_text_def digits_only_def list_all_iff)
  moreover have "\<forall>c \<in> set ex. is_digit c \<or> c \<in> {CHR ''e'', CHR ''E'', CHR ''+'', CHR ''-''}"
    using w(5) by (auto simp: exp_text_def digits_only_def list_all_iff)
  ultimately have "\<forall>c \<in> set w. is_digit c \<or> c \<in> {CHR ''-'', CHR ''.'', CHR ''e'', CHR ''E'', CHR ''+''}" using w(1,2) by auto
  moreover have "\<not> is_ws c \<and> c \<noteq> CHR 0x22" if "c \<in> {CHR ''-'', CHR ''.'', CHR ''e'', CHR ''E'', CHR ''+''}" for c
    using that by (auto simp: is_ws_def)
  ultimately show ?thesis using d by blast
qed

definition compacts :: "string \<Rightarrow> bool" where
  "compacts w \<longleftrightarrow> (\<forall>t. escape_free (w @ t) \<longrightarrow> compact_json False (w @ t) = w @ compact_json False t)"

lemma compacts_append: "compacts v \<Longrightarrow> compacts w \<Longrightarrow> compacts (v @ w)"
  unfolding compacts_def by (metis append.assoc escape_free_suffix)

lemma compacts_char: "\<not> is_ws c \<Longrightarrow> c \<noteq> CHR 0x22 \<Longrightarrow> compacts [c]"
  unfolding compacts_def using compact_plain [of "[c]"] by simp

lemma compacts_plain: "\<forall>c \<in> set w. \<not> is_ws c \<and> c \<noteq> CHR 0x22 \<Longrightarrow> compacts w"
  unfolding compacts_def using compact_plain by blast

lemma compacts_str: "str_text w \<Longrightarrow> compacts w"
  unfolding compacts_def
proof (intro allI impI)
  fix t assume "str_text w" and e: "escape_free (w @ t)"
  then obtain b where b: "w = CHR 0x22 # b @ [CHR 0x22]" "str_body b" by (auto simp: str_text_def)
  have "compact_json False (w @ t) = CHR 0x22 # compact_json True (b @ CHR 0x22 # t)"
    using compact_out [of "CHR 0x22" "b @ CHR 0x22 # t"] e by (simp add: b(1) is_ws_def)
  moreover have "escape_free (b @ CHR 0x22 # t)" using e escape_free_suffix [of "[CHR 0x22]"] by (simp add: b(1))
  ultimately show "compact_json False (w @ t) = w @ compact_json False t" using compact_string [OF b(2)] by (simp add: b(1))
qed

lemma compacts_bytes: "compacts ''[''" "compacts '']''" "compacts ''{''" "compacts ''}''" "compacts '',''" "compacts '':''"
  by (rule compacts_char; simp add: is_ws_def)+

lemma key_text: "Unmarshal_string k = Some name \<Longrightarrow> str_text k"
  by (drule Unmarshal_SomeD) (auto simp: str_text_def)

lemma json_compacts:
  "json_value W n w \<Longrightarrow> (\<And>a. W a \<Longrightarrow> a = []) \<Longrightarrow> compacts w"
  "json_array W n vs w \<Longrightarrow> (\<And>a. W a \<Longrightarrow> a = []) \<Longrightarrow> compacts w"
  "json_elems W n vs w \<Longrightarrow> (\<And>a. W a \<Longrightarrow> a = []) \<Longrightarrow> compacts w"
  "json_object W n fs w \<Longrightarrow> (\<And>a. W a \<Longrightarrow> a = []) \<Longrightarrow> compacts w"
  "json_members W n K fs w \<Longrightarrow> (\<And>a. W a \<Longrightarrow> a = []) \<Longrightarrow> compacts w"
proof (induction rule: json_value_json_array_json_elems_json_object_json_members.inducts)
  case (v_lit w n)
  then show ?case by (intro compacts_plain) (auto simp: is_ws_def)
next
  case (v_num w n)
  then show ?case using num_chars by (intro compacts_plain)
next
  case (v_str w n)
  then show ?case by (intro compacts_str)
next
  case (a_nil a n)
  then have "a = []" by blast
  then show ?case using compacts_append [OF compacts_bytes(1,2)] by simp
next
  case (a_cons a n vs w)
  then have "a = []" "compacts w" by blast+
  then show ?case using compacts_append [OF compacts_bytes(1), of w] by simp
next
  case (e_last n v a)
  then have "a = []" "compacts v" by blast+
  then show ?case using compacts_append [OF _ compacts_bytes(2), of v] by simp
next
  case (e_more n v a b vs w)
  then have "a = []" "b = []" "compacts v" "compacts w" by blast+
  then show ?case using compacts_append [of v "'','' @ w"] compacts_append [OF compacts_bytes(5), of w] by simp
next
  case (o_nil a n)
  then have "a = []" by blast
  then show ?case using compacts_append [OF compacts_bytes(3,4)] by simp
next
  case (o_cons a n fs w)
  then have "a = []" "compacts w" by blast+
  then show ?case using compacts_append [OF compacts_bytes(3), of w] by simp
next
  case (m_last k name K a b n v c)
  then have "a = []" "b = []" "c = []" "compacts v" "compacts k" using compacts_str key_text by blast+
  then show ?case using compacts_append [of k "'':'' @ v @ ''}''"] compacts_append [OF compacts_bytes(6), of "v @ ''}''"]
      compacts_append [OF _ compacts_bytes(4), of v] by simp
next
  case (m_more k name K a b n v c e fs w)
  then have "a = []" "b = []" "c = []" "e = []" "compacts v" "compacts k" "compacts w" using compacts_str key_text by blast+
  then show ?case using compacts_append [of k "'':'' @ v @ '','' @ w"] compacts_append [OF compacts_bytes(6), of "v @ '','' @ w"]
      compacts_append [of v "'','' @ w"] compacts_append [OF compacts_bytes(5), of w] by simp
qed blast+

lemma CanonicalRaw_encode:
  assumes "CanonicalRaw raw = Some True"
  shows "encode_raw raw = Some raw"
proof -
  have t: "json_value (\<lambda>a. a = []) MaxDepth raw" and e: "escape_free raw"
    using assms by (auto simp: CanonicalRaw_def Compact_tight tight_def escape_free_def list_ex_iff)
  obtain j where "parses MaxDepth raw j" using json_parse(1) [OF t] by (auto simp: ws_def)
  then have "json_Valid raw" using parses_document MaxDepth_nested(2) by (auto simp: json_Valid_def)
  moreover have "compact_json False [] = []" by (simp add: compact_json.simps)
  then have "compact_json False raw = raw"
    using json_compacts(1) [OF t] e unfolding compacts_def by (metis append_Nil2)
  ultimately show ?thesis by (simp add: encode_raw_def)
qed

section \<open>The two frames agree\<close>

lemma comma_list_Cons: "comma_list (x # xs) = x @ concat (map (\<lambda>y. CHR '','' # y) xs)"
  by (induction xs arbitrary: x) simp_all

definition more_member :: "string \<times> string option \<Rightarrow> string" where
  "more_member kv = (case snd kv of None \<Rightarrow> [] | Some v \<Rightarrow> CHR '','' # encode_member (fst kv) v)"

lemma encode_object_Cons:
  "encode_object ((k, Some v) # ms) = CHR ''{'' # encode_member k v @ concat (map more_member ms) @ ''}''"
proof -
  have "concat (map (\<lambda>y. CHR '','' # y) (map (\<lambda>kv. encode_member (fst kv) (the (snd kv))) (filter (\<lambda>kv. snd kv \<noteq> None) ms)))
      = concat (map more_member ms)"
    by (induction ms) (auto simp: more_member_def)
  then show ?thesis by (simp add: encode_object_def comma_list_Cons)
qed

lemma quote_names:
  "json_quote ''protocol'' = tilde_json ''~protocol~''" "json_quote ''kind'' = tilde_json ''~kind~''"
  "json_quote ''generation'' = tilde_json ''~generation~''" "json_quote ''invocation_id'' = tilde_json ''~invocation_id~''"
  "json_quote ''response'' = tilde_json ''~response~''" "json_quote ''ok'' = tilde_json ''~ok~''"
  "json_quote ''plan'' = tilde_json ''~plan~''" "json_quote ''message'' = tilde_json ''~message~''"
  "json_quote ''result'' = tilde_json ''~result~''" "json_quote ''error'' = tilde_json ''~error~''"
  "json_quote ''warnings'' = tilde_json ''~warnings~''" "json_quote ''invoke_result'' = tilde_json ''~invoke_result~''"
  by code_simp+

text \<open>
  C23. The hand-assembled invoke_result frame is the encoder's, byte for byte: for every response the
  runtime emits exactly what \<^verbatim>\<open>json.Encoder\<close> would write for the frame's struct, and fails exactly when
  the encoder would. (The frame is appended to \<open>dst\<close>; the fast path is taken whenever the result is absent or
  canonical.)
\<close>
theorem invoke_result_frame_bytes:
  "(case appendInvokeResultFrame dst generation invocationID resp of
      Some out \<Rightarrow> Some out
    | None \<Rightarrow> map_option (\<lambda>f. dst @ f) (invokeResultFrame generation invocationID resp))
   = map_option (\<lambda>f. dst @ f) (invokeResultFrame generation invocationID resp)"
proof (cases "rs_Result resp \<noteq> [] \<and> CanonicalRaw (rs_Result resp) \<noteq> Some True")
  case True
  then show ?thesis by (simp add: appendInvokeResultFrame_def)
next
  case False
  then have "rs_Result resp = [] \<or> encode_raw (rs_Result resp) = Some (rs_Result resp)" using CanonicalRaw_encode by blast
  then have r: "encode_response resp = Some (encode_object
      [(''ok'', Some (encode_bool (rs_OK resp))), (''plan'', omitempty (rs_Plan resp)), (''message'', omitempty (rs_Message resp)),
       (''result'', if rs_Result resp = [] then None else Some (rs_Result resp)), (''error'', omitempty (rs_Error resp)),
       (''warnings'', if rs_Warnings resp = [] then None else Some (encode_strings (rs_Warnings resp)))])"
    by (auto simp: encode_response_def)
  show ?thesis using False
    unfolding appendInvokeResultFrame_def invokeResultFrame_def r Let_def
    by (simp add: encode_object_Cons more_member_def encode_member_def quote_names omitempty_def appendJSONValue_def)
      (simp add: tilde_json_def)
qed

end
