(* ===== verification/Plugin_Budget.thy ===== *)
theory Plugin_Budget
  imports Plugin_Frame Json_Roundtrip
begin

text \<open>
  The signed budget of an invocation (\<^verbatim>\<open>src/plugin/budget.go\<close>): its wire form, its validation against the
  host maxima, and its resolution into the limits an invocation runs under. A Go \<^verbatim>\<open>int\<close> is an \<^typ>\<open>int\<close>;
  the one product, of the timeout with a million nanoseconds, is written with the wrap-around of 64 bits.
\<close>

section \<open>Limits\<close>

definition DefaultInvokeTimeoutMS :: int where "DefaultInvokeTimeoutMS = 10000"
definition DefaultInvokeStdoutBytes :: int where "DefaultInvokeStdoutBytes = 2 ^ 20"
definition DefaultInvokeStderrBytes :: int where "DefaultInvokeStderrBytes = 2 ^ 20"
definition DefaultInvokeHostCalls :: int where "DefaultInvokeHostCalls = 64"

definition HostMaxInvokeTimeoutMS :: int where "HostMaxInvokeTimeoutMS = 30000"
definition HostMaxInvokeStdoutBytes :: int where "HostMaxInvokeStdoutBytes = 8 * 2 ^ 20"
definition HostMaxInvokeStderrBytes :: int where "HostMaxInvokeStderrBytes = 2 ^ 20"
definition HostMaxInvokeHostCalls :: int where "HostMaxInvokeHostCalls = 512"
definition DefaultInvokeHTTPResponseBytes :: int where "DefaultInvokeHTTPResponseBytes = 256 * 2 ^ 10"
definition HostMaxInvokeHTTPResponseBytes :: int where "HostMaxInvokeHTTPResponseBytes = 8 * 2 ^ 20"

lemmas budget_limits = DefaultInvokeTimeoutMS_def DefaultInvokeStdoutBytes_def DefaultInvokeStderrBytes_def
  DefaultInvokeHostCalls_def HostMaxInvokeTimeoutMS_def HostMaxInvokeStdoutBytes_def HostMaxInvokeStderrBytes_def
  HostMaxInvokeHostCalls_def DefaultInvokeHTTPResponseBytes_def HostMaxInvokeHTTPResponseBytes_def

record InvokeBudgetSpec =
  bs_TimeoutMS :: int
  bs_StdoutBytes :: int
  bs_StderrBytes :: int
  bs_HostCalls :: int
  bs_HTTPResponseBytes :: int

section \<open>The wire form\<close>

record raw_budget =
  rb_TimeoutMS :: "int option"
  rb_StdoutBytes :: "int option"
  rb_StderrBytes :: "int option"
  rb_HostCalls :: "int option"
  rb_HTTPResponseBytes :: "int option"

definition zero_raw_budget :: raw_budget where
  "zero_raw_budget = \<lparr>rb_TimeoutMS = None, rb_StdoutBytes = None, rb_StderrBytes = None, rb_HostCalls = None, rb_HTTPResponseBytes = None\<rparr>"

abbreviation the_int :: "int store" where "the_int \<equiv> store_int (\<lambda>n _. n)"

definition budget_fields :: "(string \<times> raw_budget store) list" where
  "budget_fields =
     [(''timeout_ms'', store_ptr rb_TimeoutMS (\<lambda>p. rb_TimeoutMS_update (\<lambda>_. p)) 0 the_int),
      (''stdout_bytes'', store_ptr rb_StdoutBytes (\<lambda>p. rb_StdoutBytes_update (\<lambda>_. p)) 0 the_int),
      (''stderr_bytes'', store_ptr rb_StderrBytes (\<lambda>p. rb_StderrBytes_update (\<lambda>_. p)) 0 the_int),
      (''host_calls'', store_ptr rb_HostCalls (\<lambda>p. rb_HostCalls_update (\<lambda>_. p)) 0 the_int),
      (''http_response_bytes'', store_ptr rb_HTTPResponseBytes (\<lambda>p. rb_HTTPResponseBytes_update (\<lambda>_. p)) 0 the_int)]"

datatype budget_field = TimeoutMS | StdoutBytes | StderrBytes | HostCalls | HTTPResponseBytes

datatype budget_error =
    ErrBudgetDecode
  | ErrBudgetRequires
  | ErrBudgetHTTPPresent
  | ErrNotPositive budget_field
  | ErrNegative budget_field
  | ErrExceeds budget_field int int

definition InvokeBudgetSpec_UnmarshalJSON :: "string \<Rightarrow> budget_error + InvokeBudgetSpec" where
  "InvokeBudgetSpec_UnmarshalJSON data =
     (case decodeStrict budget_fields zero_raw_budget data of
        None \<Rightarrow> Inl ErrBudgetDecode
      | Some raw \<Rightarrow>
          (case (rb_TimeoutMS raw, rb_StdoutBytes raw, rb_StderrBytes raw, rb_HostCalls raw) of
             (Some timeout, Some stdout, Some stderr, Some calls) \<Rightarrow>
               (case rb_HTTPResponseBytes raw of
                  Some http \<Rightarrow>
                    if http \<le> 0 then Inl ErrBudgetHTTPPresent
                    else Inr \<lparr>bs_TimeoutMS = timeout, bs_StdoutBytes = stdout, bs_StderrBytes = stderr,
                              bs_HostCalls = calls, bs_HTTPResponseBytes = http\<rparr>
                | None \<Rightarrow> Inr \<lparr>bs_TimeoutMS = timeout, bs_StdoutBytes = stdout, bs_StderrBytes = stderr,
                               bs_HostCalls = calls, bs_HTTPResponseBytes = 0\<rparr>)
           | _ \<Rightarrow> Inl ErrBudgetRequires))"

definition InvokeBudgetSpec_MarshalJSON :: "InvokeBudgetSpec \<Rightarrow> string" where
  "InvokeBudgetSpec_MarshalJSON b =
     encode_object
       [(''timeout_ms'', Some (FormatInt (bs_TimeoutMS b))), (''stdout_bytes'', Some (FormatInt (bs_StdoutBytes b))),
        (''stderr_bytes'', Some (FormatInt (bs_StderrBytes b))), (''host_calls'', Some (FormatInt (bs_HostCalls b))),
        (''http_response_bytes'', if bs_HTTPResponseBytes b = 0 then None else Some (FormatInt (bs_HTTPResponseBytes b)))]"

section \<open>Validation\<close>

definition DefaultInvokeBudgetSpec :: InvokeBudgetSpec where
  "DefaultInvokeBudgetSpec =
     \<lparr>bs_TimeoutMS = DefaultInvokeTimeoutMS, bs_StdoutBytes = DefaultInvokeStdoutBytes,
      bs_StderrBytes = DefaultInvokeStderrBytes, bs_HostCalls = DefaultInvokeHostCalls, bs_HTTPResponseBytes = 0\<rparr>"

text \<open>\<open>None\<close> is the nil error.\<close>

definition validateInvokeBudgetPositive :: "InvokeBudgetSpec \<Rightarrow> budget_error option" where
  "validateInvokeBudgetPositive b =
     (if bs_TimeoutMS b \<le> 0 then Some (ErrNotPositive TimeoutMS)
      else if bs_StdoutBytes b \<le> 0 then Some (ErrNotPositive StdoutBytes)
      else if bs_StderrBytes b \<le> 0 then Some (ErrNotPositive StderrBytes)
      else if bs_HostCalls b < 0 then Some (ErrNegative HostCalls)
      else if bs_HTTPResponseBytes b < 0 then Some (ErrNegative HTTPResponseBytes)
      else None)"

definition ValidateInvokeBudgetSpec :: "InvokeBudgetSpec \<Rightarrow> budget_error option" where
  "ValidateInvokeBudgetSpec b =
     (case validateInvokeBudgetPositive b of
        Some err \<Rightarrow> Some err
      | None \<Rightarrow>
          if bs_TimeoutMS b > HostMaxInvokeTimeoutMS then Some (ErrExceeds TimeoutMS (bs_TimeoutMS b) HostMaxInvokeTimeoutMS)
          else if bs_StdoutBytes b > HostMaxInvokeStdoutBytes then Some (ErrExceeds StdoutBytes (bs_StdoutBytes b) HostMaxInvokeStdoutBytes)
          else if bs_StderrBytes b > HostMaxInvokeStderrBytes then Some (ErrExceeds StderrBytes (bs_StderrBytes b) HostMaxInvokeStderrBytes)
          else if bs_HostCalls b > HostMaxInvokeHostCalls then Some (ErrExceeds HostCalls (bs_HostCalls b) HostMaxInvokeHostCalls)
          else if bs_HTTPResponseBytes b > HostMaxInvokeHTTPResponseBytes
            then Some (ErrExceeds HTTPResponseBytes (bs_HTTPResponseBytes b) HostMaxInvokeHTTPResponseBytes)
          else None)"

section \<open>Resolution\<close>

definition clampInvokeBudget :: "InvokeBudgetSpec \<Rightarrow> InvokeBudgetSpec" where
  "clampInvokeBudget b =
     (let b = (if bs_TimeoutMS b > HostMaxInvokeTimeoutMS then b\<lparr>bs_TimeoutMS := HostMaxInvokeTimeoutMS\<rparr> else b);
          b = (if bs_StdoutBytes b > HostMaxInvokeStdoutBytes then b\<lparr>bs_StdoutBytes := HostMaxInvokeStdoutBytes\<rparr> else b);
          b = (if bs_StderrBytes b > HostMaxInvokeStderrBytes then b\<lparr>bs_StderrBytes := HostMaxInvokeStderrBytes\<rparr> else b);
          b = (if bs_HostCalls b > HostMaxInvokeHostCalls then b\<lparr>bs_HostCalls := HostMaxInvokeHostCalls\<rparr> else b)
      in if bs_HTTPResponseBytes b > HostMaxInvokeHTTPResponseBytes
         then b\<lparr>bs_HTTPResponseBytes := HostMaxInvokeHTTPResponseBytes\<rparr> else b)"

record ResolvedInvokeBudget =
  rv_Timeout :: int
  rv_StdoutBytes :: int
  rv_StderrBytes :: int
  rv_HostCalls :: int
  rv_HTTPResponseBytes :: int
  rv_Declared :: bool

definition Millisecond :: int where "Millisecond = 1000000"

definition ResolveInvokeBudget :: "InvokeBudgetSpec option \<Rightarrow> InvokeBudgetSpec \<Rightarrow> ResolvedInvokeBudget" where
  "ResolveInvokeBudget spec defaults =
     (let declared = (spec \<noteq> None);
          b = clampInvokeBudget (case spec of Some b \<Rightarrow> b | None \<Rightarrow> defaults);
          b = (if bs_TimeoutMS b \<le> 0 then b\<lparr>bs_TimeoutMS := DefaultInvokeTimeoutMS\<rparr> else b);
          b = (if bs_StdoutBytes b \<le> 0 then b\<lparr>bs_StdoutBytes := DefaultInvokeStdoutBytes\<rparr> else b);
          b = (if bs_StderrBytes b \<le> 0 then b\<lparr>bs_StderrBytes := DefaultInvokeStderrBytes\<rparr> else b);
          b = (if bs_HostCalls b < 0 then b\<lparr>bs_HostCalls := 0\<rparr> else b);
          b = (if bs_HTTPResponseBytes b \<le> 0 then b\<lparr>bs_HTTPResponseBytes := DefaultInvokeHTTPResponseBytes\<rparr> else b)
      in \<lparr>rv_Timeout = wrap64 (bs_TimeoutMS b * Millisecond), rv_StdoutBytes = bs_StdoutBytes b,
          rv_StderrBytes = bs_StderrBytes b, rv_HostCalls = bs_HostCalls b,
          rv_HTTPResponseBytes = bs_HTTPResponseBytes b, rv_Declared = declared\<rparr>)"

section \<open>What resolution answers\<close>

text \<open>One limit: the value inside the maximum, or the default for a value that is not positive.\<close>

definition limited :: "int \<Rightarrow> int \<Rightarrow> int \<Rightarrow> int" where
  "limited most dflt v = (if v \<le> 0 then dflt else min v most)"

lemma clamp_fields:
  "clampInvokeBudget b =
     \<lparr>bs_TimeoutMS = min (bs_TimeoutMS b) HostMaxInvokeTimeoutMS, bs_StdoutBytes = min (bs_StdoutBytes b) HostMaxInvokeStdoutBytes,
      bs_StderrBytes = min (bs_StderrBytes b) HostMaxInvokeStderrBytes, bs_HostCalls = min (bs_HostCalls b) HostMaxInvokeHostCalls,
      bs_HTTPResponseBytes = min (bs_HTTPResponseBytes b) HostMaxInvokeHTTPResponseBytes\<rparr>"
  by (cases b) (simp add: clampInvokeBudget_def Let_def min_def)

lemma limited_min: "0 < most \<Longrightarrow> (if min v most \<le> 0 then dflt else min v most) = limited most dflt v"
  by (auto simp: limited_def)

lemma if_budget:
  "(if c then \<lparr>bs_TimeoutMS = a1, bs_StdoutBytes = a2, bs_StderrBytes = a3, bs_HostCalls = a4, bs_HTTPResponseBytes = a5\<rparr>
    else \<lparr>bs_TimeoutMS = b1, bs_StdoutBytes = b2, bs_StderrBytes = b3, bs_HostCalls = b4, bs_HTTPResponseBytes = b5\<rparr>) =
   \<lparr>bs_TimeoutMS = if c then a1 else b1, bs_StdoutBytes = if c then a2 else b2, bs_StderrBytes = if c then a3 else b3,
    bs_HostCalls = if c then a4 else b4, bs_HTTPResponseBytes = if c then a5 else b5\<rparr>"
  by simp

lemma host_max_pos:
  "0 < HostMaxInvokeTimeoutMS" "0 < HostMaxInvokeStdoutBytes" "0 < HostMaxInvokeStderrBytes" "0 < HostMaxInvokeHTTPResponseBytes"
  by (simp_all add: budget_limits)

lemma Resolve_fields:
  fixes spec defaults
  defines "b \<equiv> (case spec of Some b \<Rightarrow> b | None \<Rightarrow> defaults)"
  shows "ResolveInvokeBudget spec defaults =
     \<lparr>rv_Timeout = limited HostMaxInvokeTimeoutMS DefaultInvokeTimeoutMS (bs_TimeoutMS b) * Millisecond,
      rv_StdoutBytes = limited HostMaxInvokeStdoutBytes DefaultInvokeStdoutBytes (bs_StdoutBytes b),
      rv_StderrBytes = limited HostMaxInvokeStderrBytes DefaultInvokeStderrBytes (bs_StderrBytes b),
      rv_HostCalls = max 0 (min (bs_HostCalls b) HostMaxInvokeHostCalls),
      rv_HTTPResponseBytes = limited HostMaxInvokeHTTPResponseBytes DefaultInvokeHTTPResponseBytes (bs_HTTPResponseBytes b),
      rv_Declared = (spec \<noteq> None)\<rparr>"
proof -
  have "in_i64 (limited HostMaxInvokeTimeoutMS DefaultInvokeTimeoutMS (bs_TimeoutMS b) * Millisecond)"
    by (auto simp: limited_def budget_limits Millisecond_def in_i64_def min_def)
  then have w: "wrap64 (limited HostMaxInvokeTimeoutMS DefaultInvokeTimeoutMS (bs_TimeoutMS b) * Millisecond) =
      limited HostMaxInvokeTimeoutMS DefaultInvokeTimeoutMS (bs_TimeoutMS b) * Millisecond" by (rule wrap64_id)
  have c: "(if min k HostMaxInvokeHostCalls < 0 then 0 else min k HostMaxInvokeHostCalls) = max 0 (min k HostMaxInvokeHostCalls)" for k
    by (auto simp: max_def)
  show ?thesis
    unfolding ResolveInvokeBudget_def clamp_fields Let_def b_def [symmetric]
    by (simp only: InvokeBudgetSpec.select_convs InvokeBudgetSpec.update_convs if_budget if_cancel limited_min host_max_pos c w)
qed

lemma Validate_None:
  "ValidateInvokeBudgetSpec b = None \<longleftrightarrow>
     0 < bs_TimeoutMS b \<and> bs_TimeoutMS b \<le> HostMaxInvokeTimeoutMS \<and> 0 < bs_StdoutBytes b \<and> bs_StdoutBytes b \<le> HostMaxInvokeStdoutBytes
     \<and> 0 < bs_StderrBytes b \<and> bs_StderrBytes b \<le> HostMaxInvokeStderrBytes \<and> 0 \<le> bs_HostCalls b \<and> bs_HostCalls b \<le> HostMaxInvokeHostCalls
     \<and> 0 \<le> bs_HTTPResponseBytes b \<and> bs_HTTPResponseBytes b \<le> HostMaxInvokeHTTPResponseBytes"
  by (auto simp: ValidateInvokeBudgetSpec_def validateInvokeBudgetPositive_def)

text \<open>The budget a resolved one stands for.\<close>

definition as_spec :: "ResolvedInvokeBudget \<Rightarrow> InvokeBudgetSpec" where
  "as_spec r = \<lparr>bs_TimeoutMS = rv_Timeout r div Millisecond, bs_StdoutBytes = rv_StdoutBytes r, bs_StderrBytes = rv_StderrBytes r,
     bs_HostCalls = rv_HostCalls r, bs_HTTPResponseBytes = rv_HTTPResponseBytes r\<rparr>"

text \<open>
  C30. Whatever budget a manifest names and whatever defaults the host has, the resolved budget is one validation
  accepts, its timeout a whole number of milliseconds that did not wrap; a declared budget is valid exactly
  when the invocation runs under the very values it names, an absent response bound read as the default; and a
  valid budget does not depend on the host's defaults.
\<close>
theorem resolved_budget_valid:
  "ValidateInvokeBudgetSpec (as_spec (ResolveInvokeBudget spec defaults)) = None
   \<and> rv_Timeout (ResolveInvokeBudget spec defaults) = bs_TimeoutMS (as_spec (ResolveInvokeBudget spec defaults)) * Millisecond
   \<and> rv_Declared (ResolveInvokeBudget spec defaults) = (spec \<noteq> None)
   \<and> (ValidateInvokeBudgetSpec b = None \<longleftrightarrow>
        as_spec (ResolveInvokeBudget (Some b) defaults) =
          (if bs_HTTPResponseBytes b = 0 then b\<lparr>bs_HTTPResponseBytes := DefaultInvokeHTTPResponseBytes\<rparr> else b))"
proof (intro conjI)
  have m: "x * Millisecond div Millisecond = x" for x by (simp add: Millisecond_def)
  show "ValidateInvokeBudgetSpec (as_spec (ResolveInvokeBudget spec defaults)) = None"
    unfolding Validate_None by (simp add: as_spec_def Resolve_fields m limited_def budget_limits min_def)
  show "rv_Timeout (ResolveInvokeBudget spec defaults) = bs_TimeoutMS (as_spec (ResolveInvokeBudget spec defaults)) * Millisecond"
    by (simp add: as_spec_def Resolve_fields m)
  show "rv_Declared (ResolveInvokeBudget spec defaults) = (spec \<noteq> None)" by (simp add: Resolve_fields)
  show "ValidateInvokeBudgetSpec b = None \<longleftrightarrow>
        as_spec (ResolveInvokeBudget (Some b) defaults) =
          (if bs_HTTPResponseBytes b = 0 then b\<lparr>bs_HTTPResponseBytes := DefaultInvokeHTTPResponseBytes\<rparr> else b)"
    unfolding Validate_None by (cases b) (auto simp: as_spec_def Resolve_fields m limited_def budget_limits min_def max_def split: if_splits)
qed

section \<open>The wire form round trip\<close>

definition budget_i64 :: "InvokeBudgetSpec \<Rightarrow> bool" where
  "budget_i64 b \<longleftrightarrow> in_i64 (bs_TimeoutMS b) \<and> in_i64 (bs_StdoutBytes b) \<and> in_i64 (bs_StderrBytes b)
     \<and> in_i64 (bs_HostCalls b) \<and> in_i64 (bs_HTTPResponseBytes b)"

lemma parse_budget:
  assumes "budget_i64 b"
  shows "parse_document (InvokeBudgetSpec_MarshalJSON b) =
     Some (JObject (InvokeBudgetSpec_MarshalJSON b)
       ([(''timeout_ms'', JNumber (FormatInt (bs_TimeoutMS b))), (''stdout_bytes'', JNumber (FormatInt (bs_StdoutBytes b))),
         (''stderr_bytes'', JNumber (FormatInt (bs_StderrBytes b))), (''host_calls'', JNumber (FormatInt (bs_HostCalls b)))]
        @ (if bs_HTTPResponseBytes b = 0 then [] else [(''http_response_bytes'', JNumber (FormatInt (bs_HTTPResponseBytes b)))])))"
proof -
  note n = assms [unfolded budget_i64_def]
  show ?thesis unfolding InvokeBudgetSpec_MarshalJSON_def
    by (subst parse_encode_object [where n = 0])
      (use n in \<open>simp_all add: present_def maxNestingDepth_def html_safe_def ord_def grammar_num num_text_FormatInt parse_num\<close>)
qed

text \<open>
  C31. A budget the encoder writes is read back as it was, the optional response bound included: absent from the
  wire when it is zero, and refused when it is negative, the one value the wire cannot carry.
\<close>
theorem budget_roundtrip:
  assumes "budget_i64 b"
  shows "InvokeBudgetSpec_UnmarshalJSON (InvokeBudgetSpec_MarshalJSON b) =
     (if bs_HTTPResponseBytes b < 0 then Inl ErrBudgetHTTPPresent else Inr b)"
proof -
  note n = assms [unfolded budget_i64_def] and names = find_field_def store_ptr_def store_int_def
  have "decodeStrict budget_fields zero_raw_budget (InvokeBudgetSpec_MarshalJSON b) =
     Some \<lparr>rb_TimeoutMS = Some (bs_TimeoutMS b), rb_StdoutBytes = Some (bs_StdoutBytes b), rb_StderrBytes = Some (bs_StderrBytes b),
       rb_HostCalls = Some (bs_HostCalls b),
       rb_HTTPResponseBytes = (if bs_HTTPResponseBytes b = 0 then None else Some (bs_HTTPResponseBytes b))\<rparr>"
    using n by (simp add: decodeStrict_def Unmarshal_def parse_budget [OF assms] store_struct_def budget_fields_def zero_raw_budget_def names ParseInt_FormatInt)
  then show ?thesis by (cases b) (simp add: InvokeBudgetSpec_UnmarshalJSON_def)
qed

theorem budget_roundtrip_witness:
  "InvokeBudgetSpec_UnmarshalJSON (InvokeBudgetSpec_MarshalJSON DefaultInvokeBudgetSpec) = Inr DefaultInvokeBudgetSpec"
proof -
  have "budget_i64 DefaultInvokeBudgetSpec" by (simp add: budget_i64_def DefaultInvokeBudgetSpec_def in_i64_def budget_limits)
  from budget_roundtrip [OF this] show ?thesis by (simp add: DefaultInvokeBudgetSpec_def)
qed

end
