(* ===== verification/Go_Text.thy ===== *)
theory Go_Text
  imports Go_Strings
begin

text \<open>
  More of Go's \<^verbatim>\<open>strings\<close>: the words of a text and the search for a rune with a property. Both go over the
  runes of the string, whose bytes need not be valid UTF-8.
\<close>

section \<open>Words\<close>

text \<open>The length in bytes of the first word of a text that starts with one.\<close>

function word_length :: "string \<Rightarrow> nat" where
  "word_length s = (if s = [] \<or> IsSpace (fst (DecodeRune s)) then 0
     else snd (DecodeRune s) + word_length (drop (snd (DecodeRune s)) s))"
  by pat_completeness auto
termination
proof (relation "measure length", simp)
  fix s :: string
  assume "\<not> (s = [] \<or> IsSpace (fst (DecodeRune s)))"
  then show "(drop (snd (DecodeRune s)) s, s) \<in> measure length" using DecodeRune_width [of s] by simp
qed

declare word_length.simps [simp del]

lemma trim_left_length: "length (trim_left s) \<le> length s"
proof (induction s rule: trim_left.induct)
  case (1 s)
  then show ?case by (subst trim_left.simps) force
qed

lemma trim_left_word:
  assumes "trim_left s \<noteq> []"
  shows "0 < word_length (trim_left s)"
  using assms
proof (induction s rule: trim_left.induct)
  case (1 s)
  show ?case
  proof (cases "s \<noteq> [] \<and> IsSpace (fst (DecodeRune s))")
    case True
    with 1 show ?thesis by (simp add: trim_left.simps [of s])
  next
    case False
    then have t: "trim_left s = s" by (subst trim_left.simps) (simp only: if_False)
    with 1(2) False show ?thesis using DecodeRune_width [of s] by (simp add: word_length.simps [of s])
  qed
qed

text \<open>\<^verbatim>\<open>strings.Fields\<close>: the text cut around its runs of white space.\<close>

function strings_Fields :: "string \<Rightarrow> string list" where
  "strings_Fields s =
     (let t = trim_left s in
      if t = [] then [] else take (word_length t) t # strings_Fields (drop (word_length t) t))"
  by pat_completeness auto
termination
proof (relation "measure length", simp)
  fix s t :: string
  assume t: "t = trim_left s" "t \<noteq> []"
  then have "0 < word_length t" "length t \<le> length s" "0 < length t" using trim_left_word [of s] trim_left_length [of s] by simp_all
  then show "(drop (word_length t) t, s) \<in> measure length" unfolding in_measure length_drop by linarith
qed

declare strings_Fields.simps [simp del]

section \<open>Runes with a property\<close>

function ContainsFunc :: "(nat \<Rightarrow> bool) \<Rightarrow> string \<Rightarrow> bool" where
  "ContainsFunc P s =
     (if s = [] then False
      else if P (fst (DecodeRune s)) then True
      else ContainsFunc P (drop (snd (DecodeRune s)) s))"
  by pat_completeness auto
termination
proof (relation "measure (\<lambda>(P, s). length s)", simp)
  fix P :: "nat \<Rightarrow> bool" and s :: string
  assume "s \<noteq> []"
  with DecodeRune_width [of s] show "((P, drop (snd (DecodeRune s)) s), P, s) \<in> measure (\<lambda>(P, s). length s)" by simp
qed

declare ContainsFunc.simps [simp del]

lemma ContainsFunc_Nil [simp]: "\<not> ContainsFunc P []"
  by (subst ContainsFunc.simps) simp

text \<open>ASCII first, for evaluation.\<close>

lemma IsSpace_code [code]:
  "IsSpace r =
     (if r < 128 then (9 \<le> r \<and> r \<le> 13) \<or> r = 32
      else r = 0x85 \<or> r = 0xA0 \<or> r = 0x1680 \<or> (0x2000 \<le> r \<and> r \<le> 0x200A) \<or> r = 0x2028 \<or> r = 0x2029 \<or> r = 0x202F
        \<or> r = 0x205F \<or> r = 0x3000)"
  by (auto simp: IsSpace_def)

end
