(* ===== verification/Plugin_Schedule.thy ===== *)
theory Plugin_Schedule
  imports Plugin_Host_Ops Go_Text
begin

text \<open>
  Cron schedules of plugin methods (\<^verbatim>\<open>src/plugin/task_schedule.go\<close>): the cron dialect, the shortest gap an
  expression leaves between two runs, the checks on a schedule and on the set a plugin holds, and the two
  host calls. A \<^verbatim>\<open>map[int]struct{}\<close> that is only filled and then sorted is the list of its elements,
  duplicates removed at the end.
\<close>

section \<open>Limits\<close>

definition HostMethodTaskSchedule :: string where "HostMethodTaskSchedule = ''task.schedule''"
definition HostMethodTaskUnschedule :: string where "HostMethodTaskUnschedule = ''task.unschedule''"

definition Minute :: int where "Minute = 60000000000"

definition MaxTaskSchedulesPerPlugin :: nat where "MaxTaskSchedulesPerPlugin = 64"
definition MinTaskScheduleInterval :: int where "MinTaskScheduleInterval = 5 * Minute"
definition MaxTaskScheduleIDBytes :: nat where "MaxTaskScheduleIDBytes = 64"
definition MaxTaskScheduleCronBytes :: nat where "MaxTaskScheduleCronBytes = 128"
definition MaxTaskScheduleNameBytes :: nat where "MaxTaskScheduleNameBytes = 128"
definition MaxTaskSchedulePayloadBytes :: nat where "MaxTaskSchedulePayloadBytes = 64 * 2 ^ 10"

record TaskSchedule =
  ts_ID :: string
  ts_Cron :: string
  ts_Service :: string
  ts_Method :: string
  ts_Payload :: string

section \<open>Cron fields\<close>

datatype cron_error =
    CronTooLong
  | CronNeedsFive
  | CronStep string
  | CronRange string
  | CronStepNeedsRange string
  | CronValue string
  | CronOutside string
  | CronPanic

definition cronNumber :: "string \<Rightarrow> int option" where
  "cronNumber s = (if length s = 0 \<or> length s > 2 \<or> dropWhile is_digit s \<noteq> [] then None else ParseInt s)"

text \<open>The loop over a range; the caller has checked that the step is at least one.\<close>

function cron_steps :: "int \<Rightarrow> int \<Rightarrow> int \<Rightarrow> int list" where
  "cron_steps v last_v step = (if v \<le> last_v \<and> 1 \<le> step then v # cron_steps (v + step) last_v step else [])"
  by pat_completeness auto
termination by (relation "measure (\<lambda>(v, last_v, step). nat (last_v - v + 1))") auto

declare cron_steps.simps [simp del]

definition cron_step :: "string \<Rightarrow> string \<Rightarrow> bool \<Rightarrow> cron_error + int" where
  "cron_step item stepPart hasStep =
     (if hasStep then
        (case cronNumber stepPart of None \<Rightarrow> Inl (CronStep item) | Some n \<Rightarrow> if n < 1 then Inl (CronStep item) else Inr n)
      else Inr 1)"

definition cron_range :: "string \<Rightarrow> string \<Rightarrow> bool \<Rightarrow> int \<Rightarrow> int \<Rightarrow> cron_error + int \<times> int" where
  "cron_range item rangePart hasStep lo hi =
     (if rangePart = ''*'' then Inr (lo, hi)
      else if CHR ''-'' \<in> set rangePart then
        (case Cut (CHR ''-'') rangePart of
           (a, b, _) \<Rightarrow>
             (case (cronNumber a, cronNumber b) of
                (Some first_v, Some final_v) \<Rightarrow> if first_v > final_v then Inl (CronRange item) else Inr (first_v, final_v)
              | _ \<Rightarrow> Inl (CronRange item)))
      else if hasStep then Inl (CronStepNeedsRange item)
      else (case cronNumber rangePart of None \<Rightarrow> Inl (CronValue item) | Some n \<Rightarrow> Inr (n, n)))"

definition cron_item :: "string \<Rightarrow> int \<Rightarrow> int \<Rightarrow> cron_error + int list" where
  "cron_item item lo hi =
     (case Cut (CHR ''/'') item of
        (rangePart, stepPart, hasStep) \<Rightarrow>
          (case cron_step item stepPart hasStep of
             Inl e \<Rightarrow> Inl e
           | Inr step \<Rightarrow>
               (case cron_range item rangePart hasStep lo hi of
                  Inl e \<Rightarrow> Inl e
                | Inr (first_v, final_v) \<Rightarrow>
                    if first_v < lo \<or> final_v > hi then Inl (CronOutside item)
                    else Inr (cron_steps first_v final_v step))))"

fun cron_items :: "string list \<Rightarrow> int \<Rightarrow> int \<Rightarrow> cron_error + int list" where
  "cron_items [] lo hi = Inr []"
| "cron_items (item # rest) lo hi =
     (case cron_item item lo hi of
        Inl e \<Rightarrow> Inl e
      | Inr vs \<Rightarrow> (case cron_items rest lo hi of Inl e \<Rightarrow> Inl e | Inr us \<Rightarrow> Inr (vs @ us)))"

definition parseCronField :: "string \<Rightarrow> int \<Rightarrow> int \<Rightarrow> cron_error + int list" where
  "parseCronField field lo hi =
     (case cron_items (Split (CHR '','') field) lo hi of Inl e \<Rightarrow> Inl e | Inr vs \<Rightarrow> Inr (sort (remdups vs)))"

section \<open>The shortest gap\<close>

definition cron_bounds :: "(int \<times> int) list" where
  "cron_bounds = [(0, 59), (0, 23), (1, 31), (1, 12), (0, 7)]"

fun cron_sets :: "string list \<Rightarrow> (int \<times> int) list \<Rightarrow> cron_error + int list list" where
  "cron_sets (f # fs) ((lo, hi) # bs) =
     (case parseCronField f lo hi of
        Inl e \<Rightarrow> Inl e
      | Inr s \<Rightarrow> (case cron_sets fs bs of Inl e \<Rightarrow> Inl e | Inr ss \<Rightarrow> Inr (s # ss)))"
| "cron_sets _ _ = Inr []"

definition cron_runs :: "int list \<Rightarrow> int list \<Rightarrow> int list" where
  "cron_runs hours minutes = sort (concat (map (\<lambda>hour. map (\<lambda>minute. hour * 60 + minute) minutes) hours))"

fun min_adjacent :: "int \<Rightarrow> int list \<Rightarrow> int" where
  "min_adjacent gap (a # b # rs) = min_adjacent (min gap (b - a)) (b # rs)"
| "min_adjacent gap _ = gap"

text \<open>A Go index out of range is \<open>None\<close>.\<close>

definition shortest_gap :: "int list \<Rightarrow> int option" where
  "shortest_gap runs =
     (case runs of [] \<Rightarrow> None | r # _ \<Rightarrow> Some (min_adjacent (r + 24 * 60 - last runs) runs))"

definition CronMinInterval :: "string \<Rightarrow> cron_error + int" where
  "CronMinInterval expr =
     (if length expr > MaxTaskScheduleCronBytes then Inl CronTooLong
      else let fs = strings_Fields expr in
      if length fs \<noteq> 5 then Inl CronNeedsFive
      else case cron_sets fs cron_bounds of
        Inl e \<Rightarrow> Inl e
      | Inr sets \<Rightarrow>
          (case shortest_gap (cron_runs (sets ! 1) (sets ! 0)) of
             None \<Rightarrow> Inl CronPanic
           | Some gap \<Rightarrow> Inr (wrap64 (gap * Minute))))"

section \<open>Schedules\<close>

definition taskScheduleID :: "string \<Rightarrow> bool" where
  "taskScheduleID s \<longleftrightarrow>
     s \<noteq> [] \<and> (let c = ord (hd s) in (97 \<le> c \<and> c \<le> 122) \<or> (48 \<le> c \<and> c \<le> 57))
     \<and> list_all (\<lambda>c. (97 \<le> ord c \<and> ord c \<le> 122) \<or> (48 \<le> ord c \<and> ord c \<le> 57) \<or> c \<in> {CHR ''.'', CHR ''_'', CHR ''-''}) s"

datatype schedule_error =
    ScheduleID
  | ScheduleName
  | SchedulePayloadSize
  | SchedulePayloadJSON
  | ScheduleCron cron_error
  | ScheduleInterval int
  | ScheduleTooMany
  | ScheduleDuplicate string

definition schedule_name_bad :: "string \<Rightarrow> bool" where
  "schedule_name_bad v \<longleftrightarrow>
     v = [] \<or> length v > MaxTaskScheduleNameBytes \<or> ContainsFunc (\<lambda>r. r \<le> 32 \<or> r = 0x7F) v"

text \<open>The source ranges over a map of the two names, so which of two bad names the error quotes is not fixed.\<close>

definition TaskSchedule_Validate :: "TaskSchedule \<Rightarrow> schedule_error option" where
  "TaskSchedule_Validate s =
     (if length (ts_ID s) > MaxTaskScheduleIDBytes \<or> \<not> taskScheduleID (ts_ID s) then Some ScheduleID
      else if schedule_name_bad (ts_Service s) \<or> schedule_name_bad (ts_Method s) then Some ScheduleName
      else if length (ts_Payload s) > MaxTaskSchedulePayloadBytes then Some SchedulePayloadSize
      else if length (ts_Payload s) > 0 \<and> \<not> json_Valid (ts_Payload s) then Some SchedulePayloadJSON
      else case CronMinInterval (ts_Cron s) of
        Inl err \<Rightarrow> Some (ScheduleCron err)
      | Inr interval \<Rightarrow> if interval < MinTaskScheduleInterval then Some (ScheduleInterval interval) else None)"

fun validate_schedules :: "string set \<Rightarrow> TaskSchedule list \<Rightarrow> schedule_error option" where
  "validate_schedules seen [] = None"
| "validate_schedules seen (s # rest) =
     (case TaskSchedule_Validate s of
        Some err \<Rightarrow> Some err
      | None \<Rightarrow>
          if ts_ID s \<in> seen then Some (ScheduleDuplicate (ts_ID s))
          else validate_schedules (insert (ts_ID s) seen) rest)"

definition ValidateTaskSchedules :: "TaskSchedule list \<Rightarrow> schedule_error option" where
  "ValidateTaskSchedules schedules =
     (if length schedules > MaxTaskSchedulesPerPlugin then Some ScheduleTooMany else validate_schedules {} schedules)"

section \<open>The host calls\<close>

definition schedule_params :: "TaskSchedule \<Rightarrow> string option" where
  "schedule_params s =
     (let head = [(''id'', Some (json_quote (ts_ID s))), (''cron'', Some (json_quote (ts_Cron s))),
                  (''service'', Some (json_quote (ts_Service s))), (''method'', Some (json_quote (ts_Method s)))]
      in if ts_Payload s = [] then Some (encode_object head)
         else map_option (\<lambda>raw. encode_object (head @ [(''payload'', Some raw)])) (encode_raw (ts_Payload s)))"

definition HostClient_TaskSchedule ::
  "call_env \<Rightarrow> TaskSchedule \<Rightarrow> HostClient \<Rightarrow> hostTransport \<Rightarrow> (((schedule_error + op_error) + unit) \<times> HostClient \<times> hostTransport) option" where
  "HostClient_TaskSchedule env sch c t =
     (case TaskSchedule_Validate sch of
        Some err \<Rightarrow> Some (Inl (Inl err), c, t)
      | None \<Rightarrow>
          map_option (\<lambda>(r, c', t'). (case r of Inl e \<Rightarrow> Inl (Inr e) | Inr u \<Rightarrow> Inr u, c', t'))
            (via_call env HostMethodTaskSchedule (schedule_params sch) ignore_result c t))"

definition unschedule_params :: "string \<Rightarrow> string" where
  "unschedule_params i = encode_object [(''id'', Some (json_quote i))]"

definition unschedule_reply :: "host_error + string \<Rightarrow> op_error + bool" where
  "unschedule_reply r =
     (case r of
        Inl e \<Rightarrow> Inl (OpHost e)
      | Inr raw \<Rightarrow>
          (case Unmarshal (store_struct [(''removed'', store_bool (\<lambda>b _. b))] False) False raw of
             None \<Rightarrow> Inl OpDecode
           | Some removed \<Rightarrow> Inr removed))"

definition TaskUnschedule where
  "TaskUnschedule env i = via_call env HostMethodTaskUnschedule (Some (unschedule_params i)) unschedule_reply"

interpretation unschedule: host_operation TaskUnschedule HostMethodTaskUnschedule unschedule_params unschedule_reply
  by unfold_locales (auto simp: TaskUnschedule_def unschedule_reply_def)

section \<open>The dialect of a field\<close>

text \<open>What the documentation of \<^verbatim>\<open>TaskSchedule.Cron\<close> admits between two commas, and the values it selects.\<close>

definition cron_numeral :: "string \<Rightarrow> int \<Rightarrow> bool" where
  "cron_numeral s n \<longleftrightarrow> digits_only s \<and> length s \<le> 2 \<and> n = int (undec s)"

inductive cron_text :: "int \<Rightarrow> int \<Rightarrow> string \<Rightarrow> int set \<Rightarrow> bool" for lo hi where
  any: "cron_text lo hi ''*'' {lo..hi}"
| any_step: "cron_numeral p n \<Longrightarrow> 1 \<le> n \<Longrightarrow> cron_text lo hi (''*'' @ CHR ''/'' # p) {v. lo \<le> v \<and> v \<le> hi \<and> n dvd v - lo}"
| one: "cron_numeral s a \<Longrightarrow> lo \<le> a \<Longrightarrow> a \<le> hi \<Longrightarrow> cron_text lo hi s {a}"
| range: "cron_numeral s a \<Longrightarrow> cron_numeral t b \<Longrightarrow> lo \<le> a \<Longrightarrow> a \<le> b \<Longrightarrow> b \<le> hi \<Longrightarrow>
     cron_text lo hi (s @ CHR ''-'' # t) {a..b}"
| range_step: "cron_numeral s a \<Longrightarrow> cron_numeral t b \<Longrightarrow> cron_numeral p n \<Longrightarrow> lo \<le> a \<Longrightarrow> a \<le> b \<Longrightarrow> b \<le> hi \<Longrightarrow> 1 \<le> n \<Longrightarrow>
     cron_text lo hi ((s @ CHR ''-'' # t) @ CHR ''/'' # p) {v. a \<le> v \<and> v \<le> b \<and> n dvd v - a}"

definition cron_field_text :: "int \<Rightarrow> int \<Rightarrow> string \<Rightarrow> int set \<Rightarrow> bool" where
  "cron_field_text lo hi field S \<longleftrightarrow>
     (\<exists>Ss. list_all2 (cron_text lo hi) (Split (CHR '','') field) Ss \<and> S = \<Union> (set Ss))"

lemma cron_marks: "\<not> is_digit CHR ''/''" "\<not> is_digit CHR ''-''" "\<not> is_digit CHR ''*''"
  by (simp_all add: is_digit_def ord_def)

lemma numeral_chars: "cron_numeral s n \<Longrightarrow> CHR ''/'' \<notin> set s \<and> CHR ''-'' \<notin> set s \<and> CHR ''*'' \<notin> set s \<and> s \<noteq> []"
  using cron_marks by (auto simp: cron_numeral_def digits_only_def list_all_iff)

lemma cronNumber_iff: "cronNumber s = Some n \<longleftrightarrow> cron_numeral s n"
proof (cases "digits_only s \<and> length s \<le> 2")
  case True
  then have "undec s < 10 ^ length s" "list_all is_digit s" "s \<noteq> []" by (auto simp: digits_only_def intro: undec_less)
  moreover from this True have "(10 :: nat) ^ length s \<le> 10 ^ 2" by (intro power_increasing) simp_all
  ultimately have "undec s < 2 ^ 63" "is_digit (hd s)" "dropWhile is_digit s = []" by (auto simp: list_all_iff)
  moreover from this have "hd s \<noteq> CHR ''-''" "hd s \<noteq> CHR ''+''" using sign_not_digit by metis+
  ultimately show ?thesis using True \<open>s \<noteq> []\<close> by (auto simp: cronNumber_def cron_numeral_def ParseInt_def Let_def)
next
  case False
  then have "\<not> cron_numeral s n" by (auto simp: cron_numeral_def)
  moreover have "cronNumber s \<noteq> Some n"
  proof
    assume "cronNumber s = Some n"
    then have "s \<noteq> []" "length s \<le> 2" "dropWhile is_digit s = []" by (auto simp: cronNumber_def split: if_splits)
    then have "digits_only s \<and> length s \<le> 2" by (simp add: digits_only_def list_all_iff)
    with False show False by blast
  qed
  ultimately show ?thesis by blast
qed

lemma cron_steps_set: "1 \<le> step \<Longrightarrow> set (cron_steps v w step) = {x. v \<le> x \<and> x \<le> w \<and> step dvd x - v}"
proof (induction v w step rule: cron_steps.induct)
  case (1 v w step)
  show ?case
  proof (cases "v \<le> w")
    case True
    have "{x. v \<le> x \<and> x \<le> w \<and> step dvd x - v} = insert v {x. v + step \<le> x \<and> x \<le> w \<and> step dvd x - (v + step)}"
    proof (intro set_eqI iffI)
      fix x assume x: "x \<in> {x. v \<le> x \<and> x \<le> w \<and> step dvd x - v}"
      then obtain k where k: "x - v = step * k" by (auto elim: dvdE)
      have "x - (v + step) = step * (k - 1)" using k by (simp add: algebra_simps)
      moreover have "x = v \<or> v + step \<le> x"
      proof -
        have "0 \<le> step * k" using x k by simp
        then have "k = 0 \<or> 1 \<le> k" using 1(2) by (auto simp: zero_le_mult_iff)
        then have "k = 0 \<or> step \<le> step * k" using 1(2) mult_left_mono [of 1 k step] by auto
        then show ?thesis using k by (elim disjE) (simp, linarith)
      qed
      ultimately show "x \<in> insert v {x. v + step \<le> x \<and> x \<le> w \<and> step dvd x - (v + step)}" using x by auto
    next
      fix x assume x: "x \<in> insert v {x. v + step \<le> x \<and> x \<le> w \<and> step dvd x - (v + step)}"
      have "step dvd x - v" if "step dvd x - (v + step)"
        using dvd_add [OF that dvd_refl] by (simp add: algebra_simps)
      then show "x \<in> {x. v \<le> x \<and> x \<le> w \<and> step dvd x - v}" using x True 1(2) by auto
    qed
    with True 1 show ?thesis by (subst cron_steps.simps) simp
  next
    case False
    then show ?thesis by (subst cron_steps.simps) auto
  qed
qed

lemma cron_steps_one: "set (cron_steps v w 1) = {v..w}"
  by (auto simp: cron_steps_set)

section \<open>What a field selects\<close>

lemma cron_range_iff:
  "cron_range item r hasStep lo hi = Inr (x, y) \<longleftrightarrow>
     r = ''*'' \<and> x = lo \<and> y = hi
     \<or> (\<exists>s t. r = s @ CHR ''-'' # t \<and> cron_numeral s x \<and> cron_numeral t y \<and> x \<le> y)
     \<or> (\<not> hasStep \<and> cron_numeral r x \<and> y = x)"
proof -
  consider (star) "r = ''*''" | (dash) "r \<noteq> ''*''" "CHR ''-'' \<in> set r" | (plain) "r \<noteq> ''*''" "CHR ''-'' \<notin> set r" by blast
  then show ?thesis
  proof cases
    case star
    have "''*'' \<noteq> s @ CHR ''-'' # t" for s t by (cases s) auto
    then show ?thesis using star numeral_chars [of r] by (auto simp: cron_range_def)
  next
    case dash
    obtain a b f where c: "Cut (CHR ''-'') r = (a, b, f)" by (rule prod_cases3)
    then have r: "r = a @ CHR ''-'' # b" "CHR ''-'' \<notin> set a" using Cut_cases [OF c] dash(2) by auto
    have u: "s = a \<and> t = b" if "r = s @ CHR ''-'' # t" "cron_numeral s x" for s t
      using Cut_append [of "CHR ''-''" s t] numeral_chars [OF that(2)] c that(1) by simp
    have "cron_range item r hasStep lo hi = Inr (x, y) \<longleftrightarrow> cron_numeral a x \<and> cron_numeral b y \<and> x \<le> y"
      using dash by (auto simp: cron_range_def c cronNumber_iff [symmetric] split: option.splits)
    then show ?thesis using dash u r numeral_chars [of r] by blast
  next
    case plain
    then show ?thesis by (auto simp: cron_range_def cronNumber_iff [symmetric] split: option.splits)
  qed
qed

lemma cron_step_iff:
  "cron_step item p f = Inr step \<longleftrightarrow> (if f then cron_numeral p step \<and> 1 \<le> step else step = 1)"
  by (auto simp: cron_step_def cronNumber_iff [symmetric] split: option.splits)

lemma cron_item_iff:
  "cron_item item lo hi = Inr vs \<longleftrightarrow>
     (\<exists>r p f step x y. Cut (CHR ''/'') item = (r, p, f) \<and> cron_step item p f = Inr step
        \<and> cron_range item r f lo hi = Inr (x, y) \<and> lo \<le> x \<and> y \<le> hi \<and> vs = cron_steps x y step)"
  by (auto simp: cron_item_def split: prod.splits sum.splits)

lemma cron_itemI:
  "Cut (CHR ''/'') item = (r, p, f) \<Longrightarrow> cron_step item p f = Inr step \<Longrightarrow> cron_range item r f lo hi = Inr (x, y) \<Longrightarrow>
   lo \<le> x \<Longrightarrow> y \<le> hi \<Longrightarrow> cron_item item lo hi = Inr (cron_steps x y step)"
  unfolding cron_item_iff by blast

lemma cron_item_text: "(\<exists>vs. cron_item item lo hi = Inr vs \<and> set vs = S) \<longleftrightarrow> cron_text lo hi item S"
proof
  assume "\<exists>vs. cron_item item lo hi = Inr vs \<and> set vs = S"
  then obtain r p f step x y where i: "Cut (CHR ''/'') item = (r, p, f)" "cron_step item p f = Inr step"
      "cron_range item r f lo hi = Inr (x, y)" "lo \<le> x" "y \<le> hi" "S = set (cron_steps x y step)"
    unfolding cron_item_iff by blast
  note c = Cut_cases [OF i(1)] and s = i(2) [unfolded cron_step_iff] and q = i(3) [unfolded cron_range_iff]
  show "cron_text lo hi item S"
  proof (cases f)
    case True
    then have it: "item = r @ CHR ''/'' # p" and st: "cron_numeral p step" "1 \<le> step" using c s by auto
    from q show ?thesis
    proof (elim disjE conjE exE)
      assume "r = ''*''" "x = lo" "y = hi"
      then show ?thesis using cron_text.any_step [OF st] by (simp only: it i(6) cron_steps_set [OF st(2)])
    next
      fix s t assume "r = s @ CHR ''-'' # t" "cron_numeral s x" "cron_numeral t y" "x \<le> y"
      then show ?thesis using cron_text.range_step [OF _ _ st(1) i(4) _ i(5) st(2)]
        by (simp only: it i(6) cron_steps_set [OF st(2)])
    qed (use True in simp)
  next
    case False
    then have it: "item = r" and st: "step = 1" using c s by auto
    from q show ?thesis
    proof (elim disjE conjE exE)
      assume "r = ''*''" "x = lo" "y = hi"
      then show ?thesis using cron_text.any by (simp only: it i(6) st cron_steps_one)
    next
      fix s t assume "r = s @ CHR ''-'' # t" "cron_numeral s x" "cron_numeral t y" "x \<le> y"
      then show ?thesis using cron_text.range [OF _ _ i(4) _ i(5)] by (simp only: it i(6) st cron_steps_one)
    next
      assume "cron_numeral r x" "y = x"
      then show ?thesis using cron_text.one i(4,5) by (simp add: it i(6) st cron_steps_one)
    qed
  qed
next
  have sl: "Cut (CHR ''/'') (r @ CHR ''/'' # p) = (r, p, True)" if "CHR ''/'' \<notin> set r" for r p by (rule Cut_append [OF that])
  have ns: "Cut (CHR ''/'') r = (r, [], False)" if "CHR ''/'' \<notin> set r" for r by (rule Cut_absent [OF that])
  assume "cron_text lo hi item S"
  then show "\<exists>vs. cron_item item lo hi = Inr vs \<and> set vs = S"
  proof cases
    case any
    have "cron_range item ''*'' False lo hi = Inr (lo, hi)" unfolding cron_range_iff by blast
    then have "cron_item item lo hi = Inr (cron_steps lo hi 1)"
      using any by (intro cron_itemI [where f = False and step = 1]) (simp_all add: ns cron_step_iff)
    then show ?thesis using any by (simp add: cron_steps_one)
  next
    case (any_step p n)
    have "cron_range item ''*'' True lo hi = Inr (lo, hi)" unfolding cron_range_iff by blast
    then have "cron_item item lo hi = Inr (cron_steps lo hi n)"
      using any_step sl [of "''*''" p] by (intro cron_itemI [where f = True and p = p]) (simp_all add: cron_step_iff)
    then show ?thesis using any_step by (simp add: cron_steps_set)
  next
    case (one a)
    then have "cron_range item item False lo hi = Inr (a, a)" unfolding cron_range_iff by blast
    then have "cron_item item lo hi = Inr (cron_steps a a 1)"
      using one numeral_chars [OF one(2)] by (intro cron_itemI [where f = False and step = 1]) (simp_all add: ns cron_step_iff)
    then show ?thesis using one by (simp add: cron_steps_one)
  next
    case (range s a t b)
    have "cron_range item (s @ CHR ''-'' # t) False lo hi = Inr (a, b)" unfolding cron_range_iff using range by blast
    then have "cron_item item lo hi = Inr (cron_steps a b 1)"
      using range numeral_chars [OF range(3)] numeral_chars [OF range(4)]
      by (intro cron_itemI [where f = False and step = 1]) (simp_all add: ns cron_step_iff)
    then show ?thesis using range by (simp add: cron_steps_one)
  next
    case (range_step s a t b p n)
    have "cron_range item (s @ CHR ''-'' # t) True lo hi = Inr (a, b)" unfolding cron_range_iff using range_step by blast
    then have "cron_item item lo hi = Inr (cron_steps a b n)"
      using range_step numeral_chars [OF range_step(3)] numeral_chars [OF range_step(4)] sl [of "s @ CHR ''-'' # t" p]
      by (intro cron_itemI [where f = True and p = p]) (simp_all add: cron_step_iff)
    then show ?thesis using range_step by (simp add: cron_steps_set)
  qed
qed

lemma cron_items_text:
  "(\<exists>vs. cron_items items lo hi = Inr vs \<and> set vs = S) \<longleftrightarrow> (\<exists>Ss. list_all2 (cron_text lo hi) items Ss \<and> S = \<Union> (set Ss))"
proof (induction items arbitrary: S)
  case (Cons item rest)
  have "(\<exists>vs. cron_items (item # rest) lo hi = Inr vs \<and> set vs = S) \<longleftrightarrow>
      (\<exists>us vs. cron_item item lo hi = Inr us \<and> cron_items rest lo hi = Inr vs \<and> S = set us \<union> set vs)"
    by (auto split: sum.splits)
  also have "\<dots> \<longleftrightarrow> (\<exists>A B. cron_text lo hi item A \<and> (\<exists>vs. cron_items rest lo hi = Inr vs \<and> set vs = B) \<and> S = A \<union> B)"
    unfolding cron_item_text [symmetric] by blast
  also have "\<dots> \<longleftrightarrow> (\<exists>Ss. list_all2 (cron_text lo hi) (item # rest) Ss \<and> S = \<Union> (set Ss))"
    (is "?l \<longleftrightarrow> ?r")
  proof
    assume ?l
    then obtain A Ss where "cron_text lo hi item A" "list_all2 (cron_text lo hi) rest Ss" "S = A \<union> \<Union> (set Ss)"
      unfolding Cons.IH by blast
    then show ?r by (intro exI [of _ "A # Ss"]) simp
  next
    assume ?r
    then obtain A Ss where "cron_text lo hi item A" "list_all2 (cron_text lo hi) rest Ss" "S = A \<union> \<Union> (set Ss)"
      by (auto simp: list_all2_Cons1)
    then show ?l unfolding Cons.IH by blast
  qed
  finally show ?case .
qed auto

lemma sort_remdups: "sort (remdups vs) = sorted_list_of_set (set vs)"
  by (simp add: sorted_list_of_set_sort_remdups)

lemma parseCronField_text:
  "parseCronField field lo hi = Inr vs \<longleftrightarrow> (\<exists>S. cron_field_text lo hi field S \<and> vs = sorted_list_of_set S)"
proof -
  have "parseCronField field lo hi = Inr vs \<longleftrightarrow>
      (\<exists>us. cron_items (Split (CHR '','') field) lo hi = Inr us \<and> vs = sorted_list_of_set (set us))"
    by (auto simp: parseCronField_def sort_remdups split: sum.splits)
  also have "\<dots> \<longleftrightarrow> (\<exists>S. (\<exists>us. cron_items (Split (CHR '','') field) lo hi = Inr us \<and> set us = S) \<and> vs = sorted_list_of_set S)" by blast
  finally show ?thesis unfolding cron_items_text cron_field_text_def .
qed

section \<open>The gap between two runs\<close>

text \<open>The minutes, counted from some midnight, at which an expression runs when every day is admitted; the
  last three fields can only remove days.\<close>

definition cron_fires :: "string \<Rightarrow> int \<Rightarrow> bool" where
  "cron_fires expr t \<longleftrightarrow>
     (\<exists>M H. cron_field_text 0 59 (strings_Fields expr ! 0) M \<and> cron_field_text 0 23 (strings_Fields expr ! 1) H
        \<and> t mod 60 \<in> M \<and> t div 60 mod 24 \<in> H)"

definition cron_expr :: "string \<Rightarrow> bool" where
  "cron_expr expr \<longleftrightarrow>
     length expr \<le> MaxTaskScheduleCronBytes
     \<and> (\<exists>Ss. list_all2 (\<lambda>(field, lo, hi) S. cron_field_text lo hi field S) (zip (strings_Fields expr) cron_bounds) Ss)
     \<and> length (strings_Fields expr) = 5"

lemma cron_text_bounds: "cron_text lo hi item S \<Longrightarrow> lo \<le> hi \<Longrightarrow> S \<noteq> {} \<and> S \<subseteq> {lo..hi}"
  by (cases rule: cron_text.cases, assumption) (auto intro: exI [of _ lo])

lemma cron_text_fun: "cron_text lo hi item S \<Longrightarrow> cron_text lo hi item T \<Longrightarrow> S = T"
  unfolding cron_item_text [symmetric] by auto

lemma cron_field_bounds:
  assumes "cron_field_text lo hi field S" and "lo \<le> hi"
  shows "S \<noteq> {} \<and> S \<subseteq> {lo..hi}"
proof -
  obtain Ss where s: "list_all2 (cron_text lo hi) (Split (CHR '','') field) Ss" "S = \<Union> (set Ss)"
    using assms(1) by (auto simp: cron_field_text_def)
  have "Ss \<noteq> []" using s(1) Split_nonempty [of "CHR '',''" field] by auto
  moreover have "\<forall>T \<in> set Ss. T \<noteq> {} \<and> T \<subseteq> {lo..hi}"
    using s(1) cron_text_bounds [OF _ assms(2)] by (induction rule: list_all2_induct) auto
  ultimately show ?thesis unfolding s(2) by (cases Ss) auto
qed

lemma cron_field_fun: "cron_field_text lo hi field S \<Longrightarrow> cron_field_text lo hi field T \<Longrightarrow> S = T"
proof -
  have "Ss = Ts" if "list_all2 (cron_text lo hi) items Ss" "list_all2 (cron_text lo hi) items Ts" for items Ss Ts
    using that
  proof (induction items arbitrary: Ss Ts)
    case (Cons i items)
    then show ?case unfolding list_all2_Cons1 using cron_text_fun by metis
  qed simp
  then show "cron_field_text lo hi field S \<Longrightarrow> cron_field_text lo hi field T \<Longrightarrow> S = T"
    unfolding cron_field_text_def by blast
qed

lemma min_adjacent_le: "min_adjacent g rs \<le> g"
  by (induction g rs rule: min_adjacent.induct) (auto intro: order_trans)

lemma min_adjacent_pair:
  "sorted_wrt (<) rs \<Longrightarrow> a \<in> set rs \<Longrightarrow> b \<in> set rs \<Longrightarrow> a < b \<Longrightarrow> min_adjacent g rs \<le> b - a"
proof (induction g rs rule: min_adjacent.induct)
  case (1 g x y rs)
  show ?case
  proof (cases "a = x")
    case True
    have "y \<le> b" using 1 True by auto
    moreover have "min_adjacent (min g (y - x)) (y # rs) \<le> y - x"
      using min_adjacent_le [of "min g (y - x)" "y # rs"] by linarith
    ultimately show ?thesis using True by simp
  next
    case False
    then have "b \<noteq> x" using 1 by auto
    with False 1 show ?thesis by simp
  qed
qed auto

lemma min_adjacent_attained:
  "min_adjacent g rs = g \<or> (\<exists>a \<in> set rs. \<exists>b \<in> set rs. min_adjacent g rs = b - a)"
proof (induction g rs rule: min_adjacent.induct)
  case (1 g x y rs)
  then show ?case by (auto simp: min_def split: if_splits)
qed auto

lemma sorted_last: "sorted xs \<Longrightarrow> x \<in> set xs \<Longrightarrow> x \<le> last (xs :: int list)"
proof (induction xs)
  case (Cons a xs)
  then show ?case using last_in_set [of xs] by (cases "xs = []") auto
qed simp

lemma min_adjacent_pos: "sorted_wrt (<) rs \<Longrightarrow> 0 < g \<Longrightarrow> 0 < min_adjacent g rs"
  by (induction g rs rule: min_adjacent.induct) simp_all

lemma shortest_gap_exact:
  assumes "sorted_wrt (<) rs" and "rs \<noteq> []" and "set rs \<subseteq> {0..<1440}" and "shortest_gap rs = Some g"
  shows "0 < g \<and> g \<le> 1440
    \<and> (\<forall>s t. s mod 1440 \<in> set rs \<and> t mod 1440 \<in> set rs \<and> s < t \<longrightarrow> g \<le> t - s)
    \<and> (\<exists>s t. s mod 1440 \<in> set rs \<and> t mod 1440 \<in> set rs \<and> t - s = g)"
proof -
  obtain r rs' where rs: "rs = r # rs'" using assms(2) by (cases rs) auto
  let ?l = "last rs" and ?w = "r + 1440 - last rs"
  have g: "g = min_adjacent ?w rs" using assms(4) by (simp add: shortest_gap_def rs)
  have srt: "sorted rs" using assms(1) strict_sorted_iff by blast
  have first: "r \<le> x" if "x \<in> set rs" for x using srt that by (auto simp: rs)
  have last_max: "x \<le> ?l" if "x \<in> set rs" for x
    by (rule sorted_last [OF srt that])
  have mem: "r \<in> set rs" "?l \<in> set rs" using assms(2) by (simp_all add: rs)
  then have ends: "0 \<le> r" "r \<le> ?l" "?l < 1440" using assms(3) first by auto
  note le = min_adjacent_le [of ?w rs, folded g] and pair = min_adjacent_pair [OF assms(1), of _ _ ?w, folded g]
  have low: "g \<le> t - s" if "s mod 1440 \<in> set rs" "t mod 1440 \<in> set rs" "s < t" for s t
  proof -
    have d: "t - s = 1440 * (t div 1440 - s div 1440) + (t mod 1440 - s mod 1440)" by (simp add: algebra_simps)
    have q: "s div 1440 \<le> t div 1440" using that(3) by (intro zdiv_mono1) simp_all
    show ?thesis
    proof (cases "s div 1440 = t div 1440")
      case True
      then have "s mod 1440 < t mod 1440" using d that(3) by simp
      then show ?thesis using pair [OF that(1,2)] d True by simp
    next
      case False
      with q have "1440 \<le> 1440 * (t div 1440 - s div 1440)" by simp
      moreover have "s mod 1440 \<le> ?l" "r \<le> t mod 1440" using that first last_max by auto
      ultimately show ?thesis using d le by linarith
    qed
  qed
  have "g = ?w \<or> (\<exists>a \<in> set rs. \<exists>b \<in> set rs. g = b - a)" using min_adjacent_attained [of ?w rs] g by simp
  moreover have "x mod 1440 = x" if "x \<in> set rs" for x using that assms(3) by auto
  ultimately have hit: "\<exists>s t. s mod 1440 \<in> set rs \<and> t mod 1440 \<in> set rs \<and> t - s = g"
  proof (elim disjE bexE)
    assume w: "g = ?w" and m: "\<And>x. x \<in> set rs \<Longrightarrow> x mod 1440 = x"
    have "(r + 1440) mod 1440 = r" using ends by simp
    then show ?thesis using mem m w by (intro exI [of _ ?l] exI [of _ "r + 1440"]) simp
  next
    fix a b assume m: "\<And>x. x \<in> set rs \<Longrightarrow> x mod 1440 = x" and "a \<in> set rs" "b \<in> set rs" "g = b - a"
    then show ?thesis by (intro exI [of _ a] exI [of _ b]) simp
  qed
  have "0 < g" using min_adjacent_pos [OF assms(1), of ?w] ends by (simp add: g)
  moreover have "g \<le> 1440" using le ends by linarith
  ultimately show ?thesis using low hit by blast
qed

abbreviation cron_denotes :: "string \<times> int \<times> int \<Rightarrow> int set \<Rightarrow> bool" where
  "cron_denotes \<equiv> \<lambda>(field, lo, hi) S. cron_field_text lo hi field S"

lemma cron_sets_text:
  "cron_sets fs bs = Inr ss \<longleftrightarrow> (\<exists>Ss. list_all2 cron_denotes (zip fs bs) Ss \<and> ss = map sorted_list_of_set Ss)"
proof (induction fs arbitrary: bs ss)
  case (Cons f fs)
  show ?case
  proof (cases bs)
    case (Cons b bs')
    obtain lo hi where b: "b = (lo, hi)" by (cases b)
    have "cron_sets (f # fs) bs = Inr ss \<longleftrightarrow>
        (\<exists>s us. parseCronField f lo hi = Inr s \<and> cron_sets fs bs' = Inr us \<and> ss = s # us)"
      by (auto simp: Cons b split: sum.splits)
    also have "\<dots> \<longleftrightarrow> (\<exists>S Us. cron_field_text lo hi f S \<and> list_all2 cron_denotes (zip fs bs') Us
        \<and> ss = sorted_list_of_set S # map sorted_list_of_set Us)"
      unfolding parseCronField_text Cons.IH by blast
    also have "\<dots> \<longleftrightarrow> (\<exists>Ss. list_all2 cron_denotes (zip (f # fs) bs) Ss \<and> ss = map sorted_list_of_set Ss)"
      (is "?l \<longleftrightarrow> ?r")
    proof
      assume ?l
      then obtain S Us where "cron_field_text lo hi f S" "list_all2 cron_denotes (zip fs bs') Us"
          "ss = sorted_list_of_set S # map sorted_list_of_set Us" by blast
      then show ?r by (intro exI [of _ "S # Us"]) (simp add: Cons b)
    next
      assume ?r
      then obtain S Us where "cron_field_text lo hi f S" "list_all2 cron_denotes (zip fs bs') Us"
          "ss = map sorted_list_of_set (S # Us)" by (auto simp: Cons b list_all2_Cons1)
      then show ?l by auto
    qed
    finally show ?thesis .
  qed auto
qed auto

lemma day_split: "h * 60 + m = (h' * 60 + m' :: int) \<Longrightarrow> m \<in> {0..59} \<Longrightarrow> m' \<in> {0..59} \<Longrightarrow> h = h' \<and> m = m'"
proof -
  assume a: "h * 60 + m = h' * 60 + m'" "m \<in> {0..59}" "m' \<in> {0..59}"
  have "m = (h * 60 + m) mod 60" "m' = (h' * 60 + m') mod 60" using a(2,3) by simp_all
  then have "m = m'" using a(1) by metis
  then show ?thesis using a(1) by simp
qed

lemma cron_runs_props:
  assumes "M \<noteq> {}" "M \<subseteq> {0..59}" "H \<noteq> {}" "H \<subseteq> {0..23}"
  defines "rs \<equiv> cron_runs (sorted_list_of_set H) (sorted_list_of_set M)"
  shows "rs \<noteq> [] \<and> sorted_wrt (<) rs \<and> set rs \<subseteq> {0..<1440} \<and> (\<forall>t. t mod 1440 \<in> set rs \<longleftrightarrow> t mod 60 \<in> M \<and> t div 60 mod 24 \<in> H)"
proof -
  have fin: "finite M" "finite H" using assms(2,4) finite_subset by blast+
  have set_rs: "set rs = {h * 60 + m | h m. h \<in> H \<and> m \<in> M}" using fin by (auto simp: rs_def cron_runs_def)
  have inj: "inj_on (\<lambda>m. h * 60 + m) A" for h :: int and A by (auto simp: inj_on_def)
  have dj: "distinct (concat (map (\<lambda>h. map (\<lambda>m. h * 60 + m) (sorted_list_of_set M)) hs))" if "distinct hs" for hs :: "int list"
    using that
  proof (induction hs)
    case (Cons h hs)
    have "h' = h" if "h' \<in> set hs" "m \<in> M" "m' \<in> M" "h * 60 + m = h' * 60 + m'" for h' m m'
      using day_split [OF that(4)] that(2,3) assms(2) by blast
    then have "set (map (\<lambda>m. h * 60 + m) (sorted_list_of_set M)) \<inter> set (concat (map (\<lambda>h. map (\<lambda>m. h * 60 + m) (sorted_list_of_set M)) hs)) = {}"
      using Cons.prems fin(1) by fastforce
    with Cons inj show ?case by (simp add: distinct_map)
  qed simp
  have "distinct rs" using dj [OF distinct_sorted_list_of_set, of H] by (simp add: rs_def cron_runs_def)
  then have "sorted_wrt (<) rs" by (simp add: strict_sorted_iff rs_def cron_runs_def)
  moreover have "set rs \<subseteq> {0..<1440}"
  proof
    fix x assume "x \<in> set rs"
    then obtain h m where "x = h * 60 + m" "h \<in> H" "m \<in> M" unfolding set_rs by blast
    moreover from this have "h \<in> {0..23}" "m \<in> {0..59}" using assms(2,4) by blast+
    ultimately show "x \<in> {0..<1440}" by simp
  qed
  moreover have "rs \<noteq> []"
  proof
    assume "rs = []"
    then have "set rs = {}" by simp
    then show False using assms(1,3) unfolding set_rs by blast
  qed
  moreover have "t mod 1440 \<in> set rs \<longleftrightarrow> t mod 60 \<in> M \<and> t div 60 mod 24 \<in> H" for t
  proof -
    have e: "t mod 1440 = (t div 60 mod 24) * 60 + t mod 60" using zmod_zmult2_eq [of 24 t 60] by simp
    have b: "t mod 60 \<in> {0..59}" using pos_mod_bound [of 60 t] pos_mod_sign [of 60 t] by simp
    show ?thesis
    proof
      assume "t mod 1440 \<in> set rs"
      then obtain h m where hm: "(t div 60 mod 24) * 60 + t mod 60 = h * 60 + m" "h \<in> H" "m \<in> M" unfolding set_rs e by blast
      then show "t mod 60 \<in> M \<and> t div 60 mod 24 \<in> H" using day_split [OF hm(1) b] assms(2) by blast
    next
      assume "t mod 60 \<in> M \<and> t div 60 mod 24 \<in> H"
      then show "t mod 1440 \<in> set rs" unfolding set_rs e by blast
    qed
  qed
  ultimately show ?thesis by blast
qed

lemma cron_five:
  assumes "length fs = 5"
  obtains a b c d e where "fs = [a, b, c, d, e]"
  using assms by (auto simp: length_Suc_conv numeral_eq_Suc)

text \<open>An expression of the dialect has an exact shortest gap, which is what the function answers; any other
  expression is an error, and never an index out of range.\<close>

lemma CronMinInterval_ok:
  assumes "cron_expr expr"
  obtains g where "CronMinInterval expr = Inr (g * Minute)" "0 < g" "g \<le> 1440"
    "\<forall>s t. cron_fires expr s \<and> cron_fires expr t \<and> s < t \<longrightarrow> g \<le> t - s"
    "\<exists>s t. cron_fires expr s \<and> cron_fires expr t \<and> t - s = g"
proof -
  obtain a b c d e where f: "strings_Fields expr = [a, b, c, d, e]" using assms cron_five unfolding cron_expr_def by metis
  obtain Ss where Ss: "list_all2 cron_denotes (zip (strings_Fields expr) cron_bounds) Ss" using assms by (auto simp: cron_expr_def)
  then obtain M H Rs where S: "Ss = M # H # Rs" "cron_field_text 0 59 a M" "cron_field_text 0 23 b H"
    by (auto simp: f cron_bounds_def list_all2_Cons1)
  let ?rs = "cron_runs (sorted_list_of_set H) (sorted_list_of_set M)"
  have ab: "strings_Fields expr ! 0 = a" "strings_Fields expr ! 1 = b" by (simp_all add: f)
  have fires: "cron_fires expr t \<longleftrightarrow> t mod 60 \<in> M \<and> t div 60 mod 24 \<in> H" for t
    using S(2,3) cron_field_fun [OF S(2)] cron_field_fun [OF S(3)] unfolding cron_fires_def ab by blast
  note M = cron_field_bounds [OF S(2)] and H = cron_field_bounds [OF S(3)]
  have p: "?rs \<noteq> []" "sorted_wrt (<) ?rs" "set ?rs \<subseteq> {0..<1440}" "\<And>t. t mod 1440 \<in> set ?rs \<longleftrightarrow> cron_fires expr t"
    using cron_runs_props [of M H] M H by (simp_all add: fires)
  obtain g where g: "shortest_gap ?rs = Some g" using p(1) by (auto simp: shortest_gap_def neq_Nil_conv)
  note e = shortest_gap_exact [OF p(2,1,3) g, unfolded p(4)]
  then have "in_i64 (g * Minute)" by (auto simp: in_i64_def Minute_def)
  moreover have "cron_sets (strings_Fields expr) cron_bounds = Inr (map sorted_list_of_set Ss)" using Ss cron_sets_text by blast
  ultimately have "CronMinInterval expr = Inr (g * Minute)"
    using assms by (simp add: CronMinInterval_def cron_expr_def S(1) g)
  then show thesis using that e by blast
qed

lemma CronMinInterval_refuses:
  assumes "\<not> cron_expr expr"
  obtains err where "CronMinInterval expr = Inl err" "err \<noteq> CronPanic"
proof -
  have item: "e \<noteq> CronPanic" if "cron_item i lo hi = Inl e" for e i lo hi
    using that by (auto simp: cron_item_def cron_step_def cron_range_def split: prod.splits sum.splits option.splits if_splits)
  have items: "e \<noteq> CronPanic" if "cron_items is lo hi = Inl e" for e "is" lo hi
    using that item by (induction "is") (auto split: sum.splits)
  have sets: "e \<noteq> CronPanic" if "cron_sets fs bs = Inl e" for e fs bs
    using that items by (induction fs bs rule: cron_sets.induct) (auto simp: parseCronField_def split: sum.splits)
  show thesis
  proof (cases "length expr \<le> MaxTaskScheduleCronBytes \<and> length (strings_Fields expr) = 5")
    case True
    then have "\<nexists>Ss. list_all2 cron_denotes (zip (strings_Fields expr) cron_bounds) Ss" using assms unfolding cron_expr_def by blast
    then have "cron_sets (strings_Fields expr) cron_bounds \<noteq> Inr ss" for ss using cron_sets_text by blast
    then obtain e where e: "cron_sets (strings_Fields expr) cron_bounds = Inl e" by (cases "cron_sets (strings_Fields expr) cron_bounds") auto
    then have "CronMinInterval expr = Inl e" using True by (simp add: CronMinInterval_def)
    then show thesis using that sets [OF e] by blast
  next
    case False
    then show thesis using that by (cases "length expr \<le> MaxTaskScheduleCronBytes") (simp_all add: CronMinInterval_def)
  qed
qed

section \<open>The properties\<close>

text \<open>
  C29. A cron field is accepted exactly when each of its comma-separated items is of the documented dialect
  (a star, a number, a range, a stepped star or range, numbers of one or two digits, inside the bounds), and
  the answer is the sorted list, without repetition, of the values the items select.
\<close>
theorem cron_field_dialect:
  "parseCronField field lo hi = Inr vs \<longleftrightarrow>
     (\<exists>Ss. list_all2 (cron_text lo hi) (Split (CHR '','') field) Ss \<and> vs = sorted_list_of_set (\<Union> (set Ss)))"
  unfolding parseCronField_text cron_field_text_def by blast

definition least_gap :: "string \<Rightarrow> int \<Rightarrow> bool" where
  "least_gap expr d \<longleftrightarrow>
     (\<exists>s t. cron_fires expr s \<and> cron_fires expr t \<and> s < t \<and> d = (t - s) * Minute)
     \<and> (\<forall>s t. cron_fires expr s \<and> cron_fires expr t \<and> s < t \<longrightarrow> d \<le> (t - s) * Minute)"

lemma CronMinInterval_least: "CronMinInterval expr = Inr d \<longleftrightarrow> cron_expr expr \<and> least_gap expr d"
proof (cases "cron_expr expr")
  case True
  then obtain g where g: "CronMinInterval expr = Inr (g * Minute)" "0 < g" "g \<le> 1440"
      "\<forall>s t. cron_fires expr s \<and> cron_fires expr t \<and> s < t \<longrightarrow> g \<le> t - s"
      "\<exists>s t. cron_fires expr s \<and> cron_fires expr t \<and> t - s = g" by (rule CronMinInterval_ok)
  have m: "a * Minute \<le> b * Minute \<longleftrightarrow> a \<le> b" for a b by (simp add: Minute_def)
  obtain s0 t0 where st: "cron_fires expr s0" "cron_fires expr t0" "t0 - s0 = g" using g(5) by blast
  have lg: "least_gap expr (g * Minute)"
    unfolding least_gap_def m using st g(2,4) by (intro conjI exI [of _ s0] exI [of _ t0]) simp_all
  have "d = g * Minute" if lg: "least_gap expr d"
  proof (rule antisym)
    show "d \<le> g * Minute" using lg st g(2) unfolding least_gap_def by force
    obtain s t where "cron_fires expr s" "cron_fires expr t" "s < t" "d = (t - s) * Minute" using lg unfolding least_gap_def by blast
    then show "g * Minute \<le> d" using g(4) by (simp add: m)
  qed
  then show ?thesis using True g(1) lg by auto
next
  case False
  then show ?thesis using CronMinInterval_refuses by (metis Inl_Inr_False)
qed

text \<open>
  C28. The interval answered for a cron expression is exact: it is answered for the expressions of the dialect
  and no others, it is the least distance between two distinct runs on the minutes of consecutive days, the
  step over midnight included, some two runs are exactly that far apart, and the search for it never indexes
  an empty list.
\<close>
theorem CronMinInterval_exact:
  "(CronMinInterval expr = Inr d \<longleftrightarrow> cron_expr expr \<and> least_gap expr d) \<and> CronMinInterval expr \<noteq> Inl CronPanic"
proof
  show "CronMinInterval expr = Inr d \<longleftrightarrow> cron_expr expr \<and> least_gap expr d" by (rule CronMinInterval_least)
  show "CronMinInterval expr \<noteq> Inl CronPanic"
  proof (cases "cron_expr expr")
    case True
    then obtain g where "CronMinInterval expr = Inr (g * Minute)" by (rule CronMinInterval_ok)
    then show ?thesis by simp
  next
    case False
    then obtain e where "CronMinInterval expr = Inl e" "e \<noteq> CronPanic" by (rule CronMinInterval_refuses)
    then show ?thesis by simp
  qed
qed

text \<open>What the checks on one schedule promise the server.\<close>

definition schedule_ok :: "TaskSchedule \<Rightarrow> bool" where
  "schedule_ok s \<longleftrightarrow>
     length (ts_ID s) \<le> 64 \<and> taskScheduleID (ts_ID s) \<and> \<not> schedule_name_bad (ts_Service s) \<and> \<not> schedule_name_bad (ts_Method s)
     \<and> length (ts_Payload s) \<le> 65536 \<and> (ts_Payload s = [] \<or> json_Valid (ts_Payload s)) \<and> cron_expr (ts_Cron s)
     \<and> (\<forall>t u. cron_fires (ts_Cron s) t \<and> cron_fires (ts_Cron s) u \<and> t < u \<longrightarrow> 5 \<le> u - t)"

lemma Validate_schedule: "TaskSchedule_Validate s = None \<longleftrightarrow> schedule_ok s"
proof -
  have m: "MinTaskScheduleInterval \<le> k * Minute \<longleftrightarrow> 5 \<le> k" for k by (simp add: MinTaskScheduleInterval_def Minute_def)
  have gap: "MinTaskScheduleInterval \<le> d \<longleftrightarrow> (\<forall>t u. cron_fires e t \<and> cron_fires e u \<and> t < u \<longrightarrow> 5 \<le> u - t)" if "least_gap e d" for e d
  proof
    assume "MinTaskScheduleInterval \<le> d"
    then show "\<forall>t u. cron_fires e t \<and> cron_fires e u \<and> t < u \<longrightarrow> 5 \<le> u - t"
      using that unfolding least_gap_def m [symmetric] by (meson order_trans)
  next
    assume "\<forall>t u. cron_fires e t \<and> cron_fires e u \<and> t < u \<longrightarrow> 5 \<le> u - t"
    then show "MinTaskScheduleInterval \<le> d" using that unfolding least_gap_def m [symmetric] by blast
  qed
  have c: "(case CronMinInterval e of Inl err \<Rightarrow> Some (ScheduleCron err) | Inr d \<Rightarrow> if d < MinTaskScheduleInterval then Some (ScheduleInterval d) else None) = None
      \<longleftrightarrow> cron_expr e \<and> (\<forall>t u. cron_fires e t \<and> cron_fires e u \<and> t < u \<longrightarrow> 5 \<le> u - t)" for e
  proof (cases "CronMinInterval e")
    case (Inl err)
    then have "\<not> cron_expr e" using CronMinInterval_ok by (metis Inl_Inr_False)
    then show ?thesis using Inl by simp
  next
    case (Inr d)
    then have "cron_expr e" "least_gap e d" using CronMinInterval_least by blast+
    then show ?thesis using Inr unfolding gap [OF \<open>least_gap e d\<close>, symmetric] by (cases "d < MinTaskScheduleInterval") simp_all
  qed
  have n: "MaxTaskScheduleIDBytes = 64" "MaxTaskSchedulePayloadBytes = 65536" by (simp_all add: MaxTaskScheduleIDBytes_def MaxTaskSchedulePayloadBytes_def)
  show ?thesis unfolding TaskSchedule_Validate_def schedule_ok_def n by (auto simp: c [of "ts_Cron s", symmetric] not_less)
qed

lemma validate_schedules_None:
  "validate_schedules seen ss = None \<longleftrightarrow>
     (\<forall>s \<in> set ss. schedule_ok s) \<and> distinct (map ts_ID ss) \<and> seen \<inter> ts_ID ` set ss = {}"
proof (induction ss arbitrary: seen)
  case (Cons s ss)
  then show ?case using Validate_schedule [of s] by (cases "TaskSchedule_Validate s") auto
qed simp

text \<open>
  C27. The set of schedules a plugin holds is accepted exactly when it has at most 64 members with distinct ids
  and each is well formed: a lowercase id of bounded length, printable service and method names, a payload
  that is empty or JSON of bounded size, and an expression of the cron dialect no two of whose runs are less
  than five minutes apart, on whatever days.
\<close>
theorem schedules_valid_iff:
  "ValidateTaskSchedules schedules = None \<longleftrightarrow>
     length schedules \<le> 64 \<and> distinct (map ts_ID schedules) \<and> (\<forall>s \<in> set schedules. schedule_ok s)"
  using validate_schedules_None [of "{}" schedules] by (auto simp: ValidateTaskSchedules_def MaxTaskSchedulesPerPlugin_def not_less)

definition sample_schedule :: TaskSchedule where
  "sample_schedule = \<lparr>ts_ID = ''sync-1'', ts_Cron = ''*/30 3,4 * * *'', ts_Service = ''subs'', ts_Method = ''refresh'', ts_Payload = ''{}''\<rparr>"


theorem schedules_valid_iff_witness:
  "ValidateTaskSchedules [sample_schedule] = None \<and> schedule_ok sample_schedule"
proof -
  have "CronMinInterval ''*/30 3,4 * * *'' = Inr (30 * Minute)" by code_simp
  moreover have "taskScheduleID ''sync-1''" "\<not> schedule_name_bad ''subs''" "\<not> schedule_name_bad ''refresh''" "json_Valid ''{}''" by code_simp+
  ultimately have "ValidateTaskSchedules [sample_schedule] = None"
    by (simp add: ValidateTaskSchedules_def TaskSchedule_Validate_def sample_schedule_def MaxTaskSchedulesPerPlugin_def MaxTaskScheduleIDBytes_def
        MaxTaskSchedulePayloadBytes_def MinTaskScheduleInterval_def Minute_def)
  then show ?thesis using schedules_valid_iff [of "[sample_schedule]"] by simp
qed

end
