(* ===== verification/Plugin_Runtime.thy ===== *)
theory Plugin_Runtime
  imports Plugin_Host_Ops Plugin_Result
begin

text \<open>
  The loops of a plugin process (\<^verbatim>\<open>src/plugin/runtime.go\<close>): \<^verbatim>\<open>V2Session\<close>, the invocation-scoped diagnostic
  stream, \<^verbatim>\<open>ServeV2\<close> and \<^verbatim>\<open>Serve\<close>.

  A handler is code of the plugin: for each request it is the list of what it does with the handles it has
  been given, and its response. A goroutine it leaves behind keeps its handles, so an action names the
  invocation whose handle it uses, and actions may also happen after the handler has returned. What the world
  does (a failing write, a cancelled context, the lines a host call reads) is a parameter. Actions are atomic:
  writes hold the runtime's write lock, calls the exchange token. An output is always present, as \<^verbatim>\<open>NewRuntime\<close>
  makes it.
\<close>

section \<open>Sessions\<close>

record V2Session =
  vs_Generation :: nat
  vs_state :: string
  vs_invocation :: string

definition NewV2Session :: "nat \<Rightarrow> V2Session" where
  "NewV2Session generation = \<lparr>vs_Generation = generation, vs_state = ''ready'', vs_invocation = []\<rparr>"

text \<open>\<open>None\<close> is \<^verbatim>\<open>ErrV2Protocol\<close>, which leaves the session as it was.\<close>

definition Accept :: "V2Session \<Rightarrow> string \<Rightarrow> nat \<Rightarrow> string \<Rightarrow> V2Session option" where
  "Accept s kind generation invocation =
     (if generation \<noteq> vs_Generation s \<or> \<not> validInvocationID invocation then None
      else if vs_state s = ''ready'' then
        (if kind \<noteq> ''invoke'' then None else Some (s\<lparr>vs_invocation := invocation, vs_state := ''invoked''\<rparr>))
      else if vs_state s = ''invoked'' then
        (if invocation \<noteq> vs_invocation s then None
         else if kind = ''stderr_chunk'' then Some s
         else if kind \<noteq> ''invoke_result'' then None
         else Some (s\<lparr>vs_state := ''result''\<rparr>))
      else if vs_state s = ''result'' then
        (if kind \<noteq> ''stderr_complete'' \<or> invocation \<noteq> vs_invocation s then None
         else Some (s\<lparr>vs_state := ''stderr_complete''\<rparr>))
      else if vs_state s = ''stderr_complete'' then
        (if kind \<noteq> ''invoke_ready'' \<or> invocation \<noteq> vs_invocation s then None
         else Some (s\<lparr>vs_state := ''ready'', vs_invocation := []\<rparr>))
      else None)"

section \<open>Reading lines\<close>

text \<open>
  \<^verbatim>\<open>bufio.Scanner\<close> with \<^verbatim>\<open>ScanLines\<close> over a buffer of \<open>cap\<close> bytes: lines without their line feed and one
  carriage return before it, the last one also when it ends without a line feed; a line that fills the
  buffer stops the scan. The flag says whether that happened.
\<close>

definition dropCR :: "string \<Rightarrow> string" where
  "dropCR line = (if line \<noteq> [] \<and> last line = CHR 0x0D then butlast line else line)"

function scan_lines :: "nat \<Rightarrow> string \<Rightarrow> string list \<times> bool" where
  "scan_lines cap s =
     (if s = [] then ([], False)
      else let line = takeWhile (\<lambda>c. c \<noteq> CHR 0x0A) s in
      if cap \<le> length line then ([], True)
      else case scan_lines cap (drop (length line + 1) s) of (ts, long) \<Rightarrow> (dropCR line # ts, long))"
  by pat_completeness auto
termination by (relation "measure (\<lambda>(cap, s). length s)") auto

declare scan_lines.simps [simp del]

text \<open>The buffer starts at 64 KiB and grows to the limit; the limit itself is computed in 64 bits.\<close>

definition request_limit :: "int \<Rightarrow> int" where
  "request_limit m = (if m \<le> 0 then DefaultMaxRequestBytes else m)"

definition scan_size :: "int \<Rightarrow> nat" where
  "scan_size limit = nat (max 65536 (wrap64 (limit + 1)))"

section \<open>The runtime\<close>

record Runtime =
  rt_In :: string
  rt_read_error :: bool
  rt_Host :: "HostClient option"
  rt_same_writer :: bool
  rt_closer :: bool
  rt_MaxRequestBytes :: int

text \<open>\<^verbatim>\<open>rt_closer\<close> says whether the host's response stream can be closed. The options carry the standard
  streams and the host client \<^verbatim>\<open>NewHostClientFromEnv\<close> would open.\<close>

record RuntimeOptions =
  ro_In :: "string option"
  ro_Host :: "HostClient option"
  ro_MaxRequestBytes :: int
  ro_OpenHostFromEnv :: bool

definition NewRuntime :: "RuntimeOptions \<Rightarrow> string \<Rightarrow> string \<Rightarrow> bool \<Rightarrow> Runtime" where
  "NewRuntime opts stdin fd same =
     (let input = (case ro_In opts of None \<Rightarrow> stdin | Some i \<Rightarrow> i);
          limit = (if ro_MaxRequestBytes opts \<le> 0 then DefaultMaxRequestBytes else ro_MaxRequestBytes opts);
          host = (if ro_Host opts = None \<and> ro_OpenHostFromEnv opts then Some (fst (NewHostClientFromEnv fd True)) else ro_Host opts)
      in \<lparr>rt_In = input, rt_read_error = False, rt_Host = host, rt_same_writer = same, rt_closer = (response_fd fd \<noteq> None),
          rt_MaxRequestBytes = limit\<rparr>)"

section \<open>Frames\<close>

definition FeatureStderrFramesV1 :: string where "FeatureStderrFramesV1 = ''stderr_frames_v1''"

text \<open>The frames a runtime writes itself. A lifecycle frame has a kind, a generation, an invocation and features.\<close>

datatype out_frame =
    Lifecycle string nat string "string list"
  | StderrChunk nat string string
  | InvokeResult nat string Response

text \<open>The line written for a frame, \<open>None\<close> when it cannot be encoded.\<close>

definition out_line :: "out_frame \<Rightarrow> string option" where
  "out_line f =
     (case f of
        Lifecycle kind generation invocation features \<Rightarrow>
          Some (encode_object
            [(''protocol'', Some ''2''), (''kind'', Some (json_quote kind)), (''generation'', Some (dec generation)),
             (''invocation_id'', Some (json_quote invocation)),
             (''features'', if features = [] then None else Some (encode_strings features))] @ [CHR 0x0A])
      | StderrChunk generation invocation data \<Rightarrow>
          Some (encode_object
            [(''protocol'', Some ''2''), (''kind'', Some (json_quote ''stderr_chunk'')), (''generation'', Some (dec generation)),
             (''invocation_id'', Some (json_quote invocation)), (''data'', Some (json_quote data))] @ [CHR 0x0A])
      | InvokeResult generation invocation resp \<Rightarrow>
          (case appendInvokeResultFrame [] generation invocation resp of
             Some encoded \<Rightarrow> Some encoded
           | None \<Rightarrow> invokeResultFrame generation invocation resp))"

text \<open>What happens on the two streams, in order: an invoke frame is accepted, a frame is written, a host call
  is written.\<close>

datatype event = Received string | Sent out_frame | Called host_frame

record invocationStderr =
  dg_generation :: nat
  dg_invocation :: string
  dg_expired :: bool

record lease =
  ls_host :: HostClient
  ls_stderr :: invocationStderr

record serve_state =
  sv_session :: V2Session
  sv_used :: "string list"
  sv_transport :: "hostTransport option"
  sv_leases :: "lease list"
  sv_log :: "event list"
  sv_writes :: nat

text \<open>The world: whether the n-th write fails, and whether the context is cancelled before the n-th frame.\<close>

record world =
  wd_write_fails :: "nat \<Rightarrow> bool"
  wd_cancelled :: "nat \<Rightarrow> bool"

definition emitV2 :: "world \<Rightarrow> out_frame \<Rightarrow> serve_state \<Rightarrow> bool \<times> serve_state" where
  "emitV2 w f s =
     (case out_line f of
        None \<Rightarrow> (False, s)
      | Some _ \<Rightarrow>
          if wd_write_fails w (sv_writes s) then (False, s\<lparr>sv_writes := sv_writes s + 1\<rparr>)
          else (True, s\<lparr>sv_writes := sv_writes s + 1, sv_log := sv_log s @ [Sent f]\<rparr>))"

section \<open>What a handler does\<close>

datatype action = StderrWrite nat string | HostCall nat call_env string "string option" | HostAbort nat

text \<open>While the handler runs, between the end of its host lease and the end of its diagnostics, and after both.\<close>

record handler_run =
  run_during :: "action list"
  run_between :: "action list"
  run_after :: "action list"
  run_response :: Response

type_synonym handler = "nat \<Rightarrow> Request_plugin \<Rightarrow> handler_run"

definition invocationStderr_Write :: "world \<Rightarrow> invocationStderr \<Rightarrow> string \<Rightarrow> serve_state \<Rightarrow> serve_state" where
  "invocationStderr_Write w d data s =
     (if data = [] then s
      else if dg_expired d then s
      else snd (emitV2 w (StderrChunk (dg_generation d) (dg_invocation d) (b64_EncodeToString data)) s))"

definition set_host :: "nat \<Rightarrow> HostClient \<Rightarrow> serve_state \<Rightarrow> serve_state" where
  "set_host k c s = s\<lparr>sv_leases := (sv_leases s)[k := (sv_leases s ! k)\<lparr>ls_host := c\<rparr>]\<rparr>"

definition expire_host :: "nat \<Rightarrow> serve_state \<Rightarrow> serve_state" where
  "expire_host k s = set_host k (Expire (ls_host (sv_leases s ! k))) s"

definition invocationStderr_Expire :: "nat \<Rightarrow> serve_state \<Rightarrow> serve_state" where
  "invocationStderr_Expire k s =
     s\<lparr>sv_leases := (sv_leases s)[k := (sv_leases s ! k)\<lparr>ls_stderr := (ls_stderr (sv_leases s ! k))\<lparr>dg_expired := True\<rparr>\<rparr>]\<rparr>"

text \<open>A client without the shared transport has one of its own, without a response stream. An action on a
  handle that does not exist yet is none. \<open>None\<close>: the action blocks for ever.\<close>

definition do_action :: "world \<Rightarrow> action \<Rightarrow> serve_state \<Rightarrow> serve_state option" where
  "do_action w a s =
     (case a of
        StderrWrite k data \<Rightarrow>
          Some (if k < length (sv_leases s) then invocationStderr_Write w (ls_stderr (sv_leases s ! k)) data s else s)
      | HostCall k env meth prms \<Rightarrow>
          if length (sv_leases s) \<le> k then Some s
          else let c = ls_host (sv_leases s ! k); t = (case sv_transport s of None \<Rightarrow> new_transport False | Some t \<Rightarrow> t) in
            map_option (\<lambda>(r, c', t').
                (set_host k c' s)\<lparr>sv_transport := map_option (\<lambda>_. t') (sv_transport s),
                  sv_log := sv_log s @ map Called (drop (length (ht_written t)) (ht_written t'))\<rparr>)
              (Call env meth prms c t)
      | HostAbort k \<Rightarrow>
          if length (sv_leases s) \<le> k then Some s
          else let c = ls_host (sv_leases s ! k); t = (case sv_transport s of None \<Rightarrow> new_transport False | Some t \<Rightarrow> t) in
            case Abort c t of (c', t') \<Rightarrow>
              Some ((set_host k c' s)\<lparr>sv_transport := map_option (\<lambda>_. t') (sv_transport s)\<rparr>))"

fun do_actions :: "world \<Rightarrow> action list \<Rightarrow> serve_state \<Rightarrow> serve_state option" where
  "do_actions w [] s = Some s"
| "do_actions w (a # as) s = (case do_action w a s of None \<Rightarrow> None | Some s' \<Rightarrow> do_actions w as s')"

section \<open>ServeV2\<close>

datatype serve_error =
    SvNil | SvGeneration | SvOutputMismatch | SvWrite | SvContext | SvFrame | SvDuplicate | SvLimit | SvProtocol
  | SvAborted | SvTooLong | SvRead

definition open_lease :: "Runtime \<Rightarrow> nat \<Rightarrow> string \<Rightarrow> serve_state \<Rightarrow> serve_state" where
  "open_lease rt generation invocation s =
     (let unbound = fst (NewHostClient \<lparr>op_Output = True, op_Responses = False, op_closer = False, op_MaxResponseBytes = 0\<rparr>);
          host = (case (rt_Host rt, sv_transport s) of
                    (Some h, Some t) \<Rightarrow> scopedTransport h (Some t) True (hc_responses h) generation invocation
                  | _ \<Rightarrow> unbound);
          diagnostics = \<lparr>dg_generation = generation, dg_invocation = invocation, dg_expired = False\<rparr>
      in s\<lparr>sv_leases := sv_leases s @ [\<lparr>ls_host = host, ls_stderr = diagnostics\<rparr>]\<rparr>)"

text \<open>The handler's run with its handles: the k-th lease is its own.\<close>

definition run_handler :: "world \<Rightarrow> nat \<Rightarrow> handler_run \<Rightarrow> serve_state \<Rightarrow> serve_state option" where
  "run_handler w k h s =
     Option.bind (do_actions w (run_during h) s) (\<lambda>s1.
     Option.bind (do_actions w (run_between h) (expire_host k s1)) (\<lambda>s2.
     do_actions w (run_after h) (invocationStderr_Expire k s2)))"

definition accept_done :: "V2Session \<Rightarrow> nat \<Rightarrow> string \<Rightarrow> V2Session option" where
  "accept_done v generation invocation =
     (case Accept v ''invoke_result'' generation invocation of
        None \<Rightarrow> None
      | Some v1 \<Rightarrow>
          (case Accept v1 ''stderr_complete'' generation invocation of
             None \<Rightarrow> None
           | Some v2 \<Rightarrow> Accept v2 ''invoke_ready'' generation invocation))"

definition emit_result :: "world \<Rightarrow> nat \<Rightarrow> string \<Rightarrow> Response \<Rightarrow> serve_state \<Rightarrow> (serve_error option) \<times> serve_state" where
  "emit_result w generation invocation resp s =
     (case emitV2 w (InvokeResult generation invocation resp) s of
        (False, s1) \<Rightarrow> (Some SvWrite, s1)
      | (True, s1) \<Rightarrow>
          (case emitV2 w (Lifecycle ''stderr_complete'' generation invocation []) s1 of
             (False, s2) \<Rightarrow> (Some SvWrite, s2)
           | (True, s2) \<Rightarrow>
               (case emitV2 w (Lifecycle ''invoke_ready'' generation invocation []) s2 of
                  (False, s3) \<Rightarrow> (Some SvWrite, s3)
                | (True, s3) \<Rightarrow> (None, s3))))"

text \<open>One round of the loop; the outer \<open>None\<close> is a handler that never returns.\<close>

definition serve_frame ::
  "world \<Rightarrow> Runtime \<Rightarrow> handler \<Rightarrow> nat \<Rightarrow> nat \<Rightarrow> string \<Rightarrow> serve_state \<Rightarrow> ((serve_error option) \<times> serve_state) option" where
  "serve_frame w rt handler generation n raw s =
     (if wd_cancelled w n then Some (Some SvContext, s)
      else case decodeInvokeV2 raw generation (request_limit (rt_MaxRequestBytes rt)) of
        None \<Rightarrow> Some (Some SvFrame, s)
      | Some frame \<Rightarrow>
          let i = iv_InvocationID frame in
          if i \<in> set (sv_used s) then Some (Some SvDuplicate, s)
          else if length (sv_used s) \<ge> 256 then Some (Some SvLimit, s)
          else case Accept (sv_session s) ''invoke'' (iv_Generation frame) i of
            None \<Rightarrow> Some (Some SvProtocol, s\<lparr>sv_used := i # sv_used s\<rparr>)
          | Some v \<Rightarrow>
              let s1 = open_lease rt generation i
                         (s\<lparr>sv_used := i # sv_used s, sv_session := v, sv_log := sv_log s @ [Received i]\<rparr>);
                  h = handler n (the (iv_Request frame))
              in map_option (\<lambda>s2.
                   if (case sv_transport s2 of None \<Rightarrow> False | Some t \<Rightarrow> ht_poisoned t) then (Some SvAborted, s2)
                   else case accept_done (sv_session s2) (iv_Generation frame) i of
                     None \<Rightarrow> (Some SvProtocol, s2)
                   | Some v' \<Rightarrow> emit_result w generation i (run_response h) (s2\<lparr>sv_session := v'\<rparr>))
                 (run_handler w (length (sv_leases s)) h s1))"

fun serve_frames ::
  "world \<Rightarrow> Runtime \<Rightarrow> handler \<Rightarrow> nat \<Rightarrow> nat \<Rightarrow> string list \<Rightarrow> serve_state \<Rightarrow> ((serve_error option) \<times> serve_state) option" where
  "serve_frames w rt handler generation n [] s = Some (None, s)"
| "serve_frames w rt handler generation n (raw # rest) s =
     (case serve_frame w rt handler generation n raw s of
        None \<Rightarrow> None
      | Some (Some e, s') \<Rightarrow> Some (Some e, s')
      | Some (None, s') \<Rightarrow> serve_frames w rt handler generation (n + 1) rest s')"

definition serve_transport :: "Runtime \<Rightarrow> hostTransport option" where
  "serve_transport rt =
     (case rt_Host rt of
        None \<Rightarrow> None
      | Some h \<Rightarrow> if hc_transport h then Some (new_transport (rt_closer rt)) else None)"

definition serve_start :: "Runtime \<Rightarrow> nat \<Rightarrow> serve_state" where
  "serve_start rt generation =
     \<lparr>sv_session = NewV2Session generation, sv_used = [], sv_transport = serve_transport rt, sv_leases = [], sv_log = [], sv_writes = 0\<rparr>"

definition ServeV2 ::
  "world \<Rightarrow> Runtime option \<Rightarrow> handler option \<Rightarrow> nat \<Rightarrow> ((serve_error option) \<times> event list) option" where
  "ServeV2 w rt_opt handler_opt generation =
     (case (rt_opt, handler_opt) of
        (Some rt, Some handler) \<Rightarrow>
          if generation = 0 then Some (Some SvGeneration, [])
          else if (case rt_Host rt of None \<Rightarrow> False | Some h \<Rightarrow> hc_output h \<and> \<not> rt_same_writer rt) then Some (Some SvOutputMismatch, [])
          else
            (case emitV2 w (Lifecycle ''runtime_ready'' generation ''runtime'' [FeatureStderrFramesV1]) (serve_start rt generation) of
               (False, s) \<Rightarrow> Some (Some SvWrite, sv_log s)
             | (True, s) \<Rightarrow>
                 (case scan_lines (scan_size (request_limit (rt_MaxRequestBytes rt))) (rt_In rt) of
                    (frames, long) \<Rightarrow>
                      (case serve_frames w rt handler generation 0 frames s of
                         None \<Rightarrow> None
                       | Some (Some e, s') \<Rightarrow> Some (Some e, sv_log s')
                       | Some (None, s') \<Rightarrow>
                           Some (if long then Some SvTooLong else if rt_read_error rt then Some SvRead else None, sv_log s'))))
      | _ \<Rightarrow> Some (Some SvNil, []))"

section \<open>Serve\<close>

text \<open>The line of a response, and the loop of the first protocol. Why a request did not decode is the text
  \<open>decode_error\<close> makes of it.\<close>

definition WriteResponse :: "Response \<Rightarrow> string option" where
  "WriteResponse resp = map_option (\<lambda>r. r @ [CHR 0x0A]) (encode_response resp)"

definition write_response :: "world \<Rightarrow> Response \<Rightarrow> string list \<Rightarrow> (string list) option" where
  "write_response w resp out =
     (case WriteResponse resp of
        None \<Rightarrow> None
      | Some line \<Rightarrow> if wd_write_fails w (length out) then None else Some (out @ [line]))"

fun serve_requests ::
  "world \<Rightarrow> (nat \<Rightarrow> Request_plugin \<Rightarrow> Response) \<Rightarrow> (string \<Rightarrow> string) \<Rightarrow> nat \<Rightarrow> string list \<Rightarrow> string list \<Rightarrow> (serve_error option) \<times> string list" where
  "serve_requests w handler decode_error n [] out = (None, out)"
| "serve_requests w handler decode_error n (raw # rest) out =
     (if wd_cancelled w n then (Some SvContext, out)
      else case write_response w
          (case Unmarshal (store_struct request_fields False) zero_Request raw of
             None \<Rightarrow> ErrorResponse (Some (''invalid request: '' @ decode_error raw))
           | Some req \<Rightarrow> handler n req) out of
        None \<Rightarrow> (Some SvWrite, out)
      | Some out' \<Rightarrow> serve_requests w handler decode_error (n + 1) rest out')"

definition Runtime_Serve ::
  "world \<Rightarrow> Runtime option \<Rightarrow> (nat \<Rightarrow> Request_plugin \<Rightarrow> Response) option \<Rightarrow> (string \<Rightarrow> string) \<Rightarrow> (serve_error option) \<times> string list" where
  "Runtime_Serve w rt_opt handler_opt decode_error =
     (case (rt_opt, handler_opt) of
        (Some rt, Some handler) \<Rightarrow>
          (case scan_lines (scan_size (request_limit (rt_MaxRequestBytes rt))) (rt_In rt) of
             (requests, long) \<Rightarrow>
               (case serve_requests w handler decode_error 0 requests [] of
                  (Some e, out) \<Rightarrow> (Some e, out)
                | (None, out) \<Rightarrow>
                    (if long then Some SvTooLong else if rt_read_error rt then Some SvRead
                     else if wd_cancelled w (length requests) then Some SvContext else None, out)))
      | _ \<Rightarrow> (Some SvNil, []))"

section \<open>The host's view\<close>

text \<open>The session a host keeps, fed with everything on the two streams. A host call must come from the
  invocation that runs.\<close>

definition session_event :: "V2Session \<Rightarrow> event \<Rightarrow> V2Session option" where
  "session_event v e =
     (case e of
        Received i \<Rightarrow> Accept v ''invoke'' (vs_Generation v) i
      | Sent (Lifecycle kind g i features) \<Rightarrow>
          if kind = ''stderr_complete'' \<or> kind = ''invoke_ready'' then Accept v kind g i else None
      | Sent (StderrChunk g i data) \<Rightarrow> Accept v ''stderr_chunk'' g i
      | Sent (InvokeResult g i resp) \<Rightarrow> Accept v ''invoke_result'' g i
      | Called f \<Rightarrow>
          if vs_state v = ''invoked'' \<and> hf_strict f \<and> hf_generation f = vs_Generation v \<and> hf_invocationID f = vs_invocation v
          then Some v else None)"

fun session_log :: "V2Session \<Rightarrow> event list \<Rightarrow> V2Session option" where
  "session_log v [] = Some v"
| "session_log v (e # es) = (case session_event v e of None \<Rightarrow> None | Some v' \<Rightarrow> session_log v' es)"

lemma session_log_append: "session_log v (xs @ ys) = Option.bind (session_log v xs) (\<lambda>v'. session_log v' ys)"
  by (induction xs arbitrary: v) (auto split: option.splits)

definition ready_frame :: "nat \<Rightarrow> event" where
  "ready_frame g = Sent (Lifecycle ''runtime_ready'' g ''runtime'' [FeatureStderrFramesV1])"

definition invoked :: "nat \<Rightarrow> string \<Rightarrow> V2Session" where
  "invoked g i = \<lparr>vs_Generation = g, vs_state = ''invoked'', vs_invocation = i\<rparr>"

text \<open>The log so far is the ready frame and a run of the session from its start to \<open>v\<close>.\<close>

definition logged :: "nat \<Rightarrow> V2Session \<Rightarrow> event list \<Rightarrow> bool" where
  "logged g v es \<longleftrightarrow> (\<exists>rest. es = ready_frame g # rest \<and> session_log (NewV2Session g) rest = Some v)"

lemma logged_snoc: "logged g v es \<Longrightarrow> session_event v e = Some v' \<Longrightarrow> logged g v' (es @ [e])"
  by (auto simp: logged_def session_log_append)

lemma logged_calls:
  assumes "logged g v es" and "\<forall>f \<in> set fs. session_event v (Called f) = Some v"
  shows "logged g v (es @ map Called fs)"
  using assms(2) by (induction fs rule: rev_induct) (use assms(1) logged_snoc in \<open>auto simp flip: append_assoc\<close>)

lemma session_events:
  assumes "validInvocationID i"
  shows "session_event (NewV2Session g) (Received i) = Some (invoked g i)"
    "session_event (invoked g i) (Sent (StderrChunk g i d)) = Some (invoked g i)"
    "session_event (invoked g i) (Sent (InvokeResult g i r)) = Some ((invoked g i)\<lparr>vs_state := ''result''\<rparr>)"
    "session_event ((invoked g i)\<lparr>vs_state := ''result''\<rparr>) (Sent (Lifecycle ''stderr_complete'' g i fs)) = Some ((invoked g i)\<lparr>vs_state := ''stderr_complete''\<rparr>)"
    "session_event ((invoked g i)\<lparr>vs_state := ''stderr_complete''\<rparr>) (Sent (Lifecycle ''invoke_ready'' g i fs)) = Some (NewV2Session g)"
    "accept_done (invoked g i) g i = Some (NewV2Session g)"
    "Accept (NewV2Session g) ''invoke'' g i = Some (invoked g i)"
  using assms by (simp_all add: session_event_def Accept_def NewV2Session_def invoked_def accept_done_def)

section \<open>What a handler can do\<close>

text \<open>A lease that can act acts for its own invocation; an ended one cannot act.\<close>

definition host_of :: "nat \<Rightarrow> string \<Rightarrow> HostClient \<Rightarrow> bool" where
  "host_of g i c \<longleftrightarrow> \<not> Available c \<or> lease_ok c \<and> hc_generation c = g \<and> hc_invocationID c = i"

definition lease_dead :: "lease \<Rightarrow> bool" where
  "lease_dead l \<longleftrightarrow> hc_expired (ls_host l) \<and> dg_expired (ls_stderr l)"

definition lease_of :: "nat \<Rightarrow> string \<Rightarrow> lease \<Rightarrow> bool" where
  "lease_of g i l \<longleftrightarrow> (\<not> Available (ls_host l) \<or> lease_ok (ls_host l))
     \<and> (hc_expired (ls_host l) \<or> host_of g i (ls_host l))
     \<and> (dg_expired (ls_stderr l) \<or> dg_generation (ls_stderr l) = g \<and> dg_invocation (ls_stderr l) = i)"

definition transport_ok :: "serve_state \<Rightarrow> bool" where
  "transport_ok s \<longleftrightarrow> (case sv_transport s of None \<Rightarrow> True | Some t \<Rightarrow> ht_exchange t \<and> ht_nextID t \<le> maxUint64)"

text \<open>The state while the handler of invocation \<open>i\<close> runs.\<close>

definition running :: "nat \<Rightarrow> string \<Rightarrow> serve_state \<Rightarrow> bool" where
  "running g i s \<longleftrightarrow> validInvocationID i \<and> logged g (invoked g i) (sv_log s) \<and> sv_session s = invoked g i
     \<and> transport_ok s \<and> list_all (lease_of g i) (sv_leases s)"

text \<open>What no action changes, and that ended leases stay ended.\<close>

fun received :: "event list \<Rightarrow> string list" where
  "received [] = []"
| "received (Received i # es) = i # received es"
| "received (_ # es) = received es"

fun answered :: "event list \<Rightarrow> string list" where
  "answered [] = []"
| "answered (Sent (InvokeResult g i r) # es) = i # answered es"
| "answered (_ # es) = answered es"

lemma received_append [simp]: "received (xs @ ys) = received xs @ received ys"
  by (induction xs rule: received.induct) simp_all

lemma answered_append [simp]: "answered (xs @ ys) = answered xs @ answered ys"
  by (induction xs rule: answered.induct) simp_all

lemma received_calls [simp]: "received (map Called fs) = []"
  by (induction fs) simp_all

definition keeps_leases :: "serve_state \<Rightarrow> serve_state \<Rightarrow> bool" where
  "keeps_leases s s' \<longleftrightarrow> sv_session s' = sv_session s \<and> sv_used s' = sv_used s \<and> received (sv_log s') = received (sv_log s) \<and> length (sv_leases s') = length (sv_leases s)
     \<and> (\<forall>k < length (sv_leases s).
          (hc_expired (ls_host (sv_leases s ! k)) \<longrightarrow> hc_expired (ls_host (sv_leases s' ! k)))
          \<and> (dg_expired (ls_stderr (sv_leases s ! k)) \<longrightarrow> dg_expired (ls_stderr (sv_leases s' ! k))))"

lemma keeps_leases_refl [simp]: "keeps_leases s s"
  by (simp add: keeps_leases_def)

lemma keeps_leases_trans: "keeps_leases s t \<Longrightarrow> keeps_leases t u \<Longrightarrow> keeps_leases s u"
  by (auto simp: keeps_leases_def)

lemma Available_call:
  assumes "Call env meth prms c t = Some (r, c', t')" and "lease_ok c"
  shows "Available c' \<longleftrightarrow> Available c"
  using assms by (auto simp: Call_def Available_def exchange_step_def Let_def Abort_def Expire_def split: if_splits read_event.splits)

lemma running_leaseD:
  assumes "running g i s" and "k < length (sv_leases s)"
  shows "lease_of g i (sv_leases s ! k)"
  using assms by (auto simp: running_def list_all_length)

lemma emit_chunk:
  assumes "running g i s"
  shows "running g i (snd (emitV2 w (StderrChunk g i d) s)) \<and> keeps_leases s (snd (emitV2 w (StderrChunk g i d) s))"
  using assms logged_snoc [of g "invoked g i" "sv_log s" "Sent (StderrChunk g i d)"]
  by (auto simp: emitV2_def running_def keeps_leases_def transport_ok_def session_events split: option.split)

lemma action_stderr:
  assumes "running g i s" and "k < length (sv_leases s)"
  shows "running g i (invocationStderr_Write w (ls_stderr (sv_leases s ! k)) d s)
    \<and> keeps_leases s (invocationStderr_Write w (ls_stderr (sv_leases s ! k)) d s)"
  using running_leaseD [OF assms] assms(1) emit_chunk [OF assms(1)] by (auto simp: invocationStderr_Write_def lease_of_def)

lemma set_host_lease:
  assumes "running g i s" and "k < length (sv_leases s)" and "lease_of g i ((sv_leases s ! k)\<lparr>ls_host := c\<rparr>)"
  shows "list_all (lease_of g i) ((sv_leases s)[k := (sv_leases s ! k)\<lparr>ls_host := c\<rparr>])"
proof -
  have "lease_of g i l" if "l \<in> set ((sv_leases s)[k := (sv_leases s ! k)\<lparr>ls_host := c\<rparr>])" for l
    using that set_update_subset_insert [of "sv_leases s" k] assms by (fastforce simp: running_def list_all_iff)
  then show ?thesis by (simp add: list_all_iff)
qed

lemma action_host:
  assumes r: "running g i s" and k: "k < length (sv_leases s)"
    and c': "hc_expired (ls_host (sv_leases s ! k)) \<longrightarrow> hc_expired c'" "lease_of g i ((sv_leases s ! k)\<lparr>ls_host := c'\<rparr>)"
    and t': "case sv_transport s of None \<Rightarrow> True | Some t \<Rightarrow> ht_exchange t' \<and> ht_nextID t' \<le> maxUint64"
    and fs: "\<forall>f \<in> set fs. session_event (invoked g i) (Called f) = Some (invoked g i)"
  defines "s' \<equiv> (set_host k c' s)\<lparr>sv_transport := map_option (\<lambda>_. t') (sv_transport s), sv_log := sv_log s @ map Called fs\<rparr>"
  shows "running g i s' \<and> keeps_leases s s'"
proof
  have "logged g (invoked g i) (sv_log s @ map Called fs)" using r fs logged_calls unfolding running_def by blast
  then show "running g i s'" using r t' set_host_lease [OF r k c'(2)]
    by (auto simp: s'_def running_def transport_ok_def set_host_def split: option.splits)
  show "keeps_leases s s'" using c'(1) k by (auto simp: s'_def keeps_leases_def set_host_def nth_list_update)
qed

lemma written_by_lease:
  assumes "lease_ok c" and "host_of g i c" and "Available c"
  shows "session_event (invoked g i) (Called (call_frame c n meth prms)) = Some (invoked g i)"
  using assms by (simp add: session_event_def call_frame_def invoked_def host_of_def lease_ok_def)

lemma do_action_ok:
  assumes r: "running g i s"
  shows "\<exists>s'. do_action w a s = Some s' \<and> running g i s' \<and> keeps_leases s s'"
proof (cases a)
  case (StderrWrite k data)
  then show ?thesis using action_stderr [OF r] r by (auto simp: do_action_def)
next
  case (HostAbort k)
  show ?thesis
  proof (cases "k < length (sv_leases s)")
    case True
    let ?c = "ls_host (sv_leases s ! k)" and ?t = "case sv_transport s of None \<Rightarrow> new_transport False | Some t \<Rightarrow> t"
    obtain c' t' where a: "Abort ?c ?t = (c', t')" by (cases "Abort ?c ?t")
    note l = running_leaseD [OF r True]
    have "lease_of g i ((sv_leases s ! k)\<lparr>ls_host := c'\<rparr>)" "hc_expired c'"
      using l a by (auto simp: Abort_def lease_of_def host_of_def Available_def lease_ok_def)
    moreover have "case sv_transport s of None \<Rightarrow> True | Some t \<Rightarrow> ht_exchange t' \<and> ht_nextID t' \<le> maxUint64"
      using r a by (auto simp: running_def transport_ok_def Abort_def split: option.splits if_splits)
    ultimately show ?thesis using action_host [OF r True, of c' t' "[]"] True HostAbort
      by (simp add: do_action_def Let_def a) (simp add: set_host_def)
  qed (use HostAbort r in \<open>simp add: do_action_def\<close>)
next
  case (HostCall k env meth prms)
  show ?thesis
  proof (cases "k < length (sv_leases s)")
    case True
    let ?c = "ls_host (sv_leases s ! k)" and ?t = "case sv_transport s of None \<Rightarrow> new_transport False | Some t \<Rightarrow> t"
    note l = running_leaseD [OF r True]
    have tok: "ht_exchange ?t" "ht_nextID ?t \<le> maxUint64"
      using r by (auto simp: running_def transport_ok_def new_transport_def split: option.splits)
    have step: "\<exists>r' c' t'. Call env meth prms ?c ?t = Some (r', c', t') \<and> (hc_expired ?c \<longrightarrow> hc_expired c')
        \<and> lease_of g i ((sv_leases s ! k)\<lparr>ls_host := c'\<rparr>) \<and> ht_exchange t' \<and> ht_nextID t' \<le> maxUint64
        \<and> (\<forall>f \<in> set (drop (length (ht_written ?t)) (ht_written t')). session_event (invoked g i) (Called f) = Some (invoked g i))"
    proof (cases "Available ?c")
      case False
      then show ?thesis using call_unavailable [OF False] l tok by simp
    next
      case avail: True
      then have ok: "lease_ok ?c" using l by (auto simp: lease_of_def)
      obtain r' c' t' where call: "Call env meth prms ?c ?t = Some (r', c', t')" using Call_returns [OF ok tok(1)] by (metis prod_cases3)
      note e = call_effect [OF call ok tok(2)]
      have l': "lease_of g i ((sv_leases s ! k)\<lparr>ls_host := c'\<rparr>)"
        using l e Available_call [OF call ok] avail by (auto simp: lease_of_def host_of_def)
      have "session_event (invoked g i) (Called f) = Some (invoked g i)" if "f \<in> set (drop (length (ht_written ?t)) (ht_written t'))" for f
      proof -
        have "\<not> hc_expired ?c" "f = call_frame ?c (call_id (ht_nextID t')) meth prms" using e that by auto
        then show ?thesis using written_by_lease [OF ok _ avail] l by (simp add: lease_of_def)
      qed
      then show ?thesis using call e l' tok(1) by auto
    qed
    then obtain r' c' t' where call: "Call env meth prms ?c ?t = Some (r', c', t')" "hc_expired ?c \<longrightarrow> hc_expired c'"
        "lease_of g i ((sv_leases s ! k)\<lparr>ls_host := c'\<rparr>)" "ht_exchange t' \<and> ht_nextID t' \<le> maxUint64"
        "\<forall>f \<in> set (drop (length (ht_written ?t)) (ht_written t')). session_event (invoked g i) (Called f) = Some (invoked g i)" by blast
    have "case sv_transport s of None \<Rightarrow> True | Some t \<Rightarrow> ht_exchange t' \<and> ht_nextID t' \<le> maxUint64"
      using call(4) by (simp split: option.split)
    from action_host [OF r True call(2,3) this call(5)] show ?thesis
      using True HostCall by (simp add: do_action_def Let_def call(1))
  qed (use HostCall r in \<open>simp add: do_action_def\<close>)
qed

lemma do_actions_ok:
  "running g i s \<Longrightarrow> \<exists>s'. do_actions w as s = Some s' \<and> running g i s' \<and> keeps_leases s s'"
proof (induction "as" arbitrary: s)
  case (Cons a "as")
  obtain s1 where s1: "do_action w a s = Some s1" "running g i s1" "keeps_leases s s1" using do_action_ok [OF Cons.prems] by blast
  obtain s2 where "do_actions w as s1 = Some s2" "running g i s2" "keeps_leases s1 s2" using Cons.IH [OF s1(2)] by blast
  then show ?case using s1 keeps_leases_trans by (intro exI [of _ s2]) auto
qed simp

lemma expire_host_ok:
  assumes "running g i s" and "k < length (sv_leases s)"
  shows "running g i (expire_host k s)" and "keeps_leases s (expire_host k s)" and "hc_expired (ls_host (sv_leases (expire_host k s) ! k))"
proof -
  note l = running_leaseD [OF assms]
  have "lease_of g i ((sv_leases s ! k)\<lparr>ls_host := Expire (ls_host (sv_leases s ! k))\<rparr>)"
    using l by (auto simp: lease_of_def Expire_def Available_def lease_ok_def)
  from set_host_lease [OF assms this] show "running g i (expire_host k s)"
    using assms(1) by (simp add: running_def expire_host_def set_host_def transport_ok_def)
  show "keeps_leases s (expire_host k s)" "hc_expired (ls_host (sv_leases (expire_host k s) ! k))"
    using assms(2) by (auto simp: keeps_leases_def expire_host_def set_host_def Expire_def nth_list_update)
qed

lemma expire_stderr_ok:
  assumes "running g i s" and "k < length (sv_leases s)"
  shows "running g i (invocationStderr_Expire k s)" and "keeps_leases s (invocationStderr_Expire k s)"
    and "dg_expired (ls_stderr (sv_leases (invocationStderr_Expire k s) ! k))"
proof -
  note l = running_leaseD [OF assms]
  have "lease_of g i ((sv_leases s ! k)\<lparr>ls_stderr := (ls_stderr (sv_leases s ! k))\<lparr>dg_expired := True\<rparr>\<rparr>)"
    using l by (auto simp: lease_of_def)
  then have "lease_of g i x" if "x \<in> set (sv_leases (invocationStderr_Expire k s))" for x
    using that set_update_subset_insert [of "sv_leases s" k] assms(1) unfolding invocationStderr_Expire_def running_def list_all_iff by fastforce
  then show "running g i (invocationStderr_Expire k s)"
    using assms(1) by (simp add: running_def invocationStderr_Expire_def transport_ok_def list_all_iff)
  show "keeps_leases s (invocationStderr_Expire k s)" "dg_expired (ls_stderr (sv_leases (invocationStderr_Expire k s) ! k))"
    using assms(2) by (auto simp: keeps_leases_def invocationStderr_Expire_def nth_list_update)
qed

text \<open>The state between two frames: every lease has ended.\<close>

definition idle :: "nat \<Rightarrow> serve_state \<Rightarrow> bool" where
  "idle g s \<longleftrightarrow> logged g (NewV2Session g) (sv_log s) \<and> sv_session s = NewV2Session g \<and> transport_ok s
     \<and> list_all (\<lambda>l. lease_dead l \<and> (\<not> Available (ls_host l) \<or> lease_ok (ls_host l))) (sv_leases s)"

lemma run_handler_ok:
  assumes r: "running g i s" and k: "k + 1 = length (sv_leases s)" and dead: "\<forall>j < k. lease_dead (sv_leases s ! j)"
  shows "\<exists>s'. run_handler w k h s = Some s' \<and> running g i s' \<and> list_all lease_dead (sv_leases s') \<and> sv_used s' = sv_used s
     \<and> received (sv_log s') = received (sv_log s)"
proof -
  obtain s1 where s1: "do_actions w (run_during h) s = Some s1" "running g i s1" "keeps_leases s s1" using do_actions_ok [OF r] by blast
  have k1: "k < length (sv_leases s1)" using s1(3) k by (simp add: keeps_leases_def)
  note x = expire_host_ok [OF s1(2) k1]
  obtain s2 where s2: "do_actions w (run_between h) (expire_host k s1) = Some s2" "running g i s2" "keeps_leases (expire_host k s1) s2"
    using do_actions_ok [OF x(1)] by blast
  have k2: "k < length (sv_leases s2)" using s2(3) x(2) k1 by (simp add: keeps_leases_def)
  note y = expire_stderr_ok [OF s2(2) k2]
  obtain s3 where s3: "do_actions w (run_after h) (invocationStderr_Expire k s2) = Some s3" "running g i s3"
      "keeps_leases (invocationStderr_Expire k s2) s3" using do_actions_ok [OF y(1)] by blast
  have from1: "keeps_leases (expire_host k s1) s3" using s2(3) y(2) s3(3) keeps_leases_trans by blast
  have all: "keeps_leases s s3" using s1(3) x(2) from1 keeps_leases_trans by blast
  have "lease_dead (sv_leases s3 ! j)" if "j < length (sv_leases s3)" for j
  proof (cases "j = k")
    case True
    then show ?thesis using x(3) y(3) from1 s3(3) k1 k2 by (auto simp: lease_dead_def keeps_leases_def expire_host_def set_host_def invocationStderr_Expire_def)
  next
    case False
    then have "j < k" using that all k by (simp add: keeps_leases_def)
    then show ?thesis using dead all k by (auto simp: lease_dead_def keeps_leases_def)
  qed
  then have "list_all lease_dead (sv_leases s3)" by (simp add: list_all_length)
  moreover have "sv_used s3 = sv_used s \<and> received (sv_log s3) = received (sv_log s)" using all by (simp add: keeps_leases_def)
  ultimately show ?thesis using s1(1) s2(1) s3(1,2) by (intro exI [of _ s3]) (simp add: run_handler_def)
qed

section \<open>Frames and runs\<close>

lemma session_answers:
  assumes "session_log (NewV2Session g) es = Some v"
  shows "vs_Generation v = g \<and> received es = answered es @ (if vs_state v = ''invoked'' then [vs_invocation v] else [])"
  using assms
proof (induction es arbitrary: v rule: rev_induct)
  case (snoc e es)
  then obtain v0 where v0: "session_log (NewV2Session g) es = Some v0" "session_event v0 e = Some v"
    by (auto simp: session_log_append split: option.splits bind_splits)
  note ih = snoc.IH [OF v0(1)]
  show ?case
  proof (cases e)
    case (Received i)
    then show ?thesis using ih v0(2) by (auto simp: session_event_def Accept_def split: if_splits)
  next
    case (Called f)
    then show ?thesis using ih v0(2) by (auto simp: session_event_def split: if_splits)
  next
    case (Sent f)
    then show ?thesis using ih v0(2) by (cases f) (auto simp: session_event_def Accept_def split: if_splits)
  qed
qed (simp add: NewV2Session_def)

definition serve_inv :: "nat \<Rightarrow> serve_state \<Rightarrow> bool" where
  "serve_inv g s \<longleftrightarrow> idle g s \<and> received (sv_log s) = rev (sv_used s) \<and> distinct (sv_used s) \<and> length (sv_used s) \<le> 256"

text \<open>What holds of the log whenever the loop stops.\<close>

definition log_ok :: "nat \<Rightarrow> event list \<Rightarrow> bool" where
  "log_ok g es \<longleftrightarrow> (\<exists>v. logged g v es) \<and> distinct (received es) \<and> length (received es) \<le> 256"

lemma serve_inv_log: "serve_inv g s \<Longrightarrow> log_ok g (sv_log s)"
  by (auto simp: serve_inv_def idle_def log_ok_def)

lemma emit_sent:
  assumes "emitV2 w f s = (ok, s')" and "session_event v (Sent f) = Some v'" and "logged g v (sv_log s)"
    and "received [Sent f] = []"
  shows "sv_session s' = sv_session s \<and> sv_used s' = sv_used s \<and> sv_leases s' = sv_leases s \<and> sv_transport s' = sv_transport s
    \<and> received (sv_log s') = received (sv_log s) \<and> logged g (if ok then v' else v) (sv_log s')"
  using assms logged_snoc [OF assms(3,2)] by (auto simp: emitV2_def split: option.splits if_splits)

lemma emit_result_ok:
  assumes "emit_result w g i resp s = (e, s')" and "validInvocationID i" and "logged g (invoked g i) (sv_log s)"
  shows "sv_session s' = sv_session s \<and> sv_used s' = sv_used s \<and> sv_leases s' = sv_leases s \<and> sv_transport s' = sv_transport s
    \<and> received (sv_log s') = received (sv_log s) \<and> (\<exists>v. logged g v (sv_log s')) \<and> (e = None \<longrightarrow> logged g (NewV2Session g) (sv_log s'))"
proof -
  note ev = session_events [OF assms(2), of g]
  obtain ok1 s1 where 1: "emitV2 w (InvokeResult g i resp) s = (ok1, s1)" by (cases "emitV2 w (InvokeResult g i resp) s")
  note a = emit_sent [OF 1 ev(3) assms(3)]
  obtain ok2 s2 where 2: "emitV2 w (Lifecycle ''stderr_complete'' g i []) s1 = (ok2, s2)" by (cases "emitV2 w (Lifecycle ''stderr_complete'' g i []) s1")
  obtain ok3 s3 where 3: "emitV2 w (Lifecycle ''invoke_ready'' g i []) s2 = (ok3, s3)" by (cases "emitV2 w (Lifecycle ''invoke_ready'' g i []) s2")
  note d = emit_result_def
  show ?thesis
  proof (cases ok1)
    case False
    then have "s' = s1" "e = Some SvWrite" using assms(1) by (simp_all add: d 1)
    then show ?thesis using a False by auto
  next
    case ok: True
    have s1: "logged g ((invoked g i)\<lparr>vs_state := ''result''\<rparr>) (sv_log s1)" using a ok by simp
    note b = emit_sent [OF 2 ev(4) s1] a ok
    show ?thesis
    proof (cases ok2)
      case False
      then have "s' = s2" "e = Some SvWrite" using assms(1) ok by (simp_all add: d 1 2)
      then show ?thesis using b False by auto
    next
      case True
      have s2: "logged g ((invoked g i)\<lparr>vs_state := ''stderr_complete''\<rparr>) (sv_log s2)" "sv_session s2 = sv_session s" "sv_used s2 = sv_used s"
        "sv_leases s2 = sv_leases s" "sv_transport s2 = sv_transport s" "received (sv_log s2) = received (sv_log s)"
        using b True by simp_all
      have "emit_result w g i resp s = (if ok3 then None else Some SvWrite, s3)" using ok True by (simp add: d 1 2 3 split: bool.split)
      then have "s' = s3" "e = (if ok3 then None else Some SvWrite)" using assms(1) by simp_all
      moreover have f: "sv_session s3 = sv_session s2 \<and> sv_used s3 = sv_used s2 \<and> sv_leases s3 = sv_leases s2 \<and> sv_transport s3 = sv_transport s2
          \<and> received (sv_log s3) = received (sv_log s2)
          \<and> logged g (if ok3 then NewV2Session g else (invoked g i)\<lparr>vs_state := ''stderr_complete''\<rparr>) (sv_log s3)"
        by (rule emit_sent [OF 3 ev(5) s2(1)]) simp
      moreover have "\<exists>v. logged g v (sv_log s3)" using f by blast
      ultimately show ?thesis using s2(2-6) by (cases ok3) simp_all
    qed
  qed
qed

lemma scoped_Available: "Available (scopedTransport h t out resp g i) \<Longrightarrow> host_of g i (scopedTransport h t out resp g i)"
  using scoped_lease_ok [of h t out resp g i] by (auto simp: host_of_def scopedTransport_def split: if_splits)

lemma open_lease_ok:
  assumes "list_all (\<lambda>l. lease_dead l \<and> (\<not> Available (ls_host l) \<or> lease_ok (ls_host l))) (sv_leases s)"
  shows "list_all (lease_of g i) (sv_leases (open_lease rt g i s))"
    and "length (sv_leases (open_lease rt g i s)) = length (sv_leases s) + 1"
    and "\<forall>j < length (sv_leases s). lease_dead (sv_leases (open_lease rt g i s) ! j)"
    and "sv_log (open_lease rt g i s) = sv_log s" "sv_session (open_lease rt g i s) = sv_session s"
    and "sv_used (open_lease rt g i s) = sv_used s" "sv_transport (open_lease rt g i s) = sv_transport s"
proof -
  have dead: "lease_of g i l" if "l \<in> set (sv_leases s)" for l using assms that by (auto simp: list_all_iff lease_dead_def lease_of_def)
  let ?u = "fst (NewHostClient \<lparr>op_Output = True, op_Responses = False, op_closer = False, op_MaxResponseBytes = 0\<rparr>)"
  have u: "\<not> Available ?u" by (simp add: NewHostClient_def Let_def Available_def)
  have new: "lease_of g i \<lparr>ls_host = c, ls_stderr = \<lparr>dg_generation = g, dg_invocation = i, dg_expired = False\<rparr>\<rparr>"
    if "c = ?u \<or> (\<exists>h t out resp. c = scopedTransport h t out resp g i)" for c
    using that
  proof (elim disjE exE)
    assume "c = ?u"
    then show ?thesis using u by (simp add: lease_of_def host_of_def)
  next
    fix h t out resp assume "c = scopedTransport h t out resp g i"
    then show ?thesis using scoped_lease_ok [of h t out resp g i] scoped_Available [of h t out resp g i]
      by (cases "Available c") (auto simp: lease_of_def host_of_def)
  qed
  show "list_all (lease_of g i) (sv_leases (open_lease rt g i s))"
    using dead new by (cases "rt_Host rt"; cases "sv_transport s") (fastforce simp: open_lease_def Let_def list_all_iff)+
  show "length (sv_leases (open_lease rt g i s)) = length (sv_leases s) + 1"
    "\<forall>j < length (sv_leases s). lease_dead (sv_leases (open_lease rt g i s) ! j)"
    "sv_log (open_lease rt g i s) = sv_log s" "sv_session (open_lease rt g i s) = sv_session s"
    "sv_used (open_lease rt g i s) = sv_used s" "sv_transport (open_lease rt g i s) = sv_transport s"
    using assms by (simp_all add: open_lease_def Let_def nth_append list_all_length)
qed

lemma decoded_invoke:
  assumes "decodeInvokeV2 raw g m = Some f"
  shows "iv_Generation f = g" "validInvocationID (iv_InvocationID f)" "iv_Request f \<noteq> None"
  using assms by (auto simp: decodeInvokeV2_def Let_def invoke_frame_ok_def split: if_splits option.splits)

lemma running_list: "list_all lease_dead ls \<Longrightarrow> list_all (lease_of g i) ls \<Longrightarrow>
   list_all (\<lambda>l. lease_dead l \<and> (\<not> Available (ls_host l) \<or> lease_ok (ls_host l))) ls"
  by (auto simp: list_all_iff lease_of_def)

lemma result_ok:
  assumes e: "emit_result w g i resp (s2\<lparr>sv_session := NewV2Session g\<rparr>) = (e, s3)"
    and s2: "running g i s2" "list_all lease_dead (sv_leases s2)" "sv_used s2 = i # us"
      "received (sv_log s2) = rev (i # us)" "distinct (i # us)" "length (i # us) \<le> 256" "validInvocationID i"
  shows "log_ok g (sv_log s3) \<and> (e = None \<longrightarrow> serve_inv g s3) \<and> sv_transport s3 = sv_transport s2 \<and> sv_used s3 = i # us"
proof -
  have "logged g (invoked g i) (sv_log (s2\<lparr>sv_session := NewV2Session g\<rparr>))" using s2(1) by (simp add: running_def)
  note x = emit_result_ok [OF e s2(7) this]
  have "log_ok g (sv_log s3)" using x s2 by (simp add: log_ok_def)
  moreover have "serve_inv g s3" if "e = None"
    using x that s2 running_list by (auto simp: serve_inv_def idle_def running_def transport_ok_def)
  ultimately show ?thesis using x s2(3) by simp
qed

lemma emit_transport [simp]: "sv_transport (snd (emitV2 w f s)) = sv_transport s"
  by (auto simp: emitV2_def split: option.split)

lemma do_action_transport:
  assumes "do_action w a s = Some s'"
  shows "sv_transport s = None \<longleftrightarrow> sv_transport s' = None"
  using assms by (auto simp: do_action_def Let_def invocationStderr_Write_def set_host_def split: action.splits if_splits option.splits prod.splits)

lemma do_actions_transport: "do_actions w as s = Some s' \<Longrightarrow> sv_transport s = None \<longleftrightarrow> sv_transport s' = None"
proof (induction "as" arbitrary: s)
  case (Cons a "as")
  then show ?case using do_action_transport [of w a s] by (auto split: option.splits)
qed simp

lemma run_handler_transport: "run_handler w k h s = Some s' \<Longrightarrow> sv_transport s = None \<longleftrightarrow> sv_transport s' = None"
  unfolding run_handler_def by (auto simp: expire_host_def set_host_def invocationStderr_Expire_def dest!: do_actions_transport split: bind_splits)

text \<open>A round that gets past its checks: the handler's run, then the result.\<close>

lemma serve_frame_runs:
  fixes handler :: handler
  assumes inv: "serve_inv g s" and dec: "decodeInvokeV2 raw g (request_limit (rt_MaxRequestBytes rt)) = Some f"
    and new: "\<not> wd_cancelled w n" "iv_InvocationID f \<notin> set (sv_used s)" "length (sv_used s) < 256"
  defines "i \<equiv> iv_InvocationID f" and "h \<equiv> handler n (the (iv_Request f))"
  obtains s2 where "running g i s2" "list_all lease_dead (sv_leases s2)" "sv_used s2 = i # sv_used s"
    "received (sv_log s2) = rev (i # sv_used s)" "distinct (i # sv_used s)" "length (i # sv_used s) \<le> 256" "validInvocationID i"
    "sv_transport s = None \<Longrightarrow> sv_transport s2 = None"
    "serve_frame w rt handler g n raw s =
       Some (if (case sv_transport s2 of None \<Rightarrow> False | Some t \<Rightarrow> ht_poisoned t) then (Some SvAborted, s2)
             else emit_result w g i (run_response h) (s2\<lparr>sv_session := NewV2Session g\<rparr>))"
proof -
  note d = decoded_invoke [OF dec, folded i_def]
  note ev = session_events [OF d(2), of g]
  have idle: "sv_session s = NewV2Session g" "logged g (NewV2Session g) (sv_log s)" "transport_ok s"
    "list_all (\<lambda>l. lease_dead l \<and> (\<not> Available (ls_host l) \<or> lease_ok (ls_host l))) (sv_leases s)"
    using inv by (simp_all add: serve_inv_def idle_def)
  let ?s0 = "s\<lparr>sv_used := i # sv_used s, sv_session := invoked g i, sv_log := sv_log s @ [Received i]\<rparr>"
  let ?s1 = "open_lease rt g i ?s0"
  have "list_all (\<lambda>l. lease_dead l \<and> (\<not> Available (ls_host l) \<or> lease_ok (ls_host l))) (sv_leases ?s0)" using idle(4) by simp
  note o = open_lease_ok [OF this, where g = g and i = i and rt = rt]
  have r1: "running g i ?s1"
    using o(1) idle(3) d(2) logged_snoc [OF idle(2) ev(1)] by (simp add: running_def o(4,5) transport_ok_def o(7))
  have len: "length (sv_leases s) + 1 = length (sv_leases ?s1)" using o(2) by simp
  have dead: "\<forall>j < length (sv_leases s). lease_dead (sv_leases ?s1 ! j)" using o(3) by simp
  obtain s2 where s2: "run_handler w (length (sv_leases s)) h ?s1 = Some s2" "running g i s2" "list_all lease_dead (sv_leases s2)"
      "sv_used s2 = sv_used ?s1" "received (sv_log s2) = received (sv_log ?s1)" using run_handler_ok [OF r1 len dead] by blast
  have u: "sv_used s2 = i # sv_used s" "received (sv_log s2) = rev (i # sv_used s)"
    using s2(4,5) inv by (simp_all add: o(4,6) serve_inv_def)
  have ids: "distinct (i # sv_used s)" "length (i # sv_used s) \<le> 256" using inv new unfolding i_def by (simp_all add: serve_inv_def)
  have ses: "accept_done (sv_session s2) g i = Some (NewV2Session g)" using s2(2) ev(6) by (simp add: running_def)
  have eq: "serve_frame w rt handler g n raw s =
      Some (if (case sv_transport s2 of None \<Rightarrow> False | Some t \<Rightarrow> ht_poisoned t) then (Some SvAborted, s2)
            else emit_result w g i (run_response h) (s2\<lparr>sv_session := NewV2Session g\<rparr>))"
    unfolding serve_frame_def dec using new d(1) idle(1) ev(7) s2(1) ses by (simp add: Let_def i_def [symmetric] h_def [symmetric])
  show thesis by (rule that [OF s2(2,3) u ids d(2) _ eq]) (use run_handler_transport [OF s2(1)] o(7) in simp)
qed

lemma serve_frame_ok:
  assumes inv: "serve_inv g s"
  shows "\<exists>e s'. serve_frame w rt handler g n raw s = Some (e, s') \<and> log_ok g (sv_log s') \<and> (e = None \<longrightarrow> serve_inv g s')"
proof -
  have lg: "log_ok g (sv_log s)" by (rule serve_inv_log [OF inv])
  show ?thesis
  proof (cases "decodeInvokeV2 raw g (request_limit (rt_MaxRequestBytes rt))")
    case None
    then show ?thesis using lg by (simp add: serve_frame_def)
  next
    case (Some f)
    let ?i = "iv_InvocationID f" and ?h = "handler n (the (iv_Request f))"
    show ?thesis
    proof (cases "wd_cancelled w n \<or> ?i \<in> set (sv_used s) \<or> length (sv_used s) \<ge> 256")
      case True
      then show ?thesis using lg by (auto simp: serve_frame_def Some Let_def)
    next
      case False
      then have "\<not> wd_cancelled w n" "?i \<notin> set (sv_used s)" "length (sv_used s) < 256" by simp_all
      then obtain s2 where s2: "running g ?i s2" "list_all lease_dead (sv_leases s2)" "sv_used s2 = ?i # sv_used s"
          "received (sv_log s2) = rev (?i # sv_used s)" "distinct (?i # sv_used s)" "length (?i # sv_used s) \<le> 256" "validInvocationID ?i"
          and eq: "serve_frame w rt handler g n raw s =
            Some (if (case sv_transport s2 of None \<Rightarrow> False | Some t \<Rightarrow> ht_poisoned t) then (Some SvAborted, s2)
              else emit_result w g ?i (run_response ?h) (s2\<lparr>sv_session := NewV2Session g\<rparr>))"
        by (rule serve_frame_runs [OF inv Some])
      obtain e s3 where e: "emit_result w g ?i (run_response ?h) (s2\<lparr>sv_session := NewV2Session g\<rparr>) = (e, s3)" by (rule prod.exhaust)
      have l2: "log_ok g (sv_log s2)" using s2 by (auto simp: running_def log_ok_def)
      note x = result_ok [OF e s2]
      show ?thesis using eq l2 x e by (cases "case sv_transport s2 of None \<Rightarrow> False | Some t \<Rightarrow> ht_poisoned t") auto
    qed
  qed
qed

lemma serve_frames_ok:
  "serve_inv g s \<Longrightarrow> \<exists>e s'. serve_frames w rt handler g n raws s = Some (e, s') \<and> log_ok g (sv_log s')"
proof (induction raws arbitrary: n s)
  case Nil
  then show ?case using serve_inv_log by simp
next
  case (Cons raw raws)
  obtain e s' where f: "serve_frame w rt handler g n raw s = Some (e, s')" "log_ok g (sv_log s')" "e = None \<longrightarrow> serve_inv g s'"
    using serve_frame_ok [OF Cons.prems] by blast
  then show ?case using Cons.IH by (cases e) auto
qed

lemma serve_start_inv:
  assumes "emitV2 w (Lifecycle ''runtime_ready'' g ''runtime'' [FeatureStderrFramesV1]) (serve_start rt g) = (True, s)"
  shows "serve_inv g s"
  using assms by (auto simp: emitV2_def serve_start_def serve_transport_def out_line_def serve_inv_def idle_def logged_def ready_frame_def
      transport_ok_def new_transport_def split: if_splits option.splits)

lemma ServeV2_log:
  obtains e es where "ServeV2 w (Some rt) (Some handler) g = Some (e, es)" "es = [] \<or> log_ok g es"
proof -
  obtain ok s where s: "emitV2 w (Lifecycle ''runtime_ready'' g ''runtime'' [FeatureStderrFramesV1]) (serve_start rt g) = (ok, s)" by (rule prod.exhaust)
  let ?m = "case rt_Host rt of None \<Rightarrow> False | Some h \<Rightarrow> hc_output h \<and> \<not> rt_same_writer rt"
  obtain frames long where sl: "scan_lines (scan_size (request_limit (rt_MaxRequestBytes rt))) (rt_In rt) = (frames, long)" by (rule prod.exhaust)
  consider "g = 0" | "g \<noteq> 0" ?m | "g \<noteq> 0" "\<not> ?m" "\<not> ok" | "g \<noteq> 0" "\<not> ?m" "ok" by blast
  then show thesis
  proof cases
    case 3
    then have "sv_log s = []" using s by (auto simp: emitV2_def serve_start_def split: option.splits if_splits)
    then have "ServeV2 w (Some rt) (Some handler) g = Some (Some SvWrite, [])" using 3 s by (simp add: ServeV2_def)
    then show thesis by (rule that) simp
  next
    case 4
    then have "serve_inv g s" using serve_start_inv s by simp
    then obtain e s' where f: "serve_frames w rt handler g 0 frames s = Some (e, s')" "log_ok g (sv_log s')" using serve_frames_ok by blast
    have "ServeV2 w (Some rt) (Some handler) g =
        (case e of Some e \<Rightarrow> Some (Some e, sv_log s') | None \<Rightarrow> Some (if long then Some SvTooLong else if rt_read_error rt then Some SvRead else None, sv_log s'))"
      using 4 s sl f(1) by (simp add: ServeV2_def split: option.split)
    then show thesis using that f(2) by (cases e) auto
  qed (use that in \<open>simp_all add: ServeV2_def\<close>)
qed

text \<open>
  C32. The frames of a plugin process follow the protocol, whatever the handler does with its handles, during its
  invocation or from goroutines it leaves behind, whatever input arrives and whichever writes fail. \<^verbatim>\<open>ServeV2\<close>
  returns when its handlers do, and at every stop the session of a host fed with the two streams accepts
  everything after the ready frame: diagnostics and host calls appear only while their own invocation runs,
  and each result is followed by its completion and the next readiness. At most 256 invocations are accepted,
  with distinct ids, and they are answered at most once each, in the order received.
\<close>
theorem ServeV2_follows_protocol:
  "\<exists>e es. ServeV2 w (Some rt) (Some handler) g = Some (e, es) \<and>
     (es = [] \<or> (\<exists>rest v. es = ready_frame g # rest \<and> session_log (NewV2Session g) rest = Some v
        \<and> distinct (received es) \<and> length (received es) \<le> 256
        \<and> received es = answered es @ (if vs_state v = ''invoked'' then [vs_invocation v] else [])))"
proof -
  obtain e es where e: "ServeV2 w (Some rt) (Some handler) g = Some (e, es)" "es = [] \<or> log_ok g es" by (rule ServeV2_log)
  have "\<exists>rest v. es = ready_frame g # rest \<and> session_log (NewV2Session g) rest = Some v \<and> distinct (received es)
      \<and> length (received es) \<le> 256 \<and> received es = answered es @ (if vs_state v = ''invoked'' then [vs_invocation v] else [])" if ok: "log_ok g es"
  proof -
    obtain rest v where r: "es = ready_frame g # rest" "session_log (NewV2Session g) rest = Some v" using ok by (auto simp: log_ok_def logged_def)
    have "received es = received rest" "answered es = answered rest" by (simp_all add: r(1) ready_frame_def)
    then show ?thesis using r session_answers [OF r(2)] ok by (intro exI [of _ rest] exI [of _ v]) (simp add: log_ok_def)
  qed
  then show ?thesis using e by blast
qed

section \<open>Every good frame is answered\<close>

definition quiet :: "world \<Rightarrow> bool" where
  "quiet w \<longleftrightarrow> (\<forall>n. \<not> wd_write_fails w n \<and> \<not> wd_cancelled w n)"

lemma emit_quiet: "quiet w \<Longrightarrow> out_line f \<noteq> None \<Longrightarrow> fst (emitV2 w f s)"
  by (auto simp: emitV2_def quiet_def)

lemma emit_result_quiet:
  assumes "quiet w" and "out_line (InvokeResult g i resp) \<noteq> None"
  shows "fst (emit_result w g i resp s) = None"
proof -
  have l: "out_line (Lifecycle k g i fs) \<noteq> None" for k fs by (simp add: out_line_def)
  obtain s1 where "emitV2 w (InvokeResult g i resp) s = (True, s1)" using emit_quiet [OF assms] by (metis prod.collapse)
  moreover obtain s2 where "emitV2 w (Lifecycle ''stderr_complete'' g i []) s1 = (True, s2)" using emit_quiet [OF assms(1) l] by (metis prod.collapse)
  moreover obtain s3 where "emitV2 w (Lifecycle ''invoke_ready'' g i []) s2 = (True, s3)" using emit_quiet [OF assms(1) l] by (metis prod.collapse)
  ultimately show ?thesis by (simp add: emit_result_def)
qed

text \<open>The frames a host sends: each is an invoke frame with the given id.\<close>

definition invokes :: "Runtime \<Rightarrow> nat \<Rightarrow> string list \<Rightarrow> string list \<Rightarrow> bool" where
  "invokes rt g frames is \<longleftrightarrow>
     list_all2 (\<lambda>raw i. map_option iv_InvocationID (decodeInvokeV2 raw g (request_limit (rt_MaxRequestBytes rt))) = Some i) frames is"

lemma serve_frames_quiet:
  assumes "quiet w" and enc: "\<forall>n req i. out_line (InvokeResult g i (run_response (handler n req))) \<noteq> None"
  shows "serve_inv g s \<Longrightarrow> sv_transport s = None \<Longrightarrow> invokes rt g frames is \<Longrightarrow> distinct (is @ sv_used s) \<Longrightarrow> length (is @ sv_used s) \<le> 256 \<Longrightarrow>
    \<exists>s'. serve_frames w rt handler g n frames s = Some (None, s') \<and> serve_inv g s' \<and> sv_used s' = rev is @ sv_used s"
proof (induction frames arbitrary: "is" n s)
  case Nil
  then show ?case by (simp add: invokes_def)
next
  case (Cons raw frames)
  obtain i is' where i: "is = i # is'" using Cons.prems(3) by (auto simp: invokes_def list_all2_Cons1)
  obtain f where f: "decodeInvokeV2 raw g (request_limit (rt_MaxRequestBytes rt)) = Some f" "iv_InvocationID f = i" "invokes rt g frames is'"
    using Cons.prems(3) by (auto simp: invokes_def i)
  have new: "\<not> wd_cancelled w n" "iv_InvocationID f \<notin> set (sv_used s)" "length (sv_used s) < 256"
    using assms(1) Cons.prems(4,5) by (simp_all add: quiet_def f(2) i)
  let ?h = "handler n (the (iv_Request f))"
  obtain s2 where s2: "running g i s2" "list_all lease_dead (sv_leases s2)" "sv_used s2 = i # sv_used s"
      "received (sv_log s2) = rev (i # sv_used s)" "distinct (i # sv_used s)" "length (i # sv_used s) \<le> 256" "validInvocationID i"
    and tr: "sv_transport s = None \<Longrightarrow> sv_transport s2 = None"
    and eq: "serve_frame w rt handler g n raw s =
      Some (if (case sv_transport s2 of None \<Rightarrow> False | Some t \<Rightarrow> ht_poisoned t) then (Some SvAborted, s2)
        else emit_result w g i (run_response ?h) (s2\<lparr>sv_session := NewV2Session g\<rparr>))"
    using serve_frame_runs [OF Cons.prems(1) f(1) new, where handler = handler] unfolding f(2) by metis
  obtain e s3 where e: "emit_result w g i (run_response ?h) (s2\<lparr>sv_session := NewV2Session g\<rparr>) = (e, s3)" by (rule prod.exhaust)
  then have en: "e = None" using emit_result_quiet [OF assms(1)] enc by (metis fst_conv)
  note x = result_ok [OF e s2]
  have s3: "serve_inv g s3" "sv_transport s3 = None" "sv_used s3 = i # sv_used s" using x en tr [OF Cons.prems(2)] by simp_all
  have "distinct (is' @ sv_used s3)" "length (is' @ sv_used s3) \<le> 256" using Cons.prems(4,5) by (auto simp: i s3(3))
  from Cons.IH [OF s3(1,2) f(3) this] obtain s' where "serve_frames w rt handler g (n + 1) frames s3 = Some (None, s')" "serve_inv g s'"
      "sv_used s' = rev is' @ sv_used s3" by blast
  moreover have "serve_frame w rt handler g n raw s = Some (None, s3)" using eq e en tr [OF Cons.prems(2)] by simp
  ultimately show ?case by (simp add: i s3(3))
qed

lemma serve_inv_answered:
  assumes "serve_inv g s"
  shows "answered (sv_log s) = rev (sv_used s)"
proof -
  obtain rest where "sv_log s = ready_frame g # rest" "session_log (NewV2Session g) rest = Some (NewV2Session g)"
    using assms by (auto simp: serve_inv_def idle_def logged_def)
  then show ?thesis using session_answers [of g rest "NewV2Session g"] assms by (simp add: serve_inv_def ready_frame_def NewV2Session_def)
qed


definition sample_invoke :: string where
  "sample_invoke = tilde_json ''{~protocol~:2,~kind~:~invoke~,~generation~:1,~invocation_id~:~7~,~request~:{~action~:~health~}}''"

definition sample_runtime :: Runtime where
  "sample_runtime = \<lparr>rt_In = sample_invoke @ [CHR 0x0D, CHR 0x0A], rt_read_error = False, rt_Host = None, rt_same_writer = True, rt_closer = False, rt_MaxRequestBytes = 0\<rparr>"

definition sample_handler :: handler where
  "sample_handler n req = \<lparr>run_during = [StderrWrite 0 ''note''], run_between = [], run_after = [StderrWrite 0 ''late''], run_response = MessageResponse ''ok''\<rparr>"

definition sample_world :: world where
  "sample_world = \<lparr>wd_write_fails = (\<lambda>n. False), wd_cancelled = (\<lambda>n. False)\<rparr>"


end
