(* ===== verification/Monitor_Destination.thy ===== *)
theory Monitor_Destination
  imports Netip
begin

unbundle bit_operations_syntax

text \<open>
  Which addresses an agent refuses to dial (\<^verbatim>\<open>MonitorDestinationRefused\<close> of \<^verbatim>\<open>src/model/monitor_checks.go\<close>),
  over the predicates and prefixes of \<^verbatim>\<open>net/netip\<close>. A 16-byte address is its list of bytes; every
  \<^verbatim>\<open>netip.Addr\<close> of that kind has exactly sixteen.
\<close>

section \<open>Addresses and prefixes\<close>

fun netip_bytes :: "netip_addr \<Rightarrow> bytes" where
  "netip_bytes AddrInvalid = []"
| "netip_bytes (Addr4 a b c d) = [a, b, c, d]"
| "netip_bytes (Addr6 bs z) = bs"

fun addr_zone :: "netip_addr \<Rightarrow> string" where
  "addr_zone (Addr6 bs z) = z"
| "addr_zone _ = []"

definition v4_mapped :: bytes where "v4_mapped = [0, 0, 0, 0, 0, 0, 0, 0, 0, 0, 0xFF, 0xFF]"

fun Unmap :: "netip_addr \<Rightarrow> netip_addr" where
  "Unmap (Addr6 bs z) =
     (if take 12 bs = v4_mapped then Addr4 (bs ! 12) (bs ! 13) (bs ! 14) (bs ! 15) else Addr6 bs z)"
| "Unmap a = a"

fun WithoutZone :: "netip_addr \<Rightarrow> netip_addr" where
  "WithoutZone (Addr6 bs z) = Addr6 bs []"
| "WithoutZone a = a"

definition byte_bits :: "byte \<Rightarrow> bool list" where
  "byte_bits b = map (bit b) [7, 6, 5, 4, 3, 2, 1, 0]"

definition addr_bits :: "bytes \<Rightarrow> bool list" where
  "addr_bits bs = concat (map byte_bits bs)"

text \<open>\<^verbatim>\<open>Prefix.Contains\<close>: an address of the prefix's kind, without a zone, that agrees in its leading bits.\<close>

datatype prefix = Prefix netip_addr nat

fun prefix_Contains :: "prefix \<Rightarrow> netip_addr \<Rightarrow> bool" where
  "prefix_Contains (Prefix p n) a \<longleftrightarrow>
     addr_zone a = [] \<and> netip_bytes a \<noteq> [] \<and> length (netip_bytes a) = length (netip_bytes p)
     \<and> take n (addr_bits (netip_bytes a)) = take n (addr_bits (netip_bytes p))"

section \<open>The predicates of netip\<close>

definition IsUnspecified :: "netip_addr \<Rightarrow> bool" where
  "IsUnspecified a \<longleftrightarrow> a = Addr4 0 0 0 0 \<or> a = Addr6 (replicate 16 0) []"

fun IsLoopback :: "netip_addr \<Rightarrow> bool" where
  "IsLoopback (Addr4 a b c d) = (a = 127)"
| "IsLoopback (Addr6 bs z) = (bs = replicate 15 0 @ [1])"
| "IsLoopback AddrInvalid = False"

fun IsMulticast :: "netip_addr \<Rightarrow> bool" where
  "IsMulticast (Addr4 a b c d) = (a AND 0xF0 = 0xE0)"
| "IsMulticast (Addr6 bs z) = (bs ! 0 = 0xFF)"
| "IsMulticast AddrInvalid = False"

fun IsLinkLocalUnicast :: "netip_addr \<Rightarrow> bool" where
  "IsLinkLocalUnicast (Addr4 a b c d) = (a = 169 \<and> b = 254)"
| "IsLinkLocalUnicast (Addr6 bs z) = (bs ! 0 = 0xFE \<and> bs ! 1 AND 0xC0 = 0x80)"
| "IsLinkLocalUnicast AddrInvalid = False"

fun IsLinkLocalMulticast :: "netip_addr \<Rightarrow> bool" where
  "IsLinkLocalMulticast (Addr4 a b c d) = (a = 224 \<and> b = 0 \<and> c = 0)"
| "IsLinkLocalMulticast (Addr6 bs z) = (bs ! 0 = 0xFF \<and> bs ! 1 AND 0x0F = 2)"
| "IsLinkLocalMulticast AddrInvalid = False"

fun IsInterfaceLocalMulticast :: "netip_addr \<Rightarrow> bool" where
  "IsInterfaceLocalMulticast (Addr6 bs z) = (bs ! 0 = 0xFF \<and> bs ! 1 AND 0x0F = 1)"
| "IsInterfaceLocalMulticast _ = False"

fun IsPrivate :: "netip_addr \<Rightarrow> bool" where
  "IsPrivate (Addr4 a b c d) = (a = 10 \<or> (a = 172 \<and> b AND 0xF0 = 16) \<or> (a = 192 \<and> b = 168))"
| "IsPrivate (Addr6 bs z) = (bs ! 0 AND 0xFE = 0xFC)"
| "IsPrivate AddrInvalid = False"

section \<open>The tables\<close>

definition v4_prefix :: "byte \<Rightarrow> byte \<Rightarrow> byte \<Rightarrow> byte \<Rightarrow> nat \<Rightarrow> prefix" where
  "v4_prefix a b c d n = Prefix (Addr4 a b c d) n"

text \<open>A 16-byte prefix, given by its first bytes; the others are zero.\<close>

definition v6_prefix :: "bytes \<Rightarrow> nat \<Rightarrow> prefix" where
  "v6_prefix bs n = Prefix (Addr6 (bs @ replicate (16 - length bs) 0) []) n"

definition monitorMetadataPrefixes :: "prefix list" where
  "monitorMetadataPrefixes =
     [v4_prefix 169 254 0 0 16,
      v6_prefix [0xFD, 0x00, 0x0E, 0xC2, 0, 0, 0, 0, 0, 0, 0, 0, 0, 0, 0x02, 0x54] 128]"

definition monitorRefusedPrefixes :: "prefix list" where
  "monitorRefusedPrefixes =
     [v4_prefix 0 0 0 0 8, v4_prefix 100 64 0 0 10, v4_prefix 192 0 0 0 24, v4_prefix 192 88 99 0 24,
      v4_prefix 198 18 0 0 15, v4_prefix 240 0 0 0 4]"

definition monitorNAT64WellKnown :: prefix where
  "monitorNAT64WellKnown = v6_prefix [0x00, 0x64, 0xFF, 0x9B] 96"

definition monitorIPv4Translated :: prefix where
  "monitorIPv4Translated = v6_prefix [0, 0, 0, 0, 0, 0, 0, 0, 0xFF, 0xFF, 0, 0] 96"

definition monitorSixToFour :: prefix where
  "monitorSixToFour = v6_prefix [0x20, 0x02] 16"

definition monitorTransitionDeny :: "prefix list" where
  "monitorTransitionDeny =
     [v6_prefix [0x00, 0x64, 0xFF, 0x9B, 0, 1] 48, v6_prefix [] 96, v6_prefix [0xFE, 0xC0] 10,
      v6_prefix [0x20, 0x01, 0, 0] 32, v6_prefix [0x01, 0] 64]"

section \<open>The verdict\<close>

text \<open>The IPv4 address an IPv6 address carries.\<close>

definition embedded :: "netip_addr \<Rightarrow> netip_addr option" where
  "embedded addr =
     (let b = netip_bytes addr in
      if prefix_Contains monitorNAT64WellKnown addr \<or> prefix_Contains monitorIPv4Translated addr
      then Some (Addr4 (b ! 12) (b ! 13) (b ! 14) (b ! 15))
      else if prefix_Contains monitorSixToFour addr then Some (Addr4 (b ! 2) (b ! 3) (b ! 4) (b ! 5))
      else None)"

lemma embedded_Is4: "embedded a = Some e \<Longrightarrow> Is4 e"
  by (auto simp: embedded_def Let_def split: if_splits)

lemma plain_Is4: "Is4 a \<Longrightarrow> WithoutZone (Unmap a) = a"
  by (cases a) simp_all

function MonitorDestinationRefused :: "netip_addr \<Rightarrow> bool" where
  "MonitorDestinationRefused addr0 =
     (let addr = WithoutZone (Unmap addr0) in
      if addr = AddrInvalid \<or> IsUnspecified addr \<or> IsLoopback addr \<or> IsMulticast addr \<or> IsLinkLocalUnicast addr
        \<or> IsLinkLocalMulticast addr \<or> IsInterfaceLocalMulticast addr \<or> IsPrivate addr then True
      else if list_ex (\<lambda>p. prefix_Contains p addr) monitorMetadataPrefixes then True
      else if Is4 addr then list_ex (\<lambda>p. prefix_Contains p addr) monitorRefusedPrefixes
      else if list_ex (\<lambda>p. prefix_Contains p addr) monitorTransitionDeny then True
      else case embedded addr of
        None \<Rightarrow> False
      | Some e \<Rightarrow> MonitorDestinationRefused e)"
  by pat_completeness auto
termination
proof (relation "measure (\<lambda>a. if Is4 a then 0 else 1)", simp)
  fix addr0 addr e
  assume a: "addr = WithoutZone (Unmap addr0)" and "\<not> Is4 addr" and e: "embedded addr = Some e"
  then have "\<not> Is4 addr0" using plain_Is4 by auto
  then show "(e, addr0) \<in> measure (\<lambda>a. if Is4 a then 0 else 1)" using embedded_Is4 [OF e] by simp
qed

declare MonitorDestinationRefused.simps [simp del]

section \<open>Bits and bytes\<close>

text \<open>A fact about one byte is checked on all of them.\<close>

lemma byte_enum: "\<forall>u \<in> set [0..<256]. Q (word_of_nat u) u \<Longrightarrow> Q (b :: byte) (unat b)"
  by (drule bspec [of _ _ "unat b"]) simp_all

lemma length_byte_bits [simp]: "length (byte_bits b) = 8"
  by (simp add: byte_bits_def)

lemma byte_bits_inj [simp]: "byte_bits a = byte_bits b \<longleftrightarrow> a = b"
proof
  assume e: "byte_bits a = byte_bits b"
  have "bit a n = bit b n" if n: "n < 8" for n
  proof -
    have "n = 0 \<or> n = 1 \<or> n = 2 \<or> n = 3 \<or> n = 4 \<or> n = 5 \<or> n = 6 \<or> n = 7" using n by arith
    then show ?thesis using e by (elim disjE) (simp_all add: byte_bits_def)
  qed
  then show "a = b" by (intro bit_word_eqI) simp
qed simp

lemma addr_bits_Cons [simp]: "addr_bits (b # bs) = byte_bits b @ addr_bits bs"
  by (simp add: addr_bits_def)

lemma addr_bits_Nil [simp]: "addr_bits [] = []"
  by (simp add: addr_bits_def)

lemma length_addr_bits [simp]: "length (addr_bits bs) = 8 * length bs"
  by (induction bs) simp_all

lemma take_bits: "take (8 * k) (addr_bits bs) = addr_bits (take k bs)"
proof (induction k arbitrary: bs)
  case (Suc k)
  have "8 * Suc k - 8 = 8 * k" by simp
  with Suc show ?case by (cases bs) simp_all
qed simp

lemma addr_bits_inj [simp]: "length xs = length ys \<Longrightarrow> addr_bits xs = addr_bits ys \<longleftrightarrow> xs = ys"
  by (induction xs ys rule: list_induct2) simp_all

lemma prefix_whole:
  assumes "length (netip_bytes a) = length (netip_bytes p)" and "netip_bytes a \<noteq> []" and "addr_zone a = []"
  shows "prefix_Contains (Prefix p (8 * k)) a \<longleftrightarrow> take k (netip_bytes a) = take k (netip_bytes p)"
  using assms by (simp add: take_bits)

lemma prefix_split:
  assumes "length (netip_bytes a) = length (netip_bytes p)" and "netip_bytes a = x # xs" and "addr_zone a = []"
    and "netip_bytes p = y # ys" and "n \<le> 8" and "xs = x' # xs'" and "ys = y' # ys'"
  shows "prefix_Contains (Prefix p (8 + n)) a \<longleftrightarrow> x = y \<and> take n (byte_bits x') = take n (byte_bits y')"
  using assms by simp

section \<open>The IPv4 verdict\<close>

definition refused_v4 :: "nat \<Rightarrow> nat \<Rightarrow> nat \<Rightarrow> nat \<Rightarrow> bool" where
  "refused_v4 a b c d \<longleftrightarrow>
     a = 0 \<or> a = 10 \<or> a = 127 \<or> 224 \<le> a \<or> (a = 100 \<and> 64 \<le> b \<and> b \<le> 127) \<or> (a = 169 \<and> b = 254) \<or> (a = 172 \<and> 16 \<le> b \<and> b \<le> 31)
     \<or> (a = 192 \<and> (b = 168 \<or> (b = 0 \<and> c = 0) \<or> (b = 88 \<and> c = 99))) \<or> (a = 198 \<and> (b = 18 \<or> b = 19))"

lemma byte_nums: "(b :: byte) = x \<longleftrightarrow> unat b = unat x"
  by (simp add: word_unat_eq_iff)

lemma high_bits:
  "take 2 (byte_bits b) = take 2 (byte_bits 64) \<longleftrightarrow> 64 \<le> unat b \<and> unat b \<le> 127"
  "take 2 (byte_bits b) = take 2 (byte_bits 0xC0) \<longleftrightarrow> 192 \<le> unat b"
  "take 7 (byte_bits b) = take 7 (byte_bits 18) \<longleftrightarrow> unat b = 18 \<or> unat b = 19"
  "take 4 (byte_bits b) = take 4 (byte_bits 240) \<longleftrightarrow> 240 \<le> unat b"
proof -
  show "take 2 (byte_bits b) = take 2 (byte_bits 64) \<longleftrightarrow> 64 \<le> unat b \<and> unat b \<le> 127"
    by (rule byte_enum [where Q = "\<lambda>b u. take 2 (byte_bits b) = take 2 (byte_bits 64) \<longleftrightarrow> 64 \<le> u \<and> u \<le> 127"]) code_simp
  show "take 2 (byte_bits b) = take 2 (byte_bits 0xC0) \<longleftrightarrow> 192 \<le> unat b"
    by (rule byte_enum [where Q = "\<lambda>b u. take 2 (byte_bits b) = take 2 (byte_bits 0xC0) \<longleftrightarrow> 192 \<le> u"]) code_simp
  show "take 7 (byte_bits b) = take 7 (byte_bits 18) \<longleftrightarrow> unat b = 18 \<or> unat b = 19"
    by (rule byte_enum [where Q = "\<lambda>b u. take 7 (byte_bits b) = take 7 (byte_bits 18) \<longleftrightarrow> u = 18 \<or> u = 19"]) code_simp
  show "take 4 (byte_bits b) = take 4 (byte_bits 240) \<longleftrightarrow> 240 \<le> unat b"
    by (rule byte_enum [where Q = "\<lambda>b u. take 4 (byte_bits b) = take 4 (byte_bits 240) \<longleftrightarrow> 240 \<le> u"]) code_simp
qed

lemma masks:
  "(b :: byte) AND 0xF0 = 0xE0 \<longleftrightarrow> 224 \<le> unat b \<and> unat b \<le> 239"
  "b AND 0xF0 = 16 \<longleftrightarrow> 16 \<le> unat b \<and> unat b \<le> 31"
  "b AND 0xC0 = 0x80 \<longleftrightarrow> 128 \<le> unat b \<and> unat b \<le> 191"
  "b AND 0xFE = 0xFC \<longleftrightarrow> unat b = 252 \<or> unat b = 253"
proof -
  show "b AND 0xF0 = 0xE0 \<longleftrightarrow> 224 \<le> unat b \<and> unat b \<le> 239"
    by (rule byte_enum [where Q = "\<lambda>b u. b AND 0xF0 = 0xE0 \<longleftrightarrow> 224 \<le> u \<and> u \<le> 239"]) code_simp
  show "b AND 0xF0 = 16 \<longleftrightarrow> 16 \<le> unat b \<and> unat b \<le> 31"
    by (rule byte_enum [where Q = "\<lambda>b u. b AND 0xF0 = 16 \<longleftrightarrow> 16 \<le> u \<and> u \<le> 31"]) code_simp
  show "b AND 0xC0 = 0x80 \<longleftrightarrow> 128 \<le> unat b \<and> unat b \<le> 191"
    by (rule byte_enum [where Q = "\<lambda>b u. b AND 0xC0 = 0x80 \<longleftrightarrow> 128 \<le> u \<and> u \<le> 191"]) code_simp
  show "b AND 0xFE = 0xFC \<longleftrightarrow> unat b = 252 \<or> unat b = 253"
    by (rule byte_enum [where Q = "\<lambda>b u. b AND 0xFE = 0xFC \<longleftrightarrow> u = 252 \<or> u = 253"]) code_simp
qed

lemma verdict_v4: "MonitorDestinationRefused (Addr4 a b c d) \<longleftrightarrow> refused_v4 (unat a) (unat b) (unat c) (unat d)"
proof -
  have pre: "prefix_Contains (v4_prefix p q r s 8) (Addr4 a b c d) \<longleftrightarrow> a = p"
    "prefix_Contains (v4_prefix p q r s 16) (Addr4 a b c d) \<longleftrightarrow> a = p \<and> b = q"
    "prefix_Contains (v4_prefix p q r s 24) (Addr4 a b c d) \<longleftrightarrow> a = p \<and> b = q \<and> c = r"
    "prefix_Contains (v4_prefix p q r s 10) (Addr4 a b c d) \<longleftrightarrow> a = p \<and> take 2 (byte_bits b) = take 2 (byte_bits q)"
    "prefix_Contains (v4_prefix p q r s 15) (Addr4 a b c d) \<longleftrightarrow> a = p \<and> take 7 (byte_bits b) = take 7 (byte_bits q)"
    "prefix_Contains (v4_prefix p q r s 4) (Addr4 a b c d) \<longleftrightarrow> take 4 (byte_bits a) = take 4 (byte_bits p)" for p q r s
    by (simp_all add: v4_prefix_def)
  have v6: "\<not> prefix_Contains (v6_prefix ps n) (Addr4 a b c d)" if "length ps \<le> 16" for ps n using that by (simp add: v6_prefix_def)
  show ?thesis
    unfolding MonitorDestinationRefused.simps [of "Addr4 a b c d"]
    by (simp add: pre v6 monitorMetadataPrefixes_def monitorRefusedPrefixes_def IsUnspecified_def refused_v4_def high_bits masks
        byte_nums [of a] byte_nums [of b] byte_nums [of c] byte_nums [of d])
      presburger
qed

section \<open>The IPv6 verdict\<close>

definition refused_at :: "bytes \<Rightarrow> nat \<Rightarrow> bool" where
  "refused_at bs k \<longleftrightarrow> refused_v4 (unat (bs ! k)) (unat (bs ! (k + 1))) (unat (bs ! (k + 2))) (unat (bs ! (k + 3)))"

definition refused_v6 :: "bytes \<Rightarrow> bool" where
  "refused_v6 bs \<longleftrightarrow>
     unat (bs ! 0) \<in> {252, 253, 255} \<or> (unat (bs ! 0) = 254 \<and> 128 \<le> unat (bs ! 1))
     \<or> take 12 bs = replicate 12 0 \<or> take 6 bs = [0, 0x64, 0xFF, 0x9B, 0, 1] \<or> take 4 bs = [0x20, 1, 0, 0]
     \<or> take 8 bs = [1, 0, 0, 0, 0, 0, 0, 0]
     \<or> (take 12 bs = [0, 0x64, 0xFF, 0x9B, 0, 0, 0, 0, 0, 0, 0, 0] \<and> refused_at bs 12)
     \<or> (take 12 bs = [0, 0, 0, 0, 0, 0, 0, 0, 0xFF, 0xFF, 0, 0] \<and> refused_at bs 12)
     \<or> (take 2 bs = [0x20, 2] \<and> refused_at bs 2)"

lemma v6_Contains:
  assumes "length bs = 16" and "length ps \<le> 16"
  shows "prefix_Contains (v6_prefix ps (8 * k)) (Addr6 bs []) \<longleftrightarrow> take k bs = take k (ps @ replicate (16 - length ps) 0)"
proof -
  let ?p = "Addr6 (ps @ replicate (16 - length ps) 0) []"
  have "length (netip_bytes (Addr6 bs [])) = length (netip_bytes ?p)" "netip_bytes (Addr6 bs []) \<noteq> []" "addr_zone (Addr6 bs []) = []"
    using assms by auto
  from prefix_whole [OF this] show ?thesis by (simp only: v6_prefix_def netip_bytes.simps)
qed

lemma v6_tables:
  assumes l: "length bs = 16"
  defines "a \<equiv> Addr6 bs []"
  shows "prefix_Contains (v6_prefix [0xFD, 0x00, 0x0E, 0xC2, 0, 0, 0, 0, 0, 0, 0, 0, 0, 0, 0x02, 0x54] 128) a \<longrightarrow> bs ! 0 = 0xFD"
    "prefix_Contains (v6_prefix [0x00, 0x64, 0xFF, 0x9B, 0, 1] 48) a \<longleftrightarrow> take 6 bs = [0, 0x64, 0xFF, 0x9B, 0, 1]"
    "prefix_Contains (v6_prefix [] 96) a \<longleftrightarrow> take 12 bs = replicate 12 0"
    "prefix_Contains (v6_prefix [0x20, 0x01, 0, 0] 32) a \<longleftrightarrow> take 4 bs = [0x20, 1, 0, 0]"
    "prefix_Contains (v6_prefix [0x01, 0] 64) a \<longleftrightarrow> take 8 bs = [1, 0, 0, 0, 0, 0, 0, 0]"
    "prefix_Contains monitorNAT64WellKnown a \<longleftrightarrow> take 12 bs = [0, 0x64, 0xFF, 0x9B, 0, 0, 0, 0, 0, 0, 0, 0]"
    "prefix_Contains monitorIPv4Translated a \<longleftrightarrow> take 12 bs = [0, 0, 0, 0, 0, 0, 0, 0, 0xFF, 0xFF, 0, 0]"
    "prefix_Contains monitorSixToFour a \<longleftrightarrow> take 2 bs = [0x20, 2]"
    "prefix_Contains (v6_prefix [0xFE, 0xC0] 10) a \<longleftrightarrow> bs ! 0 = 0xFE \<and> 192 \<le> unat (bs ! 1)"
proof -
  note c = v6_Contains [OF l, folded a_def]
  show "prefix_Contains (v6_prefix [0xFD, 0x00, 0x0E, 0xC2, 0, 0, 0, 0, 0, 0, 0, 0, 0, 0, 0x02, 0x54] 128) a \<longrightarrow> bs ! 0 = 0xFD"
    using c [of "[0xFD, 0x00, 0x0E, 0xC2, 0, 0, 0, 0, 0, 0, 0, 0, 0, 0, 0x02, 0x54]" 16] l by simp
  show "prefix_Contains (v6_prefix [0x00, 0x64, 0xFF, 0x9B, 0, 1] 48) a \<longleftrightarrow> take 6 bs = [0, 0x64, 0xFF, 0x9B, 0, 1]"
    using c [of "[0x00, 0x64, 0xFF, 0x9B, 0, 1]" 6] by simp
  show "prefix_Contains (v6_prefix [] 96) a \<longleftrightarrow> take 12 bs = replicate 12 0" using c [of "[]" 12] by simp
  show "prefix_Contains (v6_prefix [0x20, 0x01, 0, 0] 32) a \<longleftrightarrow> take 4 bs = [0x20, 1, 0, 0]" using c [of "[0x20, 0x01, 0, 0]" 4] by simp
  show "prefix_Contains (v6_prefix [0x01, 0] 64) a \<longleftrightarrow> take 8 bs = [1, 0, 0, 0, 0, 0, 0, 0]"
    using c [of "[0x01, 0]" 8] by (simp add: numeral_eq_Suc)
  show "prefix_Contains monitorNAT64WellKnown a \<longleftrightarrow> take 12 bs = [0, 0x64, 0xFF, 0x9B, 0, 0, 0, 0, 0, 0, 0, 0]"
    using c [of "[0x00, 0x64, 0xFF, 0x9B]" 12] by (simp add: monitorNAT64WellKnown_def numeral_eq_Suc)
  show "prefix_Contains monitorIPv4Translated a \<longleftrightarrow> take 12 bs = [0, 0, 0, 0, 0, 0, 0, 0, 0xFF, 0xFF, 0, 0]"
    using c [of "[0, 0, 0, 0, 0, 0, 0, 0, 0xFF, 0xFF, 0, 0]" 12] by (simp add: monitorIPv4Translated_def)
  show "prefix_Contains monitorSixToFour a \<longleftrightarrow> take 2 bs = [0x20, 2]" using c [of "[0x20, 0x02]" 2] by (simp add: monitorSixToFour_def)
  obtain x y xs where bs: "bs = x # y # xs" using l by (metis length_0_conv list.exhaust length_Cons numeral_eq_Suc old.nat.distinct(2) pred_numeral_simps(2,3) Suc_inject)
  show "prefix_Contains (v6_prefix [0xFE, 0xC0] 10) a \<longleftrightarrow> bs ! 0 = 0xFE \<and> 192 \<le> unat (bs ! 1)"
    using l by (simp add: v6_prefix_def a_def bs high_bits)
qed

lemma verdict_v6:
  assumes l: "length bs = 16"
  shows "MonitorDestinationRefused (Addr6 bs z) \<longleftrightarrow> (if take 12 bs = v4_mapped then refused_at bs 12 else refused_v6 bs)"
proof (cases "take 12 bs = v4_mapped")
  case True
  have "MonitorDestinationRefused (Addr6 bs z) = MonitorDestinationRefused (Addr4 (bs ! 12) (bs ! 13) (bs ! 14) (bs ! 15))"
    unfolding MonitorDestinationRefused.simps [of "Addr6 bs z"] MonitorDestinationRefused.simps [of "Addr4 (bs ! 12) (bs ! 13) (bs ! 14) (bs ! 15)"]
    using True by simp
  then show ?thesis using True by (simp add: verdict_v4 refused_at_def)
next
  case False
  let ?a = "Addr6 bs []"
  obtain x y xs where bs: "bs = x # y # xs" using l by (metis length_0_conv list.exhaust length_Cons numeral_eq_Suc old.nat.distinct(2) pred_numeral_simps(2,3) Suc_inject)
  note t = v6_tables [OF l]
  have v4: "\<not> prefix_Contains (v4_prefix p q r s n) ?a" for p q r s n using l by (simp add: v4_prefix_def)
  have top: "IsUnspecified ?a \<longrightarrow> take 12 bs = replicate 12 0" "IsLoopback ?a \<longrightarrow> take 12 bs = replicate 12 0"
    by (auto simp: IsUnspecified_def numeral_eq_Suc)
  have kinds: "IsMulticast ?a \<or> IsLinkLocalUnicast ?a \<or> IsLinkLocalMulticast ?a \<or> IsInterfaceLocalMulticast ?a \<or> IsPrivate ?a
      \<longleftrightarrow> unat x \<in> {252, 253, 255} \<or> unat x = 254 \<and> 128 \<le> unat y \<and> unat y \<le> 191"
    by (auto simp: bs masks byte_nums [of x])
  let ?high = "unat x \<in> {252, 253, 255} \<or> unat x = 254 \<and> 128 \<le> unat y \<and> unat y \<le> 191"
  have emb: "(case embedded ?a of None \<Rightarrow> False | Some e \<Rightarrow> MonitorDestinationRefused e) \<longleftrightarrow>
      (take 12 bs = [0, 0x64, 0xFF, 0x9B, 0, 0, 0, 0, 0, 0, 0, 0] \<and> refused_at bs 12)
      \<or> (take 12 bs = [0, 0, 0, 0, 0, 0, 0, 0, 0xFF, 0xFF, 0, 0] \<and> refused_at bs 12)
      \<or> (take 2 bs = [0x20, 2] \<and> refused_at bs 2)"
  proof -
    have "take 12 bs = p \<Longrightarrow> take 2 bs = take 2 p" for p by (drule arg_cong [where f = "take 2"]) simp
    then have "\<not> (take 12 bs = [0, 0x64, 0xFF, 0x9B, 0, 0, 0, 0, 0, 0, 0, 0] \<and> take 2 bs = [0x20, 2])"
      "\<not> (take 12 bs = [0, 0, 0, 0, 0, 0, 0, 0, 0xFF, 0xFF, 0, 0] \<and> take 2 bs = [0x20, 2])" by fastforce+
    then show ?thesis by (auto simp: embedded_def Let_def t verdict_v4 refused_at_def)
  qed
  have deny: "list_ex (\<lambda>p. prefix_Contains p ?a) monitorTransitionDeny \<longleftrightarrow>
      take 6 bs = [0, 0x64, 0xFF, 0x9B, 0, 1] \<or> take 12 bs = replicate 12 0 \<or> (unat x = 254 \<and> 192 \<le> unat y)
      \<or> take 4 bs = [0x20, 1, 0, 0] \<or> take 8 bs = [1, 0, 0, 0, 0, 0, 0, 0]"
  proof -
    have "bs ! 0 = 0xFE \<and> 192 \<le> unat (bs ! 1) \<longleftrightarrow> unat x = 254 \<and> 192 \<le> unat y" by (simp add: bs byte_nums [of x])
    then show ?thesis by (simp add: monitorTransitionDeny_def t del: take_Suc_Cons)
  qed
  have meta: "list_ex (\<lambda>p. prefix_Contains p ?a) monitorMetadataPrefixes \<longrightarrow> unat x = 253"
  proof -
    have "bs ! 0 = 0xFD \<longleftrightarrow> unat x = 253" by (simp add: bs byte_nums [of x])
    then show ?thesis using t(1) by (simp add: monitorMetadataPrefixes_def v4)
  qed
  have "MonitorDestinationRefused (Addr6 bs z) \<longleftrightarrow>
      (IsUnspecified ?a \<or> IsLoopback ?a \<or> ?high) \<or> list_ex (\<lambda>p. prefix_Contains p ?a) monitorMetadataPrefixes
      \<or> list_ex (\<lambda>p. prefix_Contains p ?a) monitorTransitionDeny
      \<or> (case embedded ?a of None \<Rightarrow> False | Some e \<Rightarrow> MonitorDestinationRefused e)"
    unfolding MonitorDestinationRefused.simps [of "Addr6 bs z"] kinds [symmetric] using False
    by (auto simp: Let_def simp del: IsLoopback.simps IsMulticast.simps IsLinkLocalUnicast.simps IsLinkLocalMulticast.simps
        IsInterfaceLocalMulticast.simps IsPrivate.simps)
  also have "\<dots> \<longleftrightarrow> refused_v6 bs"
  proof -
    have n: "bs ! 0 = x" "bs ! 1 = y" by (simp_all add: bs)
    have y: "128 \<le> unat y \<longleftrightarrow> 128 \<le> unat y \<and> unat y \<le> 191 \<or> 192 \<le> unat y" by linarith
    show ?thesis unfolding refused_v6_def n emb deny using top meta y by blast
  qed
  finally show ?thesis using False by simp
qed

text \<open>
  C34. Exactly which addresses an agent refuses to dial. An IPv4 address is refused exactly in the this-network,
  loopback, private, shared, link-local, protocol-assignment, 6to4-relay, benchmarking, multicast and reserved
  ranges; an IPv6 address, whatever its zone, in the local, multicast, IPv4-compatible, discard, local-NAT64 and
  Teredo ranges; and an address that carries an IPv4 address, mapped,
  translated, NAT64 or 6to4, exactly when the IPv4 address it carries is refused, so no notation of a refused
  IPv4 address gets through.
\<close>
theorem destination_verdict:
  assumes "length bs = 16"
  shows "(MonitorDestinationRefused (Addr4 a b c d) \<longleftrightarrow> refused_v4 (unat a) (unat b) (unat c) (unat d))
    \<and> (MonitorDestinationRefused (Addr6 bs z) \<longleftrightarrow> (if take 12 bs = v4_mapped then refused_at bs 12 else refused_v6 bs))
    \<and> MonitorDestinationRefused AddrInvalid"
  using verdict_v4 verdict_v6 [OF assms] by (simp add: MonitorDestinationRefused.simps [of AddrInvalid])

theorem destination_verdict_witness:
  "\<not> MonitorDestinationRefused (Addr6 ([0x20, 2, 8, 8, 8, 8] @ replicate 10 0) ''eth0'')
   \<and> MonitorDestinationRefused (Addr6 ([0x20, 2, 192, 168, 1, 1] @ replicate 10 0) [])"
proof -
  have l: "length ([0x20, 2, 8, 8, 8, 8] @ replicate 10 0 :: bytes) = 16" "length ([0x20, 2, 192, 168, 1, 1] @ replicate 10 0 :: bytes) = 16"
    by simp_all
  have f: "\<not> refused_v6 ([0x20, 2, 8, 8, 8, 8] @ replicate 10 0)" "refused_v6 ([0x20, 2, 192, 168, 1, 1] @ replicate 10 0)"
    by code_simp+
  show ?thesis using destination_verdict [OF l(1), of _ _ _ _ "''eth0''"] destination_verdict [OF l(2), of _ _ _ _ "[]"] f
    by (simp add: v4_mapped_def)
qed

end
