(* ===== verification/Monitor_Headers.thy ===== *)
theory Monitor_Headers
  imports Go_Text
begin

text \<open>
  The request headers of an http check (\<^verbatim>\<open>src/model/monitor_checks.go\<close>): the canonical form of a name, as
  \<^verbatim>\<open>textproto.CanonicalMIMEHeaderKey\<close> makes it, and which names and values a check may carry.
\<close>

section \<open>Names\<close>

definition MonitorHeaderNameMax :: nat where "MonitorHeaderNameMax = 64"
definition MonitorHeaderValueMax :: nat where "MonitorHeaderValueMax = 4096"

record MonitorHeader =
  mh_Name :: string
  mh_Value :: string
  mh_Secret :: bool
  mh_Set :: bool

definition is_lower :: "char \<Rightarrow> bool" where "is_lower c \<longleftrightarrow> 97 \<le> ord c \<and> ord c \<le> 122"
definition is_upper :: "char \<Rightarrow> bool" where "is_upper c \<longleftrightarrow> 65 \<le> ord c \<and> ord c \<le> 90"

definition isHeaderTokenByte :: "char \<Rightarrow> bool" where
  "isHeaderTokenByte c \<longleftrightarrow>
     is_lower c \<or> is_upper c \<or> is_digit c \<or> c \<in> set ''!#$%&*+-.^_`|~'' \<or> c = CHR 0x27"

definition to_upper :: "char \<Rightarrow> char" where "to_upper c = char_of (ord c - 32)"
definition to_lower :: "char \<Rightarrow> char" where "to_lower c = char_of (ord c + 32)"

text \<open>The loop of the library function; \<open>upper\<close> says that the next letter starts a word. A text with a byte no
  header name has is left alone, and the bytes the library takes are those the source takes.\<close>

fun canonical_loop :: "bool \<Rightarrow> string \<Rightarrow> string" where
  "canonical_loop upper [] = []"
| "canonical_loop upper (c # s) =
     (let d = (if upper \<and> is_lower c then to_upper c else if \<not> upper \<and> is_upper c then to_lower c else c)
      in d # canonical_loop (d = CHR ''-'') s)"

definition CanonicalMIMEHeaderKey :: "string \<Rightarrow> string" where
  "CanonicalMIMEHeaderKey s = (if list_all isHeaderTokenByte s then canonical_loop True s else s)"

definition CanonicalMonitorHeaderName :: "string \<Rightarrow> string" where
  "CanonicalMonitorHeaderName name = CanonicalMIMEHeaderKey (TrimSpace name)"

definition monitorForbiddenHeaders :: "string list" where
  "monitorForbiddenHeaders =
     [''Connection'', ''Content-Length'', ''Expect'', ''Host'', ''Keep-Alive'', ''Proxy-Connection'', ''Te'', ''Trailer'',
      ''Transfer-Encoding'', ''Upgrade'']"

section \<open>Validation\<close>

datatype header_error = HeaderNameLength | HeaderNameByte | HeaderForbidden string | HeaderValueLength string | HeaderValueControl string

definition control_byte :: "char \<Rightarrow> bool" where
  "control_byte c \<longleftrightarrow> (ord c < 0x20 \<and> c \<noteq> CHR 0x09) \<or> ord c = 0x7F"

definition ValidateMonitorHeader :: "string \<Rightarrow> string \<Rightarrow> header_error option" where
  "ValidateMonitorHeader name val =
     (if name = [] \<or> length name > MonitorHeaderNameMax then Some HeaderNameLength
      else if \<not> list_all isHeaderTokenByte name then Some HeaderNameByte
      else
        let canonical = CanonicalMonitorHeaderName name in
        if canonical \<in> set monitorForbiddenHeaders \<or> HasPrefix canonical ''Proxy-'' then Some (HeaderForbidden canonical)
        else if val = [] \<or> length val > MonitorHeaderValueMax then Some (HeaderValueLength canonical)
        else if list_ex control_byte val then Some (HeaderValueControl canonical)
        else None)"

definition MonitorHasSecrets :: "MonitorHeader list \<Rightarrow> bool" where
  "MonitorHasSecrets headers \<longleftrightarrow> list_ex mh_Secret headers"

section \<open>Spellings\<close>

text \<open>The lower-case form of a text: two names are spellings of one header when they agree in it.\<close>

definition lower :: "char \<Rightarrow> char" where "lower c = (if is_upper c then to_lower c else c)"

definition same_header :: "string \<Rightarrow> string \<Rightarrow> bool" where
  "same_header a b \<longleftrightarrow> map lower a = map lower b"

lemma ord_upper: "is_lower c \<Longrightarrow> ord (to_upper c) = ord c - 32"
  by (auto simp: to_upper_def is_lower_def)

lemma ord_lower: "is_upper c \<Longrightarrow> ord (to_lower c) = ord c + 32"
  by (auto simp: to_lower_def is_upper_def)

lemma lower_upper: "is_lower c \<Longrightarrow> lower (to_upper c) = lower c"
proof -
  assume c: "is_lower c"
  have "is_upper (to_upper c)" "\<not> is_upper c" using ord_upper [OF c] c by (auto simp: is_lower_def is_upper_def)
  moreover have "to_lower (to_upper c) = c" unfolding to_lower_def ord_upper [OF c] using c by (simp add: is_lower_def)
  ultimately show ?thesis by (simp add: lower_def)
qed

lemma lower_lower: "is_upper c \<Longrightarrow> lower (to_lower c) = lower c"
  using ord_lower [of c] by (auto simp: lower_def is_upper_def)

lemma dash_case: "lower c = CHR ''-'' \<longleftrightarrow> c = CHR ''-''"
proof -
  have "ord CHR ''-'' = 45" by (simp add: ord_def)
  then show ?thesis using ord_lower [of c] by (auto simp: lower_def is_upper_def)
qed

text \<open>What the loop writes depends on the lower-case form only.\<close>

definition head_case :: "bool \<Rightarrow> char \<Rightarrow> char" where
  "head_case up l = (if up \<and> is_lower l then to_upper l else l)"

lemma lower_not_upper: "\<not> is_upper (lower c)"
  using ord_lower [of c] by (auto simp: lower_def is_upper_def)

lemma canonical_head:
  "(if up \<and> is_lower c then to_upper c else if \<not> up \<and> is_upper c then to_lower c else c) = head_case up (lower c)"
proof (cases "is_upper c")
  case True
  then have "\<not> is_lower c" "is_lower (to_lower c)" using ord_lower [OF True] by (auto simp: is_lower_def is_upper_def)
  moreover have "to_upper (to_lower c) = c" using ord_lower [OF True] by (simp add: to_upper_def)
  ultimately show ?thesis using True by (simp add: head_case_def lower_def)
next
  case False
  then show ?thesis by (simp add: head_case_def lower_def)
qed

lemma head_dash: "head_case up l = CHR ''-'' \<longleftrightarrow> l = CHR ''-''"
proof -
  have "ord CHR ''-'' = 45" by (simp add: ord_def)
  then show ?thesis using ord_upper [of l] by (auto simp: head_case_def is_lower_def)
qed

fun shape :: "bool \<Rightarrow> string \<Rightarrow> string" where
  "shape up [] = []"
| "shape up (l # s) = head_case up l # shape (l = CHR ''-'') s"

lemma canonical_shape: "canonical_loop up s = shape up (map lower s)"
  by (induction s arbitrary: up) (simp_all add: canonical_head Let_def head_dash)

lemma lower_head: "\<not> is_upper l \<Longrightarrow> lower (head_case up l) = l"
  using lower_upper [of l] by (auto simp: head_case_def lower_def)

lemma lower_shape: "list_all (\<lambda>l. \<not> is_upper l) s \<Longrightarrow> map lower (shape up s) = s"
  by (induction s arbitrary: up) (auto simp: lower_head)

lemma canonical_lower [simp]: "map lower (canonical_loop up s) = map lower s"
  unfolding canonical_shape by (rule lower_shape) (simp add: list_all_iff lower_not_upper)

lemma canonical_eq_iff: "canonical_loop True a = canonical_loop True b \<longleftrightarrow> same_header a b"
  unfolding same_header_def by (metis canonical_lower canonical_shape)

section \<open>What passes\<close>

lemma token_graphic: "isHeaderTokenByte c \<Longrightarrow> graphic c"
proof -
  have "\<forall>d \<in> set ''!#$%&*+-.^_`|~''. graphic d" "graphic CHR 0x27" by code_simp+
  then show "isHeaderTokenByte c \<Longrightarrow> graphic c"
    by (auto simp: isHeaderTokenByte_def is_lower_def is_upper_def graphic_def is_digit_def)
qed

lemma canonical_name:
  assumes "list_all isHeaderTokenByte name" and "name \<noteq> []"
  shows "CanonicalMonitorHeaderName name = canonical_loop True name"
proof -
  have "graphic (hd name)" "graphic (last name)" using assms token_graphic by (simp_all add: list_all_iff)
  then show ?thesis using TrimSpace_id [OF assms(2)] assms(1) by (simp add: CanonicalMonitorHeaderName_def CanonicalMIMEHeaderKey_def)
qed

lemma forbidden_canonical: "h \<in> set monitorForbiddenHeaders \<Longrightarrow> canonical_loop True h = h"
proof -
  have "\<forall>h \<in> set monitorForbiddenHeaders. canonical_loop True h = h" by code_simp
  then show "h \<in> set monitorForbiddenHeaders \<Longrightarrow> canonical_loop True h = h" by blast
qed

lemma take_shape: "take n (shape up s) = shape up (take n s)"
  by (induction s arbitrary: up n) (simp_all add: take_Cons split: nat.split)

lemma proxy_prefix: "HasPrefix (canonical_loop True name) ''Proxy-'' \<longleftrightarrow> HasPrefix (map lower name) ''proxy-''"
proof -
  let ?l = "map lower name"
  have p: "shape True ''proxy-'' = ''Proxy-''" by code_simp
  have "list_all (\<lambda>l. \<not> is_upper l) (take 6 ?l)" "list_all (\<lambda>l. \<not> is_upper l) ''proxy-''"
    using lower_not_upper by (auto simp: list_all_iff dest!: in_set_takeD) (code_simp+)
  then have inj: "shape True (take 6 ?l) = shape True ''proxy-'' \<longleftrightarrow> take 6 ?l = ''proxy-''" using lower_shape by metis
  have six: "length ''Proxy-'' = 6" "length ''proxy-'' = 6" by simp_all
  show ?thesis unfolding HasPrefix_def canonical_shape six take_shape inj [unfolded p] ..
qed

text \<open>
  C35. No spelling gets a forbidden header through. A header passes exactly when its name is 1 to 64 token bytes
  that agree, in any case, with none of the hop-by-hop and framing headers and do not start with \<^verbatim>\<open>Proxy-\<close>, and
  its value is 1 to 4096 bytes without control characters; and two names are stored under one canonical name
  exactly when they are spellings of one header.
\<close>
theorem header_spellings:
  "(ValidateMonitorHeader name val = None \<longleftrightarrow>
     name \<noteq> [] \<and> length name \<le> 64 \<and> list_all isHeaderTokenByte name
     \<and> (\<forall>h \<in> set monitorForbiddenHeaders. \<not> same_header name h) \<and> \<not> HasPrefix (map lower name) ''proxy-''
     \<and> val \<noteq> [] \<and> length val \<le> 4096 \<and> \<not> list_ex control_byte val)
   \<and> (list_all isHeaderTokenByte name \<and> list_all isHeaderTokenByte other \<and> name \<noteq> [] \<and> other \<noteq> [] \<longrightarrow>
      (CanonicalMonitorHeaderName name = CanonicalMonitorHeaderName other \<longleftrightarrow> same_header name other))"
proof (intro conjI impI)
  have forbidden: "canonical_loop True name \<in> set monitorForbiddenHeaders \<longleftrightarrow> (\<exists>h \<in> set monitorForbiddenHeaders. same_header name h)"
    using forbidden_canonical canonical_eq_iff [of name] by metis
  show "ValidateMonitorHeader name val = None \<longleftrightarrow>
     name \<noteq> [] \<and> length name \<le> 64 \<and> list_all isHeaderTokenByte name
     \<and> (\<forall>h \<in> set monitorForbiddenHeaders. \<not> same_header name h) \<and> \<not> HasPrefix (map lower name) ''proxy-''
     \<and> val \<noteq> [] \<and> length val \<le> 4096 \<and> \<not> list_ex control_byte val"
  proof (cases "name \<noteq> [] \<and> list_all isHeaderTokenByte name")
    case True
    then have c: "CanonicalMonitorHeaderName name = canonical_loop True name" using canonical_name by blast
    show ?thesis using True unfolding ValidateMonitorHeader_def Let_def c proxy_prefix forbidden
      by (auto simp: MonitorHeaderNameMax_def MonitorHeaderValueMax_def not_less)
  qed (auto simp: ValidateMonitorHeader_def)
  assume "list_all isHeaderTokenByte name \<and> list_all isHeaderTokenByte other \<and> name \<noteq> [] \<and> other \<noteq> []"
  then show "CanonicalMonitorHeaderName name = CanonicalMonitorHeaderName other \<longleftrightarrow> same_header name other"
    by (simp add: canonical_name canonical_eq_iff)
qed

theorem header_spellings_witness:
  "ValidateMonitorHeader ''x-API-key'' ''v'' = None \<and> ValidateMonitorHeader ''hOST'' ''v'' \<noteq> None
   \<and> CanonicalMonitorHeaderName ''x-API-key'' = CanonicalMonitorHeaderName ''X-Api-Key''"
proof -
  have t: "list_all isHeaderTokenByte ''x-API-key''" "list_all isHeaderTokenByte ''X-Api-Key''"
    "\<forall>h \<in> set monitorForbiddenHeaders. \<not> same_header ''x-API-key'' h" "\<not> HasPrefix (map lower ''x-API-key'') ''proxy-''"
    "same_header ''x-API-key'' ''X-Api-Key''" "same_header ''hOST'' ''Host''" "\<not> list_ex control_byte ''v''" by code_simp+
  have "''Host'' \<in> set monitorForbiddenHeaders" by (simp add: monitorForbiddenHeaders_def)
  then have "ValidateMonitorHeader ''hOST'' ''v'' \<noteq> None" using header_spellings [of "''hOST''" "''v''"] t(6) by blast
  then show ?thesis using header_spellings [of "''x-API-key''" "''v''" "''X-Api-Key''"] t by simp
qed

end
