(* ===== verification/Monitor_Status.thy ===== *)
theory Monitor_Status
  imports Go_Text
begin

text \<open>
  The passing statuses of an http check, and what an agent says it can probe (\<^verbatim>\<open>src/model/monitor_checks.go\<close>):
  status lists are parsed into sorted, merged ranges and written back in one canonical form.
\<close>

section \<open>Kinds and packets\<close>

definition MonitorTypeTCP :: string where "MonitorTypeTCP = ''tcp''"
definition MonitorTypeHTTP :: string where "MonitorTypeHTTP = ''http''"
definition MonitorTypeICMP :: string where "MonitorTypeICMP = ''icmp''"
definition MonitorTypeDNS :: string where "MonitorTypeDNS = ''dns''"
definition MonitorTypeBeacon :: string where "MonitorTypeBeacon = ''beacon''"

definition MonitorPacketsDefault :: int where "MonitorPacketsDefault = 5"

text \<open>The monitor's \<^verbatim>\<open>Packets\<close> field is the argument.\<close>

definition MonitorPackets :: "int \<Rightarrow> int" where
  "MonitorPackets packets = (if packets \<le> 0 then MonitorPacketsDefault else packets)"

definition MonitorKindSendsPackets :: "string \<Rightarrow> bool" where
  "MonitorKindSendsPackets kind \<longleftrightarrow> kind = MonitorTypeICMP \<or> kind = MonitorTypeBeacon"

definition legacyProbeMethods :: "string list" where
  "legacyProbeMethods = [MonitorTypeHTTP, MonitorTypeTCP]"

definition KnownProbeMethod :: "string \<Rightarrow> bool" where
  "KnownProbeMethod kind \<longleftrightarrow>
     kind \<in> set [MonitorTypeTCP, MonitorTypeHTTP, MonitorTypeICMP, MonitorTypeBeacon, MonitorTypeDNS]"

text \<open>Strings are ordered bytewise.\<close>

fun string_le :: "string \<Rightarrow> string \<Rightarrow> bool" where
  "string_le [] t = True"
| "string_le (c # s) [] = False"
| "string_le (c # s) (d # t) = (ord c < ord d \<or> c = d \<and> string_le s t)"

fun insert_string :: "string \<Rightarrow> string list \<Rightarrow> string list" where
  "insert_string x [] = [x]"
| "insert_string x (y # ys) = (if string_le x y then x # y # ys else y # insert_string x ys)"

definition sort_strings :: "string list \<Rightarrow> string list" where
  "sort_strings xs = foldr insert_string xs []"

fun keep_known :: "string list \<Rightarrow> string list \<Rightarrow> string list" where
  "keep_known out [] = out"
| "keep_known out (raw # rest) =
     (let kind = TrimSpace raw in
      keep_known (if KnownProbeMethod kind \<and> kind \<notin> set out then out @ [kind] else out) rest)"

definition NormalizeProbeMethods :: "string list \<Rightarrow> string list" where
  "NormalizeProbeMethods input = sort_strings (keep_known [] input)"

definition EffectiveProbeMethods :: "string list \<Rightarrow> string list" where
  "EffectiveProbeMethods reported = (if reported = [] then legacyProbeMethods else NormalizeProbeMethods reported)"

definition ProbeMethodSupported :: "string list \<Rightarrow> string \<Rightarrow> bool" where
  "ProbeMethodSupported reported kind \<longleftrightarrow> kind \<in> set (EffectiveProbeMethods reported)"

section \<open>Status sets\<close>

definition MonitorExpectStatusDefault :: string where "MonitorExpectStatusDefault = ''200-399''"
definition monitorStatusSetMaxParts :: nat where "monitorStatusSetMaxParts = 16"

record MonitorStatusRange =
  mr_Lo :: int
  mr_Hi :: int

type_synonym MonitorStatusSet = "MonitorStatusRange list"

datatype status_error = StatusTooMany nat | StatusCode string | StatusBackwards string

definition parseStatusCode :: "string \<Rightarrow> int option" where
  "parseStatusCode raw0 =
     (let raw = TrimSpace raw0 in
      if length raw \<noteq> 3 then None
      else case ParseInt raw of
        None \<Rightarrow> None
      | Some code \<Rightarrow> if code < 100 \<or> code > 599 then None else Some code)"

definition parse_status_entry :: "string \<Rightarrow> status_error + MonitorStatusRange" where
  "parse_status_entry part0 =
     (let part = TrimSpace part0 in
      case Cut (CHR ''-'') part of
        (lo, hi, isRange) \<Rightarrow>
          (case parseStatusCode lo of
             None \<Rightarrow> Inl (StatusCode part)
           | Some a \<Rightarrow>
               if isRange then
                 (case parseStatusCode hi of
                    None \<Rightarrow> Inl (StatusCode part)
                  | Some b \<Rightarrow> if b < a then Inl (StatusBackwards part) else Inr \<lparr>mr_Lo = a, mr_Hi = b\<rparr>)
               else Inr \<lparr>mr_Lo = a, mr_Hi = a\<rparr>))"

fun parse_status_entries :: "string list \<Rightarrow> status_error + MonitorStatusSet" where
  "parse_status_entries [] = Inr []"
| "parse_status_entries (part # rest) =
     (case parse_status_entry part of
        Inl e \<Rightarrow> Inl e
      | Inr r \<Rightarrow> (case parse_status_entries rest of Inl e \<Rightarrow> Inl e | Inr rs \<Rightarrow> Inr (r # rs)))"

text \<open>The merge over the sorted ranges; the first argument is the last range merged so far.\<close>

fun merge_ranges :: "MonitorStatusRange \<Rightarrow> MonitorStatusRange list \<Rightarrow> MonitorStatusSet" where
  "merge_ranges cur [] = [cur]"
| "merge_ranges cur (r # rs) =
     (if mr_Lo r \<le> mr_Hi cur + 1 then merge_ranges (cur\<lparr>mr_Hi := max (mr_Hi cur) (mr_Hi r)\<rparr>) rs
      else cur # merge_ranges r rs)"

definition status_list :: "string \<Rightarrow> string" where
  "status_list raw0 = (let raw = TrimSpace raw0 in if raw = [] then MonitorExpectStatusDefault else raw)"

text \<open>The source sorts by the lower bound with a sort that need not be stable; the merge does not depend on the
  order of ranges with one lower bound. The parts of a text are never empty, so neither is the list.\<close>

definition ParseMonitorStatusSet :: "string \<Rightarrow> status_error + MonitorStatusSet" where
  "ParseMonitorStatusSet raw =
     (let parts = Split (CHR '','') (status_list raw) in
      if length parts > monitorStatusSetMaxParts then Inl (StatusTooMany (length parts))
      else case parse_status_entries parts of
        Inl e \<Rightarrow> Inl e
      | Inr ranges \<Rightarrow> (case sort_key mr_Lo ranges of [] \<Rightarrow> Inr [] | r # rs \<Rightarrow> Inr (merge_ranges r rs)))"

definition StatusSet_Contains :: "MonitorStatusSet \<Rightarrow> int \<Rightarrow> bool" where
  "StatusSet_Contains st code \<longleftrightarrow> list_ex (\<lambda>r. code \<ge> mr_Lo r \<and> code \<le> mr_Hi r) st"

definition range_String :: "MonitorStatusRange \<Rightarrow> string" where
  "range_String r =
     (if mr_Lo r = mr_Hi r then FormatInt (mr_Lo r) else FormatInt (mr_Lo r) @ ''-'' @ FormatInt (mr_Hi r))"

definition StatusSet_String :: "MonitorStatusSet \<Rightarrow> string" where
  "StatusSet_String st = Join (CHR '','') (map range_String st)"

section \<open>The canonical form\<close>

definition range_ok :: "MonitorStatusRange \<Rightarrow> bool" where
  "range_ok r \<longleftrightarrow> 100 \<le> mr_Lo r \<and> mr_Lo r \<le> mr_Hi r \<and> mr_Hi r \<le> 599"

text \<open>Ranges in order, none of which touch.\<close>

definition canonical_set :: "MonitorStatusSet \<Rightarrow> bool" where
  "canonical_set st \<longleftrightarrow> st \<noteq> [] \<and> list_all range_ok st \<and> sorted_wrt (\<lambda>a b. mr_Hi a + 1 < mr_Lo b) st"

definition codes :: "MonitorStatusRange list \<Rightarrow> int set" where
  "codes st = (\<Union>r \<in> set st. {mr_Lo r..mr_Hi r})"

lemma codes_simps [simp]: "codes [] = {}" "codes (r # rs) = {mr_Lo r..mr_Hi r} \<union> codes rs"
  by (simp_all add: codes_def)

lemma Contains_codes: "StatusSet_Contains st c \<longleftrightarrow> c \<in> codes st"
  by (auto simp: StatusSet_Contains_def codes_def list_ex_iff)

lemma merge_ranges_ok:
  assumes "range_ok cur" and "list_all range_ok rs" and "sorted (map mr_Lo rs)" and "\<forall>r \<in> set rs. mr_Lo cur \<le> mr_Lo r"
  shows "canonical_set (merge_ranges cur rs) \<and> codes (merge_ranges cur rs) = codes (cur # rs)
    \<and> (\<forall>r \<in> set (merge_ranges cur rs). mr_Lo cur \<le> mr_Lo r) \<and> length (merge_ranges cur rs) \<le> length rs + 1"
  using assms
proof (induction cur rs rule: merge_ranges.induct)
  case (1 cur)
  then show ?case by (simp add: canonical_set_def)
next
  case (2 cur r rs)
  show ?case
  proof (cases "mr_Lo r \<le> mr_Hi cur + 1")
    case True
    let ?c = "cur\<lparr>mr_Hi := max (mr_Hi cur) (mr_Hi r)\<rparr>"
    have c: "range_ok ?c" "\<forall>x \<in> set rs. mr_Lo ?c \<le> mr_Lo x" using 2(3,4,6) by (auto simp: range_ok_def)
    have u: "codes (?c # rs) = codes (cur # r # rs)" using 2(3,4,6) True by (auto simp: range_ok_def max_def)
    show ?thesis using 2(1) [OF True c(1) _ _ c(2)] 2(4,5) True u by auto
  next
    case False
    have "\<forall>x \<in> set rs. mr_Lo r \<le> mr_Lo x" using 2(5) by auto
    then have "canonical_set (merge_ranges r rs) \<and> codes (merge_ranges r rs) = codes (r # rs)
        \<and> (\<forall>x \<in> set (merge_ranges r rs). mr_Lo r \<le> mr_Lo x) \<and> length (merge_ranges r rs) \<le> length rs + 1"
      using 2(2) [OF False] 2(4,5) by simp
    then show ?thesis using False 2(3,6) by (auto simp: canonical_set_def range_ok_def)
  qed
qed

lemma canonical_ConsD:
  assumes "canonical_set (r # rs)"
  shows "range_ok r" "\<And>c. c \<in> codes rs \<Longrightarrow> mr_Hi r + 1 < c" "rs \<noteq> [] \<Longrightarrow> canonical_set rs"
  using assms by (auto simp: canonical_set_def codes_def)

lemma canonical_unique: "canonical_set st \<Longrightarrow> canonical_set st' \<Longrightarrow> codes st = codes st' \<Longrightarrow> st = st'"
proof (induction st arbitrary: st')
  case (Cons r rs)
  obtain r' rs' where st': "st' = r' # rs'" using Cons.prems(2) by (cases st') (auto simp: canonical_set_def)
  note a = canonical_ConsD [OF Cons.prems(1)] and b = canonical_ConsD [OF Cons.prems(2) [unfolded st']]
  have eq: "c \<in> {mr_Lo r..mr_Hi r} \<union> codes rs \<longleftrightarrow> c \<in> {mr_Lo r'..mr_Hi r'} \<union> codes rs'" for c
    using Cons.prems(3) by (simp add: st')
  have lo: "mr_Lo r = mr_Lo r'"
    using eq [of "mr_Lo r"] eq [of "mr_Lo r'"] a(1) b(1) a(2) [of "mr_Lo r'"] b(2) [of "mr_Lo r"] by (auto simp: range_ok_def)
  have hi: "mr_Hi r = mr_Hi r'"
  proof (rule antisym)
    show "mr_Hi r \<le> mr_Hi r'" using eq [of "mr_Hi r' + 1"] a(1) b(1) b(2) [of "mr_Hi r' + 1"] lo by (auto simp: range_ok_def)
    show "mr_Hi r' \<le> mr_Hi r" using eq [of "mr_Hi r + 1"] a(1) b(1) a(2) [of "mr_Hi r + 1"] lo by (auto simp: range_ok_def)
  qed
  have rest: "codes rs = codes rs'"
  proof (intro set_eqI)
    fix c show "c \<in> codes rs \<longleftrightarrow> c \<in> codes rs'" using eq [of c] a(2) [of c] b(2) [of c] lo hi by auto
  qed
  have ne: "mr_Lo x \<in> codes xs" if "x \<in> set xs" "range_ok x" for x xs using that by (auto simp: codes_def range_ok_def)
  have "rs = rs'"
  proof (cases "rs = [] \<or> rs' = []")
    case True
    have full: "codes xs \<noteq> {}" if "canonical_set xs" for xs
      using that ne [of "hd xs" xs] by (cases xs) (auto simp: canonical_set_def)
    have "rs' = []" if "rs = []" using full [of rs'] b(3) rest that by (cases "rs' = []") simp_all
    moreover have "rs = []" if "rs' = []" using full [of rs] a(3) rest that by (cases "rs = []") simp_all
    ultimately show ?thesis using True by blast
  next
    case False
    then show ?thesis using Cons.IH a(3) b(3) rest by blast
  qed
  then show ?case using lo hi by (simp add: st')
qed (simp add: canonical_set_def)

section \<open>What is accepted\<close>

definition code_text :: "string \<Rightarrow> int \<Rightarrow> bool" where
  "code_text s n \<longleftrightarrow> TrimSpace s = FormatInt n \<and> 100 \<le> n \<and> n \<le> 599"

definition status_text :: "string \<Rightarrow> MonitorStatusRange \<Rightarrow> bool" where
  "status_text part r \<longleftrightarrow>
     (CHR ''-'' \<notin> set (TrimSpace part) \<and> code_text (TrimSpace part) (mr_Lo r) \<and> mr_Hi r = mr_Lo r)
     \<or> (\<exists>x y. TrimSpace part = x @ CHR ''-'' # y \<and> CHR ''-'' \<notin> set x \<and> code_text x (mr_Lo r) \<and> code_text y (mr_Hi r)
          \<and> mr_Lo r \<le> mr_Hi r)"

lemma parseStatusCode_iff: "parseStatusCode s = Some n \<longleftrightarrow> code_text s n"
proof -
  let ?t = "TrimSpace s"
  have three: "?t = FormatInt n" if t: "length ?t = 3" "ParseInt ?t = Some n" "100 \<le> n"
  proof (cases "hd ?t = CHR ''-'' \<or> hd ?t = CHR ''+''")
    case True
    then have "digits_only (tl ?t)" "n = int (undec (tl ?t)) \<or> n = - int (undec (tl ?t))"
      using t(1,2) by (auto simp: ParseInt_def Let_def split: if_splits)
    moreover from this have "undec (tl ?t) < 10 ^ length (tl ?t)" by (intro undec_less) (simp add: digits_only_def)
    ultimately show ?thesis using t(1,3) by simp
  next
    case False
    then have d: "digits_only ?t" "n = int (undec ?t)" using t(1,2) by (auto simp: ParseInt_def Let_def split: if_splits)
    obtain c u where cu: "?t = c # u" using t(1) by (cases ?t) auto
    have "c \<noteq> CHR ''0''"
    proof
      assume "c = CHR ''0''"
      then have "undec ?t = undec u" by (simp add: cu undec_def)
      moreover have "undec u < 10 ^ length u" using d(1) by (intro undec_less) (simp add: cu digits_only_def)
      ultimately show False using t(1,3) d(2) by (simp add: cu)
    qed
    then have "canonical_dec ?t" using d(1) by (simp add: canonical_dec_def digits_only_def cu)
    then show ?thesis using d(2) by (simp add: FormatInt_def)
  qed
  have len: "length (FormatInt n) = 3" if "100 \<le> n" "n \<le> 599"
  proof -
    have "10 \<le> nat n" "10 \<le> nat n div 10" "nat n div 10 div 10 < 10" using that by linarith+
    then have "length (dec (nat n)) = 3" by (simp add: dec.simps [of "nat n"] dec.simps [of "nat n div 10"] dec.simps [of "nat n div 10 div 10"])
    then show ?thesis using that by (simp add: FormatInt_def)
  qed
  have "ParseInt (FormatInt n) = Some n" if "100 \<le> n" "n \<le> 599" using that by (intro ParseInt_FormatInt) (simp add: in_i64_def)
  then have "code_text s n \<Longrightarrow> parseStatusCode s = Some n" using len by (auto simp: parseStatusCode_def code_text_def Let_def)
  moreover have "code_text s n" if "parseStatusCode s = Some n"
  proof -
    have "length ?t = 3" "ParseInt ?t = Some n" "100 \<le> n" "n \<le> 599"
      using that by (auto simp: parseStatusCode_def Let_def split: if_splits option.splits)
    then show ?thesis using three by (simp add: code_text_def)
  qed
  ultimately show ?thesis by blast
qed

lemma parse_status_entry_iff: "parse_status_entry part = Inr r \<longleftrightarrow> status_text part r"
proof -
  let ?p = "TrimSpace part"
  obtain a b f where c: "Cut (CHR ''-'') ?p = (a, b, f)" by (rule prod_cases3)
  have r: "r = \<lparr>mr_Lo = x, mr_Hi = y\<rparr> \<longleftrightarrow> mr_Lo r = x \<and> mr_Hi r = y" for x y by (cases r) auto
  show ?thesis
  proof (cases f)
    case True
    then have p: "?p = a @ CHR ''-'' # b" "CHR ''-'' \<notin> set a" using Cut_cases [OF c] by auto
    have u: "x = a \<and> y = b" if "?p = x @ CHR ''-'' # y" "CHR ''-'' \<notin> set x" for x y
      using Cut_append [OF that(2), of y] c that(1) by simp
    have "parse_status_entry part = Inr r \<longleftrightarrow> code_text a (mr_Lo r) \<and> code_text b (mr_Hi r) \<and> mr_Lo r \<le> mr_Hi r"
      using True unfolding parse_status_entry_def Let_def c parseStatusCode_iff [symmetric] by (cases r) (auto split: option.splits)
    moreover have "status_text part r \<longleftrightarrow> code_text a (mr_Lo r) \<and> code_text b (mr_Hi r) \<and> mr_Lo r \<le> mr_Hi r"
    proof
      assume "status_text part r"
      moreover have "CHR ''-'' \<in> set ?p" by (simp add: p(1))
      ultimately obtain x y where "?p = x @ CHR ''-'' # y" "CHR ''-'' \<notin> set x" "code_text x (mr_Lo r)" "code_text y (mr_Hi r)" "mr_Lo r \<le> mr_Hi r"
        unfolding status_text_def by blast
      then show "code_text a (mr_Lo r) \<and> code_text b (mr_Hi r) \<and> mr_Lo r \<le> mr_Hi r" using u by blast
    qed (use p in \<open>unfold status_text_def, blast\<close>)
    ultimately show ?thesis by blast
  next
    case False
    then have p: "a = ?p" "CHR ''-'' \<notin> set ?p" using Cut_cases [OF c] by auto
    have "parse_status_entry part = Inr r \<longleftrightarrow> code_text ?p (mr_Lo r) \<and> mr_Hi r = mr_Lo r"
      using False unfolding parse_status_entry_def Let_def c p(1) parseStatusCode_iff [symmetric] by (cases r) (auto split: option.splits)
    moreover have "?p \<noteq> x @ CHR ''-'' # y" for x y using p(2) by auto
    ultimately show ?thesis using p(2) unfolding status_text_def by blast
  qed
qed

lemma parse_status_entries_iff: "parse_status_entries ps = Inr rs \<longleftrightarrow> list_all2 status_text ps rs"
proof (induction ps arbitrary: rs)
  case (Cons p ps)
  have "parse_status_entries (p # ps) = Inr rs \<longleftrightarrow> (\<exists>r rs'. parse_status_entry p = Inr r \<and> parse_status_entries ps = Inr rs' \<and> rs = r # rs')"
    by (auto split: sum.splits)
  then show ?case unfolding Cons.IH parse_status_entry_iff list_all2_Cons1 by blast
qed auto

lemma set_of_sorted:
  assumes "rs \<noteq> []" and "list_all range_ok rs"
  shows "\<exists>r us. sort_key mr_Lo rs = r # us \<and> canonical_set (merge_ranges r us) \<and> codes (merge_ranges r us) = codes rs
    \<and> length (merge_ranges r us) \<le> length rs"
proof -
  obtain r us where s: "sort_key mr_Lo rs = r # us" using assms(1) by (cases "sort_key mr_Lo rs") (metis length_sort length_0_conv, blast)
  have set_eq: "set (r # us) = set rs" by (metis s set_sort)
  have "sorted (map mr_Lo (r # us))" by (metis s sorted_sort_key)
  moreover have "range_ok r" "list_all range_ok us" using assms(2) set_eq by (auto simp: list_all_iff)
  moreover have "codes (r # us) = codes rs" unfolding codes_def set_eq ..
  moreover have "length (r # us) = length rs" by (metis s length_sort)
  ultimately show ?thesis using merge_ranges_ok [of r us] s by auto
qed

lemma status_text_ok: "status_text part r \<Longrightarrow> range_ok r"
  by (auto simp: status_text_def code_text_def range_ok_def)

lemma status_texts_ok: "list_all2 status_text ps rs \<Longrightarrow> list_all range_ok rs"
  by (induction rule: list_all2_induct) (auto dest: status_text_ok)

lemma Parse_status:
  "ParseMonitorStatusSet raw = Inr st \<longleftrightarrow>
     (\<exists>rs. list_all2 status_text (Split (CHR '','') (status_list raw)) rs \<and> length rs \<le> 16
        \<and> canonical_set st \<and> codes st = codes rs)"
proof -
  let ?ps = "Split (CHR '','') (status_list raw)"
  have ok: "rs \<noteq> []" "list_all range_ok rs" "length rs = length ?ps" if "list_all2 status_text ?ps rs" for rs
  proof -
    show len: "length rs = length ?ps" using that by (simp add: list_all2_lengthD)
    show "rs \<noteq> []" using len Split_nonempty [of "CHR '',''" "status_list raw"] by (metis length_0_conv)
    show "list_all range_ok rs" by (rule status_texts_ok [OF that])
  qed
  have parsed: "ParseMonitorStatusSet raw = Inr st \<longleftrightarrow> length ?ps \<le> 16 \<and> canonical_set st \<and> codes st = codes rs"
    if p: "list_all2 status_text ?ps rs" for rs
  proof -
    obtain r us where s: "sort_key mr_Lo rs = r # us" "canonical_set (merge_ranges r us)" "codes (merge_ranges r us) = codes rs"
      using set_of_sorted [OF ok(1,2) [OF p]] by blast
    have "ParseMonitorStatusSet raw = (if length ?ps > 16 then Inl (StatusTooMany (length ?ps)) else Inr (merge_ranges r us))"
      using p [folded parse_status_entries_iff] s(1) by (simp add: ParseMonitorStatusSet_def Let_def monitorStatusSetMaxParts_def)
    then show ?thesis using s(2,3) canonical_unique [OF s(2), of st] by auto
  qed
  show ?thesis
  proof
    assume l: "ParseMonitorStatusSet raw = Inr st"
    then obtain rs where "parse_status_entries ?ps = Inr rs"
      by (auto simp: ParseMonitorStatusSet_def Let_def split: if_splits sum.splits)
    then have p: "list_all2 status_text ?ps rs" by (simp add: parse_status_entries_iff)
    then show "\<exists>rs. list_all2 status_text ?ps rs \<and> length rs \<le> 16 \<and> canonical_set st \<and> codes st = codes rs"
      using parsed [OF p] l ok(3) [OF p] by auto
  qed (use parsed ok(3) in force)
qed

text \<open>
  C36. A status list is accepted exactly when it has at most sixteen entries, each a code or a range of codes from
  100 to 599 that does not run backwards; the result is the one canonical form (sorted ranges that neither
  overlap nor touch) of the statuses the entries name, an empty list naming 200 to 399, and \<^verbatim>\<open>Contains\<close>
  answers for exactly those statuses.
\<close>
theorem status_set_canonical:
  "ParseMonitorStatusSet raw = Inr st \<longleftrightarrow>
     (\<exists>rs. list_all2 status_text (Split (CHR '','') (status_list raw)) rs \<and> length rs \<le> 16 \<and> canonical_set st
        \<and> Collect (StatusSet_Contains st) = (\<Union>r \<in> set rs. {mr_Lo r..mr_Hi r}))"
proof -
  have "Collect (StatusSet_Contains st) = codes st" by (auto simp: Contains_codes)
  then show ?thesis unfolding Parse_status codes_def [symmetric] by simp
qed

section \<open>The canonical text\<close>

lemma text_chars:
  assumes "range_ok r"
  shows "range_String r \<noteq> []" "is_digit (hd (range_String r))" "is_digit (last (range_String r))" "CHR '','' \<notin> set (range_String r)"
proof -
  have d: "FormatInt n = dec (nat n)" if "100 \<le> n" for n using that by (simp add: FormatInt_def)
  have lo: "100 \<le> mr_Lo r" "100 \<le> mr_Hi r" using assms by (auto simp: range_ok_def)
  have l: "is_digit (last (dec n))" for n using dec_digits [of "last (dec n)" n] by simp
  have c: "CHR '','' \<notin> set (dec n)" for n using dec_digits [of "CHR '',''" n] by (auto simp: is_digit_def ord_def)
  show "range_String r \<noteq> []" "is_digit (hd (range_String r))" "is_digit (last (range_String r))" "CHR '','' \<notin> set (range_String r)"
    using l c by (auto simp: range_String_def d [OF lo(1)] d [OF lo(2)] hd_append)
qed

lemma trim_digits: "s \<noteq> [] \<Longrightarrow> is_digit (hd s) \<Longrightarrow> is_digit (last s) \<Longrightarrow> TrimSpace s = s"
  by (rule TrimSpace_id) simp_all

lemma code_text_dec: "100 \<le> n \<Longrightarrow> n \<le> 599 \<Longrightarrow> code_text (FormatInt n) n"
proof -
  assume n: "100 \<le> n" "n \<le> 599"
  have "is_digit (last (dec m))" for m using dec_digits [of "last (dec m)" m] by simp
  then have "TrimSpace (dec (nat n)) = dec (nat n)" by (intro trim_digits) simp_all
  then show ?thesis using n by (simp add: code_text_def FormatInt_def)
qed

lemma status_text_String:
  assumes "range_ok r"
  shows "status_text (range_String r) r"
proof -
  have t: "TrimSpace (range_String r) = range_String r" by (rule trim_digits [OF text_chars(1-3) [OF assms]])
  have lo: "code_text (FormatInt (mr_Lo r)) (mr_Lo r)" "code_text (FormatInt (mr_Hi r)) (mr_Hi r)" "mr_Lo r \<le> mr_Hi r" "0 \<le> mr_Lo r"
    using assms by (auto simp: range_ok_def intro: code_text_dec)
  have dash: "CHR ''-'' \<notin> set (FormatInt (mr_Lo r))"
    using lo(4) dec_digits [of "CHR ''-''" "nat (mr_Lo r)"] sign_not_digit(1) by (auto simp: FormatInt_def)
  show ?thesis
  proof (cases "mr_Lo r = mr_Hi r")
    case True
    then have "range_String r = FormatInt (mr_Lo r)" by (simp add: range_String_def)
    then show ?thesis using dash lo True unfolding status_text_def t by simp
  next
    case False
    then have "range_String r = FormatInt (mr_Lo r) @ CHR ''-'' # FormatInt (mr_Hi r)" by (simp add: range_String_def)
    then show ?thesis using dash lo unfolding status_text_def t by blast
  qed
qed

lemma Join_ends: "ps \<noteq> [] \<Longrightarrow> \<forall>p \<in> set ps. p \<noteq> [] \<Longrightarrow>
   Join sep ps \<noteq> [] \<and> hd (Join sep ps) = hd (hd ps) \<and> last (Join sep ps) = last (last ps)"
  by (induction sep ps rule: Join.induct) auto

text \<open>
  C37. The text the control plane stores for a parsed status list, \<^verbatim>\<open>String\<close>, is read back as the same set.
\<close>
theorem status_text_roundtrip:
  assumes "ParseMonitorStatusSet raw = Inr st"
  shows "ParseMonitorStatusSet (StatusSet_String st) = Inr st"
proof -
  obtain rs where rs: "list_all2 status_text (Split (CHR '','') (status_list raw)) rs" "length rs \<le> 16" "canonical_set st"
    using assms unfolding Parse_status by blast
  obtain us where us: "parse_status_entries (Split (CHR '','') (status_list raw)) = Inr us" "list_all range_ok us" "length us \<le> 16" "us \<noteq> []"
  proof (rule that)
    show "parse_status_entries (Split (CHR '','') (status_list raw)) = Inr rs" using rs(1) by (simp add: parse_status_entries_iff)
    show "list_all range_ok rs" by (rule status_texts_ok [OF rs(1)])
    show "rs \<noteq> []" using list_all2_lengthD [OF rs(1)] Split_nonempty by (metis length_0_conv)
  qed (rule rs(2))
  have len: "length st \<le> 16"
  proof -
    obtain r vs where "sort_key mr_Lo us = r # vs" "length (merge_ranges r vs) \<le> length us" using set_of_sorted [OF us(4,2)] by blast
    then show ?thesis using assms us(1,3) by (auto simp: ParseMonitorStatusSet_def Let_def split: if_splits)
  qed
  have ok: "range_ok r" if "r \<in> set st" for r using rs(3) that by (auto simp: canonical_set_def list_all_iff)
  have ne: "st \<noteq> []" using rs(3) by (simp add: canonical_set_def)
  let ?ps = "map range_String st"
  have ends: "StatusSet_String st \<noteq> [] \<and> hd (StatusSet_String st) = hd (hd ?ps) \<and> last (StatusSet_String st) = last (last ?ps)"
    unfolding StatusSet_String_def by (rule Join_ends) (use ne ok text_chars(1) in auto)
  moreover have "hd ?ps = range_String (hd st)" "last ?ps = range_String (last st)" using ne by (simp_all add: hd_map last_map)
  ultimately have "TrimSpace (StatusSet_String st) = StatusSet_String st"
    using text_chars(2) [OF ok [of "hd st"]] text_chars(3) [OF ok [of "last st"]] ne by (intro trim_digits) simp_all
  then have "Split (CHR '','') (status_list (StatusSet_String st)) = ?ps"
    using ends ne ok text_chars(4) unfolding status_list_def Let_def by (simp add: StatusSet_String_def Split_Join)
  moreover have "list_all2 status_text ?ps st" using ok status_text_String by (simp add: list_all2_conv_all_nth)
  ultimately show ?thesis unfolding Parse_status using len rs(3) by auto
qed

theorem status_text_roundtrip_witness:
  "ParseMonitorStatusSet (StatusSet_String [\<lparr>mr_Lo = 200, mr_Hi = 299\<rparr>, \<lparr>mr_Lo = 301, mr_Hi = 301\<rparr>])
     = Inr [\<lparr>mr_Lo = 200, mr_Hi = 299\<rparr>, \<lparr>mr_Lo = 301, mr_Hi = 301\<rparr>]"
proof (rule status_text_roundtrip)
  show "ParseMonitorStatusSet '' 301,200-250, 240 - 299'' = Inr [\<lparr>mr_Lo = 200, mr_Hi = 299\<rparr>, \<lparr>mr_Lo = 301, mr_Hi = 301\<rparr>]"
    by code_simp
qed

end
