(* ===== verification/Plan_Placeholder.thy ===== *)
theory Plan_Placeholder
  imports Go_Json_Encode
begin

text \<open>
  The placeholders of selection plans (\<^verbatim>\<open>src/model/selection_plan.go\<close>, with \<^verbatim>\<open>isUUIDv4\<close> of
  \<^verbatim>\<open>src/model/subscription_source_manifest.go\<close>): making one, reading one back, and counting every one in a
  document. The regular expressions of the source are kept as data, with the matching of \<^verbatim>\<open>regexp\<close>.
\<close>

section \<open>Regular expressions\<close>

text \<open>
  The expressions the source uses are sequences of character classes, each with the least and the most
  repetitions. All their classes are ASCII, so matching bytes is matching runes. \<^verbatim>\<open>rx_find\<close> is \<^verbatim>\<open>FindString\<close>
  of an expression anchored at the start: leftmost, each repetition as long as the rest allows. \<^verbatim>\<open>rx_match\<close> is
  \<^verbatim>\<open>MatchString\<close> of an expression anchored at both ends.
\<close>

datatype atom = Atom "char \<Rightarrow> bool" nat nat

type_synonym regexp = "atom list"

fun rx_find :: "regexp \<Rightarrow> string \<Rightarrow> string option" and rx_longest :: "(char \<Rightarrow> bool) \<Rightarrow> nat \<Rightarrow> nat \<Rightarrow> regexp \<Rightarrow> string \<Rightarrow> string option" where
  "rx_find [] s = Some []"
| "rx_find (Atom c lo hi # r) s = rx_longest c lo hi r s"
| "rx_longest c lo k r s =
     (case (if lo \<le> k \<and> k \<le> length s \<and> list_all c (take k s) then rx_find r (drop k s) else None) of
        Some m \<Rightarrow> Some (take k s @ m)
      | None \<Rightarrow> if k \<le> lo then None else rx_longest c lo (k - 1) r s)"

declare rx_longest.simps [simp del]

fun rx_match :: "regexp \<Rightarrow> string \<Rightarrow> bool" where
  "rx_match [] s \<longleftrightarrow> s = []"
| "rx_match (Atom c lo hi # r) s \<longleftrightarrow>
     list_ex (\<lambda>k. k \<le> length s \<and> list_all c (take k s) \<and> rx_match r (drop k s)) [lo..<Suc hi]"

abbreviation lit :: "char \<Rightarrow> atom" where "lit c \<equiv> Atom (\<lambda>x. x = c) 1 1"

definition lower_hex :: "char \<Rightarrow> bool" where
  "lower_hex c \<longleftrightarrow> (48 \<le> ord c \<and> ord c \<le> 57) \<or> (97 \<le> ord c \<and> ord c \<le> 102)"

definition variant_char :: "char \<Rightarrow> bool" where
  "variant_char c \<longleftrightarrow> c = CHR ''8'' \<or> c = CHR ''9'' \<or> c = CHR ''a'' \<or> c = CHR ''b''"

definition field_first :: "char \<Rightarrow> bool" where
  "field_first c \<longleftrightarrow> 97 \<le> ord c \<and> ord c \<le> 122"

definition field_char :: "char \<Rightarrow> bool" where
  "field_char c \<longleftrightarrow> (97 \<le> ord c \<and> ord c \<le> 122) \<or> (48 \<le> ord c \<and> ord c \<le> 57) \<or> c = CHR ''_''"

definition subscriptionSourceUUIDv4 :: regexp where
  "subscriptionSourceUUIDv4 =
     [Atom lower_hex 8 8, lit CHR ''-'', Atom lower_hex 4 4, lit CHR ''-'', lit CHR ''4'', Atom lower_hex 3 3, lit CHR ''-'',
      Atom variant_char 1 1, Atom lower_hex 3 3, lit CHR ''-'', Atom lower_hex 12 12]"

definition planPlaceholderField :: regexp where
  "planPlaceholderField = [Atom field_first 1 1, Atom field_char 0 31]"

definition planPlaceholderBody :: regexp where
  "planPlaceholderBody =
     [Atom lower_hex 8 8, lit CHR ''-'', Atom lower_hex 4 4, lit CHR ''-'', lit CHR ''4'', Atom lower_hex 3 3, lit CHR ''-'',
      Atom variant_char 1 1, Atom lower_hex 3 3, lit CHR ''-'', Atom lower_hex 12 12, lit CHR ''-'',
      Atom field_first 1 1, Atom field_char 0 31, lit CHR ''-'', Atom lower_hex 32 32]"

section \<open>Placeholders\<close>

definition PlanPlaceholderPrefix :: string where "PlanPlaceholderPrefix = ''LATTICE-SYN-''"
definition PlanPlaceholderRandomBytes :: nat where "PlanPlaceholderRandomBytes = 16"
definition MaxPlanPlaceholderFieldBytes :: nat where "MaxPlanPlaceholderFieldBytes = 32"
definition MaxPlanPlaceholderBytes :: nat where
  "MaxPlanPlaceholderBytes =
     length PlanPlaceholderPrefix + 36 + 1 + MaxPlanPlaceholderFieldBytes + 1 + 2 * PlanPlaceholderRandomBytes"

definition uuid_byte :: "nat \<Rightarrow> char \<Rightarrow> bool" where
  "uuid_byte i c \<longleftrightarrow>
     (if i = 8 \<or> i = 13 \<or> i = 18 \<or> i = 23 then c = CHR ''-''
      else if i = 14 then c = CHR ''4''
      else if i = 19 then variant_char c
      else lower_hex c)"

definition isUUIDv4 :: "string \<Rightarrow> bool" where
  "isUUIDv4 s \<longleftrightarrow> length s = 36 \<and> list_all (\<lambda>i. uuid_byte i (s ! i)) [0..<36]"

datatype placeholder_error = PlaceholderLine | PlaceholderField string | PlaceholderRandom | NotPlaceholder | PlaceholderMalformed

text \<open>What \<^verbatim>\<open>rand.Read\<close> gives is an argument: the bytes it filled the buffer with, or nothing when it failed.\<close>

definition NewPlanPlaceholder :: "string \<Rightarrow> string \<Rightarrow> bytes option \<Rightarrow> placeholder_error + string" where
  "NewPlanPlaceholder lineUUID field random =
     (if \<not> isUUIDv4 lineUUID then Inl PlaceholderLine
      else if \<not> rx_match planPlaceholderField field then Inl (PlaceholderField field)
      else case random of
        None \<Rightarrow> Inl PlaceholderRandom
      | Some bs \<Rightarrow> Inr (PlanPlaceholderPrefix @ lineUUID @ ''-'' @ field @ ''-'' @ hex_EncodeToString bs))"

definition splitPlaceholderBody :: "string \<Rightarrow> (string \<times> string) option" where
  "splitPlaceholderBody body =
     (let uuid = 36; random = 2 * PlanPlaceholderRandomBytes in
      if length body < uuid + 1 + 1 + 1 + random \<or> \<not> isUUIDv4 (take uuid body) \<or> body ! uuid \<noteq> CHR ''-'' then None
      else
        let rest = drop (uuid + 1) body;
            n = int (length rest) - int random - 1 in
        if n < 1 \<or> n > int MaxPlanPlaceholderFieldBytes \<or> rest ! nat n \<noteq> CHR ''-'' then None
        else
          let field = take (nat n) rest in
          if \<not> field_first (field ! 0) then None
          else if \<not> list_all field_char (drop 1 field) then None
          else if \<not> list_all lower_hex (drop (nat n + 1) rest) then None
          else Some (take uuid body, field))"

definition ParsePlanPlaceholder :: "string \<Rightarrow> placeholder_error + (string \<times> string)" where
  "ParsePlanPlaceholder v =
     (if \<not> HasPrefix v PlanPlaceholderPrefix then Inl NotPlaceholder
      else case splitPlaceholderBody (drop (length PlanPlaceholderPrefix) v) of
        None \<Rightarrow> Inl PlaceholderMalformed
      | Some (line, field) \<Rightarrow> Inr (line, field))"

section \<open>Counting\<close>

text \<open>\<^verbatim>\<open>strings.Index\<close>.\<close>

fun strings_Index :: "string \<Rightarrow> string \<Rightarrow> nat option" where
  "strings_Index s p =
     (if HasPrefix s p then Some 0 else case s of [] \<Rightarrow> None | c # t \<Rightarrow> map_option Suc (strings_Index t p))"

declare strings_Index.simps [simp del]

lemma strings_Index_Some: "strings_Index s p = Some i \<longleftrightarrow> i \<le> length s \<and> HasPrefix (drop i s) p \<and> (\<forall>j < i. \<not> HasPrefix (drop j s) p)"
proof (induction s arbitrary: i)
  case Nil
  then show ?case by (auto simp: strings_Index.simps)
next
  case (Cons c s)
  show ?case
  proof (cases i)
    case 0
    then show ?thesis by (auto simp: strings_Index.simps split: option.splits)
  next
    case (Suc k)
    then show ?thesis using Cons.IH [of k] by (auto simp: strings_Index.simps [of "c # s"] less_Suc_eq_0_disj)
  qed
qed

lemma HasPrefix_length: "HasPrefix s p \<Longrightarrow> length p \<le> length s"
  by (metis HasPrefix_def length_take min.cobounded1)

definition bump :: "(string \<rightharpoonup> nat) \<Rightarrow> string \<Rightarrow> (string \<rightharpoonup> nat)" where
  "bump counts p = counts(p \<mapsto> (case counts p of None \<Rightarrow> 0 | Some n \<Rightarrow> n) + 1)"

function count_loop :: "(string \<rightharpoonup> nat) \<Rightarrow> string \<Rightarrow> (string \<rightharpoonup> nat)" where
  "count_loop counts rest =
     (case strings_Index rest PlanPlaceholderPrefix of
        None \<Rightarrow> counts
      | Some at \<Rightarrow>
          let body = drop (at + length PlanPlaceholderPrefix) rest in
          case rx_find planPlaceholderBody (take (min (length body) MaxPlanPlaceholderBytes) body) of
            None \<Rightarrow> count_loop counts body
          | Some m \<Rightarrow>
              if m = [] then count_loop counts body
              else count_loop (bump counts (PlanPlaceholderPrefix @ m)) (drop (length m) body))"
  by pat_completeness auto
termination
proof (relation "measure (\<lambda>(counts, rest). length rest)", simp)
  fix counts :: "string \<rightharpoonup> nat" and rest at body
  assume "strings_Index rest PlanPlaceholderPrefix = Some at" and b: "body = drop (at + length PlanPlaceholderPrefix) rest"
  then have "HasPrefix (drop at rest) PlanPlaceholderPrefix" by (simp add: strings_Index_Some)
  then have l: "length body < length rest" using HasPrefix_length b by (fastforce simp: PlanPlaceholderPrefix_def)
  then show "((counts, body), counts, rest) \<in> measure (\<lambda>(counts, rest). length rest)" by simp
  then show "((counts, body), counts, rest) \<in> measure (\<lambda>(counts, rest). length rest)" .
  show "((bump counts (PlanPlaceholderPrefix @ m), drop (length m) body), counts, rest) \<in> measure (\<lambda>(counts, rest). length rest)" for m
    using l by simp
qed

declare count_loop.simps [simp del]

definition CountPlanPlaceholders :: "string \<Rightarrow> (string \<rightharpoonup> nat)" where
  "CountPlanPlaceholders document = count_loop Map.empty document"

section \<open>What the expressions match\<close>

lemma rx_longest_Some:
  "rx_longest c lo k r s = Some m \<Longrightarrow>
     \<exists>j m'. lo \<le> j \<and> j \<le> k \<and> j \<le> length s \<and> list_all c (take j s) \<and> rx_find r (drop j s) = Some m' \<and> m = take j s @ m'"
proof (induction k)
  case (Suc k)
  show ?case
  proof (cases "lo \<le> Suc k \<and> Suc k \<le> length s \<and> list_all c (take (Suc k) s) \<and> rx_find r (drop (Suc k) s) \<noteq> None")
    case True
    then show ?thesis using Suc.prems by (auto simp: rx_longest.simps [of c lo "Suc k"])
  next
    case False
    then have "rx_longest c lo k r s = Some m"
      using Suc.prems by (auto simp: rx_longest.simps [of c lo "Suc k"] split: if_splits option.splits)
    then show ?thesis using Suc.IH by (meson le_SucI)
  qed
next
  case 0
  then show ?case by (auto simp: rx_longest.simps [of c lo 0] split: if_splits option.splits)
qed

lemma rx_longest_None:
  "rx_longest c lo k r s = None \<Longrightarrow> lo \<le> j \<Longrightarrow> j \<le> k \<Longrightarrow> j \<le> length s \<Longrightarrow> list_all c (take j s) \<Longrightarrow> rx_find r (drop j s) = None"
proof (induction k)
  case (Suc k)
  show ?case
  proof (cases "j = Suc k")
    case True
    then show ?thesis using Suc.prems by (auto simp: rx_longest.simps [of c lo "Suc k"] split: option.splits)
  next
    case False
    then have "rx_longest c lo k r s = None" using Suc.prems
      by (auto simp: rx_longest.simps [of c lo "Suc k"] split: if_splits option.splits)
    then show ?thesis using Suc False by simp
  qed
next
  case 0
  then show ?case by (auto simp: rx_longest.simps [of c lo 0] split: option.splits)
qed

lemma rx_match_Atom:
  "rx_match (Atom c lo hi # r) s \<longleftrightarrow> (\<exists>a b. s = a @ b \<and> lo \<le> length a \<and> length a \<le> hi \<and> list_all c a \<and> rx_match r b)"
proof
  assume "rx_match (Atom c lo hi # r) s"
  then obtain k where k: "lo \<le> k" "k \<le> hi" "k \<le> length s" "list_all c (take k s)" "rx_match r (drop k s)"
    by (auto simp: list_ex_iff)
  then show "\<exists>a b. s = a @ b \<and> lo \<le> length a \<and> length a \<le> hi \<and> list_all c a \<and> rx_match r b"
    by (intro exI [of _ "take k s"] exI [of _ "drop k s"]) simp
next
  assume "\<exists>a b. s = a @ b \<and> lo \<le> length a \<and> length a \<le> hi \<and> list_all c a \<and> rx_match r b"
  then obtain a b where "s = a @ b" "lo \<le> length a" "length a \<le> hi" "list_all c a" "rx_match r b" by blast
  then show "rx_match (Atom c lo hi # r) s" by (auto simp: list_ex_iff intro!: bexI [of _ "length a"])
qed

lemma rx_match_append: "rx_match (r1 @ r2) s \<longleftrightarrow> (\<exists>a b. s = a @ b \<and> rx_match r1 a \<and> rx_match r2 b)"
proof (induction r1 arbitrary: s)
  case (Cons x r1)
  obtain c lo hi where x: "x = Atom c lo hi" by (cases x)
  show ?case unfolding x append_Cons rx_match_Atom Cons by (metis append_assoc)
qed simp

lemma rx_find_sound: "rx_find r s = Some m \<Longrightarrow> rx_match r m \<and> (\<exists>t. s = m @ t)"
proof (induction r arbitrary: s m)
  case (Cons x r)
  obtain c lo hi where x: "x = Atom c lo hi" by (cases x)
  from Cons.prems obtain j m' where j: "lo \<le> j" "j \<le> hi" "j \<le> length s" "list_all c (take j s)" "rx_find r (drop j s) = Some m'"
    and m: "m = take j s @ m'" unfolding x rx_find.simps using rx_longest_Some by blast
  from Cons.IH [OF j(5)] obtain t where "rx_match r m'" "drop j s = m' @ t" by blast
  then show ?case unfolding x rx_match_Atom m using j(1-4)
    by (metis append.assoc append_take_drop_id length_take min.absorb2)
qed simp

lemma rx_find_complete: "rx_match r m \<Longrightarrow> rx_find r (m @ t) \<noteq> None"
proof (induction r arbitrary: m)
  case (Cons x r)
  obtain c lo hi where x: "x = Atom c lo hi" by (cases x)
  from Cons.prems obtain a b where a: "m = a @ b" "lo \<le> length a" "length a \<le> hi" "list_all c a" "rx_match r b"
    unfolding x rx_match_Atom by blast
  show ?case
  proof
    assume "rx_find (x # r) (m @ t) = None"
    then have "rx_longest c lo hi r (m @ t) = None" by (simp add: x)
    from rx_longest_None [OF this a(2,3)] a(1,4) have "rx_find r (b @ t) = None" by simp
    then show False using Cons.IH [OF a(5)] by simp
  qed
qed simp

fun classes :: "regexp \<Rightarrow> (char \<Rightarrow> bool) list" where
  "classes [] = []"
| "classes (Atom c lo hi # r) = replicate lo c @ classes r"

fun fixed_length :: "regexp \<Rightarrow> bool" where
  "fixed_length [] \<longleftrightarrow> True"
| "fixed_length (Atom c lo hi # r) \<longleftrightarrow> lo = hi \<and> fixed_length r"

lemma list_all2_replicate:
  "list_all2 (\<lambda>c x. c x) (replicate k c @ cs) s \<longleftrightarrow> k \<le> length s \<and> list_all c (take k s) \<and> list_all2 (\<lambda>c x. c x) cs (drop k s)"
proof (induction k arbitrary: s)
  case (Suc k)
  then show ?case by (cases s) auto
qed simp

lemma rx_match_one: "rx_match (Atom c k k # r) s \<longleftrightarrow> k \<le> length s \<and> list_all c (take k s) \<and> rx_match r (drop k s)"
  by simp

lemma rx_match_fixed: "fixed_length r \<Longrightarrow> rx_match r s \<longleftrightarrow> list_all2 (\<lambda>c x. c x) (classes r) s"
proof (induction r arbitrary: s rule: classes.induct)
  case (2 c lo hi r)
  then have "lo = hi" "\<And>b. rx_match r b \<longleftrightarrow> list_all2 (\<lambda>c x. c x) (classes r) b" by simp_all
  then show ?case by (simp only: rx_match_one classes.simps list_all2_replicate)
qed simp

text \<open>The loop over a candidate's bytes is the expression it replaces.\<close>

lemma isUUIDv4_regexp: "isUUIDv4 s \<longleftrightarrow> rx_match subscriptionSourceUUIDv4 s"
proof -
  let ?h = lower_hex and ?m = "\<lambda>x. x = CHR ''-''"
  have "classes subscriptionSourceUUIDv4 = [?h, ?h, ?h, ?h, ?h, ?h, ?h, ?h, ?m, ?h, ?h, ?h, ?h, ?m, \<lambda>x. x = CHR ''4'', ?h, ?h, ?h, ?m,
      variant_char, ?h, ?h, ?h, ?m, ?h, ?h, ?h, ?h, ?h, ?h, ?h, ?h, ?h, ?h, ?h, ?h]"
    by (simp add: subscriptionSourceUUIDv4_def numeral_eq_Suc)
  also have "\<dots> = map uuid_byte [0..<36]" by (simp add: upt_rec uuid_byte_def fun_eq_iff)
  finally have c: "classes subscriptionSourceUUIDv4 = map uuid_byte [0..<36]" .
  have "fixed_length subscriptionSourceUUIDv4" by (simp add: subscriptionSourceUUIDv4_def)
  then show ?thesis by (auto simp: rx_match_fixed c isUUIDv4_def list_all2_conv_all_nth list_all_iff)
qed

lemma field_regexp: "rx_match planPlaceholderField f \<longleftrightarrow> f \<noteq> [] \<and> length f \<le> 32 \<and> field_first (f ! 0) \<and> list_all field_char (drop 1 f)"
proof -
  have last: "rx_match [Atom c 0 n] s \<longleftrightarrow> length s \<le> n \<and> list_all c s" for c n s
    by (auto simp: list_ex_iff intro!: bexI [of _ "length s"])
  show ?thesis unfolding planPlaceholderField_def rx_match_one last by (cases f) auto
qed

definition placeholder_parts :: "string \<Rightarrow> string \<Rightarrow> string \<Rightarrow> string \<Rightarrow> bool" where
  "placeholder_parts b line field hex \<longleftrightarrow>
     b = line @ CHR ''-'' # field @ CHR ''-'' # hex \<and> isUUIDv4 line \<and> rx_match planPlaceholderField field
     \<and> length hex = 32 \<and> list_all lower_hex hex"

lemma body_regexp: "rx_match planPlaceholderBody b \<longleftrightarrow> (\<exists>line field hex. placeholder_parts b line field hex)"
proof -
  have parts: "planPlaceholderBody = subscriptionSourceUUIDv4 @ [lit CHR ''-''] @ planPlaceholderField @ [lit CHR ''-''] @ [Atom lower_hex 32 32]"
    by (simp add: planPlaceholderBody_def subscriptionSourceUUIDv4_def planPlaceholderField_def)
  have dash: "rx_match [lit c] a \<longleftrightarrow> a = [c]" for c a by (cases a) auto
  have hex: "rx_match [Atom lower_hex 32 32] a \<longleftrightarrow> length a = 32 \<and> list_all lower_hex a" for a by auto
  show ?thesis
  proof
    assume "rx_match planPlaceholderBody b"
    then obtain u f h where "b = u @ [CHR ''-''] @ f @ [CHR ''-''] @ h" "isUUIDv4 u" "rx_match planPlaceholderField f" "length h = 32" "list_all lower_hex h"
      unfolding parts rx_match_append dash hex isUUIDv4_regexp [symmetric] by blast
    then have "placeholder_parts b u f h" by (simp add: placeholder_parts_def)
    then show "\<exists>line field hex. placeholder_parts b line field hex" by blast
  next
    assume "\<exists>line field hex. placeholder_parts b line field hex"
    then obtain u f h where "placeholder_parts b u f h" by blast
    then have "b = u @ [CHR ''-''] @ f @ [CHR ''-''] @ h" "isUUIDv4 u" "rx_match planPlaceholderField f" "length h = 32" "list_all lower_hex h"
      by (simp_all add: placeholder_parts_def)
    then show "rx_match planPlaceholderBody b" unfolding parts rx_match_append dash hex isUUIDv4_regexp [symmetric] by blast
  qed
qed

text \<open>The parts of a text are determined by it, and by any text that continues it.\<close>

lemma lower_hex_char: "lower_hex c \<Longrightarrow> c \<noteq> CHR ''-'' \<and> c \<noteq> CHR ''L''" "field_char c \<Longrightarrow> c \<noteq> CHR ''-'' \<and> c \<noteq> CHR ''L''"
  "field_first c \<Longrightarrow> field_char c" "variant_char c \<Longrightarrow> c \<noteq> CHR ''L''"
  by (auto simp: lower_hex_def field_char_def field_first_def variant_char_def ord_def)

lemma field_no_dash: "rx_match planPlaceholderField f \<Longrightarrow> c \<in> set f \<Longrightarrow> field_char c"
  unfolding field_regexp by (cases f) (auto simp: list_all_iff lower_hex_char)

lemma parts_unique:
  assumes "placeholder_parts b line field hex" and "placeholder_parts b' line' field' hex'" and "b @ t = b' @ t'"
  shows "line = line' \<and> field = field' \<and> hex = hex'"
proof -
  note d = assms(1,2) [unfolded placeholder_parts_def]
  have "length line = length line'" using d by (simp add: isUUIDv4_def)
  then have l: "line = line'" and "field @ CHR ''-'' # hex @ t = field' @ CHR ''-'' # hex' @ t'" using assms(3) d by auto
  moreover have "CHR ''-'' \<notin> set field" "CHR ''-'' \<notin> set field'" using d field_no_dash lower_hex_char(2) by blast+
  ultimately have f: "field = field'" and "hex @ t = hex' @ t'" by (auto simp: append_eq_append_conv2 Cons_eq_append_conv append_eq_Cons_conv)
  then show ?thesis using l d by auto
qed

section \<open>Reading placeholders back\<close>

lemma length_prefix [simp]: "length PlanPlaceholderPrefix = 12"
  by (simp add: PlanPlaceholderPrefix_def)

lemma HasPrefix_iff: "HasPrefix s p \<longleftrightarrow> (\<exists>t. s = p @ t)"
  unfolding HasPrefix_def by (metis append_eq_conv_conj)

lemma split_iff: "splitPlaceholderBody b = Some (line, field) \<longleftrightarrow> (\<exists>hex. placeholder_parts b line field hex)"
proof
  assume "\<exists>hex. placeholder_parts b line field hex"
  then obtain hex where d: "b = line @ CHR ''-'' # field @ CHR ''-'' # hex" "isUUIDv4 line" "length hex = 32" "list_all lower_hex hex"
    and f: "field \<noteq> []" "length field \<le> 32" "field_first (field ! 0)" "list_all field_char (drop 1 field)"
    unfolding placeholder_parts_def field_regexp by blast
  have "length line = 36" using d(2) by (simp add: isUUIDv4_def)
  moreover have "length field \<ge> 1" using f(1) by (cases field) auto
  moreover have "nat (int (length field + 33) - 33) = length field" by simp
  ultimately show "splitPlaceholderBody b = Some (line, field)"
    unfolding splitPlaceholderBody_def d(1) using d(2-4) f
    by (simp add: Let_def PlanPlaceholderRandomBytes_def MaxPlanPlaceholderFieldBytes_def nth_append)
next
  assume s: "splitPlaceholderBody b = Some (line, field)"
  let ?rest = "drop 37 b"
  let ?n = "length ?rest - 33"
  have l: "71 \<le> length b" and u: "isUUIDv4 (take 36 b)" "b ! 36 = CHR ''-''" and line: "line = take 36 b"
    using s unfolding splitPlaceholderBody_def by (auto simp: Let_def PlanPlaceholderRandomBytes_def split: if_splits)
  have n: "nat (int (length b) - 70) = length b - 70" "37 + (length b - 70) = length b - 33" "38 + (length b - 70) = Suc (length b - 33)" using l by simp_all
  have f: "?n \<ge> 1" "?n \<le> 32" "?rest ! ?n = CHR ''-''" "field = take ?n ?rest" "field_first (field ! 0)" "list_all field_char (drop 1 field)"
    "list_all lower_hex (drop (?n + 1) ?rest)"
    using s l unfolding splitPlaceholderBody_def
    by (auto simp: Let_def PlanPlaceholderRandomBytes_def MaxPlanPlaceholderFieldBytes_def n split: if_splits)
  have "b = take 36 b @ b ! 36 # ?rest" using id_take_nth_drop [of 36 b] l by simp
  moreover have "?rest = take ?n ?rest @ ?rest ! ?n # drop (?n + 1) ?rest" using id_take_nth_drop [of ?n ?rest] l by simp
  ultimately have "b = line @ CHR ''-'' # field @ CHR ''-'' # drop (?n + 1) ?rest" using u(2) f(3) line f(4) by metis
  moreover have "length field = ?n" using l f(4) by simp
  moreover from this have "rx_match planPlaceholderField field" unfolding field_regexp using f by auto
  moreover have "length (drop (?n + 1) ?rest) = 32" using l by simp
  ultimately show "\<exists>hex. placeholder_parts b line field hex" using u(1) f(7) line unfolding placeholder_parts_def by blast
qed

lemma Parse_iff: "ParsePlanPlaceholder v = Inr (line, field) \<longleftrightarrow> (\<exists>b hex. v = PlanPlaceholderPrefix @ b \<and> placeholder_parts b line field hex)"
proof -
  have "ParsePlanPlaceholder v = Inr (line, field) \<longleftrightarrow>
      HasPrefix v PlanPlaceholderPrefix \<and> splitPlaceholderBody (drop (length PlanPlaceholderPrefix) v) = Some (line, field)"
    by (auto simp: ParsePlanPlaceholder_def split: option.splits)
  then show ?thesis unfolding split_iff HasPrefix_iff by auto
qed

lemma unhex:
  "list_all lower_hex h \<Longrightarrow> length h = 2 * n \<Longrightarrow> \<exists>bs. length bs = n \<and> hex_EncodeToString bs = h"
proof (induction n arbitrary: h)
  case (Suc n)
  then obtain c d t where h: "h = c # d # t" by (cases h; cases "tl h") auto
  then obtain bs where bs: "length bs = n" "hex_EncodeToString bs = t" using Suc.IH [of t] Suc.prems by auto
  let ?v = "\<lambda>c. if ord c < 58 then ord c - 48 else ord c - 87"
  have v: "?v x < 16 \<and> hex_char (?v x) = x" if "lower_hex x" for x
    using that by (auto simp: lower_hex_def hex_char_def)
  have cd: "lower_hex c" "lower_hex d" using Suc.prems(1) h by auto
  let ?b = "word_of_nat (16 * ?v c + ?v d) :: byte"
  have "16 * ?v c + ?v d < 256" using v [OF cd(1)] v [OF cd(2)] by linarith
  then have "unat ?b = 16 * ?v c + ?v d" unfolding unat_of_nat by (subst mod_less) simp_all
  then have "unat ?b div 16 = ?v c" "unat ?b mod 16 = ?v d" using v [OF cd(2)] by simp_all
  then have "hex_EncodeToString (?b # bs) = h" using v [OF cd(1)] v [OF cd(2)] bs(2) h by (simp add: hex_EncodeToString_def)
  then show ?case using bs(1) by (intro exI [of _ "?b # bs"]) simp
qed (simp add: hex_EncodeToString_def)

lemma hex_lower: "list_all lower_hex (hex_EncodeToString bs)"
  by (rule hex_parts) (auto simp: lower_hex_def dest: hex_digest)

text \<open>
  C38. A text is read as the placeholder of a line and a field exactly when it is one made for them from some
  sixteen random bytes, and exactly when what follows its prefix matches the expression
  \<^verbatim>\<open>planPlaceholderBody\<close> in full: the hand-written parser accepts nothing the generator does not make.
\<close>
theorem placeholder_roundtrip:
  "(ParsePlanPlaceholder v = Inr (line, field) \<longleftrightarrow>
     (\<exists>random. length random = PlanPlaceholderRandomBytes \<and> NewPlanPlaceholder line field (Some random) = Inr v))
   \<and> ((\<exists>parts. ParsePlanPlaceholder v = Inr parts) \<longleftrightarrow> (\<exists>b. v = PlanPlaceholderPrefix @ b \<and> rx_match planPlaceholderBody b))"
proof
  have "(\<exists>random. length random = 16 \<and> NewPlanPlaceholder line field (Some random) = Inr v) \<longleftrightarrow>
      (\<exists>hex. isUUIDv4 line \<and> rx_match planPlaceholderField field \<and> length hex = 32 \<and> list_all lower_hex hex
         \<and> v = PlanPlaceholderPrefix @ line @ ''-'' @ field @ ''-'' @ hex)" (is "?l \<longleftrightarrow> ?r")
  proof
    assume ?l
    then show ?r by (auto simp: NewPlanPlaceholder_def hex_lower intro!: exI [of _ "hex_EncodeToString _"] split: if_splits)
  next
    assume ?r
    then obtain hex where h: "isUUIDv4 line" "rx_match planPlaceholderField field" "length hex = 2 * 16" "list_all lower_hex hex"
        "v = PlanPlaceholderPrefix @ line @ ''-'' @ field @ ''-'' @ hex" by auto
    from unhex [OF h(4,3)] show ?l using h by (auto simp: NewPlanPlaceholder_def)
  qed
  then show "ParsePlanPlaceholder v = Inr (line, field) \<longleftrightarrow>
     (\<exists>random. length random = PlanPlaceholderRandomBytes \<and> NewPlanPlaceholder line field (Some random) = Inr v)"
    unfolding Parse_iff PlanPlaceholderRandomBytes_def by (auto simp: placeholder_parts_def)
  show "(\<exists>parts. ParsePlanPlaceholder v = Inr parts) \<longleftrightarrow> (\<exists>b. v = PlanPlaceholderPrefix @ b \<and> rx_match planPlaceholderBody b)"
    unfolding split_paired_Ex Parse_iff body_regexp by blast
qed

section \<open>Every placeholder is counted\<close>

text \<open>How often a text occurs in another, overlaps included.\<close>

definition occurrences :: "string \<Rightarrow> string \<Rightarrow> nat" where
  "occurrences p d = card {i. HasPrefix (drop i d) p}"

definition is_placeholder :: "string \<Rightarrow> bool" where
  "is_placeholder p \<longleftrightarrow> (\<exists>parts. ParsePlanPlaceholder p = Inr parts)"

lemma is_placeholder_iff: "is_placeholder p \<longleftrightarrow> (\<exists>b. p = PlanPlaceholderPrefix @ b \<and> rx_match planPlaceholderBody b)"
  unfolding is_placeholder_def split_paired_Ex Parse_iff body_regexp by blast

lemma strings_Index_None: "strings_Index s p = None \<Longrightarrow> \<not> HasPrefix (drop j s) p"
proof (induction s arbitrary: j)
  case Nil
  then show ?case by (simp add: strings_Index.simps [of "[]"] split: if_splits)
next
  case (Cons c s)
  then show ?case by (cases j) (auto simp: strings_Index.simps [of "c # s"] split: if_splits)
qed

lemma occurrences_finite: "p \<noteq> [] \<Longrightarrow> finite {i. HasPrefix (drop i d) p}"
proof (rule finite_subset [of _ "{..<length d}"])
  assume p: "p \<noteq> []"
  have "i < length d" if "HasPrefix (drop i d) p" for i using that p by (cases "i < length d") (simp_all add: HasPrefix_iff)
  then show "{i. HasPrefix (drop i d) p} \<subseteq> {..<length d}" by auto
qed simp

lemma occurrences_skip:
  assumes "p \<noteq> []" and "\<And>i. i < k \<Longrightarrow> \<not> HasPrefix (drop i d) p"
  shows "occurrences p d = occurrences p (drop k d)"
proof -
  have "{i. HasPrefix (drop i d) p} = (\<lambda>i. i + k) ` {i. HasPrefix (drop i (drop k d)) p}"
  proof (intro set_eqI iffI)
    fix i
    assume "i \<in> {i. HasPrefix (drop i d) p}"
    then have h: "HasPrefix (drop i d) p" by simp
    then have "i \<ge> k" using assms(2) [of i] not_less by blast
    moreover from this h have "HasPrefix (drop (i - k) (drop k d)) p" by simp
    ultimately
    show "i \<in> (\<lambda>i. i + k) ` {i. HasPrefix (drop i (drop k d)) p}" by (intro image_eqI [of _ _ "i - k"]) auto
  qed (auto simp: add.commute)
  then show ?thesis by (simp add: occurrences_def card_image inj_on_def)
qed

lemma occurrences_step: "p \<noteq> [] \<Longrightarrow> occurrences p (c # d) = (if HasPrefix (c # d) p then 1 else 0) + occurrences p d"
proof -
  assume p: "p \<noteq> []"
  have "{i. HasPrefix (drop i (c # d)) p} = {i. i = 0 \<and> HasPrefix (c # d) p} \<union> Suc ` {i. HasPrefix (drop i d) p}"
  proof (intro set_eqI)
    fix i
    show "i \<in> {i. HasPrefix (drop i (c # d)) p} \<longleftrightarrow> i \<in> {i. i = 0 \<and> HasPrefix (c # d) p} \<union> Suc ` {i. HasPrefix (drop i d) p}"
      by (cases i) auto
  qed
  moreover have "finite {i. HasPrefix (drop i d) p}" by (rule occurrences_finite [OF p])
  ultimately show ?thesis
    by (subst occurrences_def) (auto simp: card_Un_disjoint card_image occurrences_def)
qed

text \<open>A placeholder starts with a letter that occurs nowhere else in it.\<close>

lemma prefix_L: "HasPrefix s PlanPlaceholderPrefix \<Longrightarrow> \<exists>t. s = CHR ''L'' # t"
  unfolding HasPrefix_iff PlanPlaceholderPrefix_def by auto

lemma uuid_no_L: "isUUIDv4 u \<Longrightarrow> CHR ''L'' \<notin> set u"
proof
  assume u: "isUUIDv4 u" and "CHR ''L'' \<in> set u"
  then obtain i where "i < length u" "u ! i = CHR ''L''" by (auto simp: in_set_conv_nth)
  moreover have "\<not> uuid_byte i CHR ''L''" for i by (simp add: uuid_byte_def variant_char_def lower_hex_def ord_def)
  ultimately show False using u by (simp add: isUUIDv4_def list_all_iff) (metis atLeastLessThan_iff le0)
qed

lemma body_no_L: "rx_match planPlaceholderBody m \<Longrightarrow> CHR ''L'' \<notin> set m"
proof -
  assume "rx_match planPlaceholderBody m"
  then obtain u f h where d: "m = u @ CHR ''-'' # f @ CHR ''-'' # h" "isUUIDv4 u" "rx_match planPlaceholderField f" "list_all lower_hex h"
    unfolding body_regexp placeholder_parts_def by blast
  have "CHR ''L'' \<notin> set f" "CHR ''L'' \<notin> set h" using d(3,4) field_no_dash lower_hex_char(1,2) by (fastforce simp: list_all_iff)+
  then show ?thesis using uuid_no_L [OF d(2)] by (simp add: d(1))
qed

lemma no_start_inside:
  assumes "CHR ''L'' \<notin> set a" and "i < length a"
  shows "\<not> HasPrefix (drop i (a @ t)) (PlanPlaceholderPrefix @ b)"
proof
  assume "HasPrefix (drop i (a @ t)) (PlanPlaceholderPrefix @ b)"
  then have "drop i (a @ t) = CHR ''L'' # tl (drop i (a @ t))" by (auto simp: HasPrefix_iff PlanPlaceholderPrefix_def)
  then have "a ! i = CHR ''L''" using assms(2) by (metis Cons_nth_drop_Suc length_append list.inject nth_append trans_less_add1)
  then show False using assms by (metis nth_mem)
qed

lemma rx_find_body:
  assumes "rx_match planPlaceholderBody b"
  shows "rx_find planPlaceholderBody (take MaxPlanPlaceholderBytes (b @ t)) = Some b"
proof -
  obtain u f h where b: "placeholder_parts b u f h" using assms body_regexp by blast
  then have "length u = 36" "length f \<le> 32" "length h = 32" "b = u @ CHR ''-'' # f @ CHR ''-'' # h"
    by (simp_all add: placeholder_parts_def isUUIDv4_def field_regexp)
  then have "length b \<le> MaxPlanPlaceholderBytes"
    by (simp add: MaxPlanPlaceholderBytes_def MaxPlanPlaceholderFieldBytes_def PlanPlaceholderRandomBytes_def)
  then obtain t' where t: "take MaxPlanPlaceholderBytes (b @ t) = b @ t'" by simp
  obtain m where m: "rx_find planPlaceholderBody (b @ t') = Some m" using rx_find_complete [OF assms, of t'] by blast
  obtain t'' where m': "rx_match planPlaceholderBody m" "b @ t' = m @ t''" using rx_find_sound [OF m] by blast
  then obtain u' f' h' where p: "placeholder_parts m u' f' h'" using body_regexp by blast
  have "m = b" using parts_unique [OF b p m'(2)] b p by (simp add: placeholder_parts_def)
  then show ?thesis using m t by simp
qed

lemma body_nonempty: "rx_match planPlaceholderBody b \<Longrightarrow> b \<noteq> []"
  unfolding body_regexp placeholder_parts_def by auto

text \<open>One round of the loop: what comes before the next prefix holds no placeholder, and the text after that
  prefix either starts with the one body that completes it or completes none.\<close>

lemma occurrences_round:
  assumes p: "is_placeholder p" and at: "strings_Index rest PlanPlaceholderPrefix = Some at"
  defines "body \<equiv> drop (at + length PlanPlaceholderPrefix) rest"
  shows "occurrences p rest =
    (case rx_find planPlaceholderBody (take (min (length body) MaxPlanPlaceholderBytes) body) of
       None \<Rightarrow> occurrences p body
     | Some m \<Rightarrow> (if p = PlanPlaceholderPrefix @ m then 1 else 0) + occurrences p (drop (length m) body))"
proof -
  obtain b where b: "p = PlanPlaceholderPrefix @ b" "rx_match planPlaceholderBody b" using p is_placeholder_iff by blast
  have ne: "p \<noteq> []" by (simp add: b(1) PlanPlaceholderPrefix_def)
  have i: "HasPrefix (drop at rest) PlanPlaceholderPrefix" "\<And>j. j < at \<Longrightarrow> \<not> HasPrefix (drop j rest) PlanPlaceholderPrefix"
    using at by (auto simp: strings_Index_Some)
  then have "occurrences p rest = occurrences p (drop at rest)"
    by (intro occurrences_skip [OF ne]) (auto simp: HasPrefix_iff b(1))
  also have "drop at rest = PlanPlaceholderPrefix @ body" 
  proof -
    obtain t where t: "drop at rest = PlanPlaceholderPrefix @ t" using i(1) HasPrefix_iff by blast
    have "body = drop 12 (drop at rest)" by (simp add: body_def add.commute)
    then show ?thesis by (simp add: t)
  qed
  also have "PlanPlaceholderPrefix @ body = CHR ''L'' # ''ATTICE-SYN-'' @ body" by (simp add: PlanPlaceholderPrefix_def)
  also have "occurrences p \<dots> = (if HasPrefix (PlanPlaceholderPrefix @ body) p then 1 else 0) + occurrences p (''ATTICE-SYN-'' @ body)"
    unfolding occurrences_step [OF ne] by (simp add: PlanPlaceholderPrefix_def)
  finally have o: "occurrences p rest = (if HasPrefix body b then 1 else 0) + occurrences p (''ATTICE-SYN-'' @ body)"
    by (simp add: HasPrefix_iff b(1))
  have t: "take (min (length body) MaxPlanPlaceholderBytes) body = take MaxPlanPlaceholderBytes body" by (simp add: min_def)
  have skip: "occurrences p (''ATTICE-SYN-'' @ m @ t) = occurrences p t" if "CHR ''L'' \<notin> set m" for m t
  proof -
    have "\<not> HasPrefix (drop i ((''ATTICE-SYN-'' @ m) @ t)) p" if "i < length (''ATTICE-SYN-'' @ m)" for i
      unfolding b(1) using that \<open>CHR ''L'' \<notin> set m\<close> by (intro no_start_inside) auto
    from occurrences_skip [OF ne this] show ?thesis by simp
  qed
  show ?thesis
  proof (cases "rx_find planPlaceholderBody (take MaxPlanPlaceholderBytes body)")
    case None
    then have "\<not> HasPrefix body b" using rx_find_body [OF b(2)] by (auto simp: HasPrefix_iff)
    then show ?thesis unfolding o t None using skip [of "[]" body] by simp
  next
    case (Some m)
    then obtain s where m: "rx_match planPlaceholderBody m" "body = m @ s"
      using rx_find_sound by (metis append.assoc append_take_drop_id)
    have "HasPrefix body b \<longleftrightarrow> b = m"
    proof
      assume "HasPrefix body b"
      then show "b = m" using rx_find_body [OF b(2)] Some by (auto simp: HasPrefix_iff)
    qed (simp add: m(2) HasPrefix_iff)
    then show ?thesis unfolding o t Some using skip [OF body_no_L [OF m(1)], of s] by (simp add: m(2) b(1))
  qed
qed

definition tally :: "nat option \<Rightarrow> nat \<Rightarrow> nat option" where
  "tally c n = (if n = 0 then c else Some ((case c of None \<Rightarrow> 0 | Some k \<Rightarrow> k) + n))"

lemma tally_simps [simp]: "tally c 0 = c" "tally (Some k) n = Some (k + n)" "tally None (Suc n) = Some (Suc n)"
  by (simp_all add: tally_def)

lemma tally_tally: "tally (tally c k) n = tally c (k + n)"
  by (simp add: tally_def)

lemma count_loop_spec: "count_loop counts rest p = tally (counts p) (if is_placeholder p then occurrences p rest else 0)"
proof (induction counts rest rule: count_loop.induct)
  case (1 counts rest)
  show ?case
  proof (cases "strings_Index rest PlanPlaceholderPrefix")
    case None
    have "occurrences p rest = 0" if "is_placeholder p"
    proof -
      have "\<not> HasPrefix (drop i rest) p" for i
        using strings_Index_None [OF None, of i] that by (auto simp: HasPrefix_iff is_placeholder_iff)
      then show ?thesis by (simp add: occurrences_def)
    qed
    then show ?thesis using None by (simp add: count_loop.simps [of counts rest])
  next
    case (Some at)
    define body where "body = drop (at + length PlanPlaceholderPrefix) rest"
    define found where "found = rx_find planPlaceholderBody (take (min (length body) MaxPlanPlaceholderBytes) body)"
    note round = occurrences_round [OF _ Some, folded body_def, folded found_def]
    show ?thesis
    proof (cases found)
      case None
      then have "count_loop counts rest = count_loop counts body" using Some found_def body_def
        by (simp add: count_loop.simps [of counts rest] Let_def)
      then show ?thesis using 1(1) [OF Some body_def] round None found_def by simp
    next
      case f: (Some m)
      have m: "rx_match planPlaceholderBody m" using rx_find_sound f found_def by metis
      then have ne: "m \<noteq> []" by (rule body_nonempty)
      have "count_loop counts rest = count_loop (bump counts (PlanPlaceholderPrefix @ m)) (drop (length m) body)"
        using Some f ne found_def body_def by (simp add: count_loop.simps [of counts rest] Let_def)
      moreover have "is_placeholder (PlanPlaceholderPrefix @ m)" using m is_placeholder_iff by blast
      moreover have "bump counts q p = tally (counts p) (if p = q then 1 else 0)" for q by (simp add: bump_def tally_def)
      ultimately show ?thesis using 1(3) [OF Some body_def _ ne] f round found_def by (simp add: tally_tally) 
    qed
  qed
qed

text \<open>
  C39. The count of a document is exact: it holds every well-formed placeholder that occurs in it anywhere, inside a longer word
  or next to a truncated one included, with the number of its occurrences, and nothing else.
\<close>
theorem CountPlanPlaceholders_exact:
  "CountPlanPlaceholders document p =
     (if (\<exists>parts. ParsePlanPlaceholder p = Inr parts) \<and> card {i. HasPrefix (drop i document) p} > 0
      then Some (card {i. HasPrefix (drop i document) p}) else None)"
  by (simp add: CountPlanPlaceholders_def count_loop_spec occurrences_def tally_def is_placeholder_def)

end
