(* ===== verification/Strictjson_Tree.thy ===== *)
theory Strictjson_Tree
  imports Strictjson_Decode
begin

text \<open>
  The converse of \<^verbatim>\<open>Strictjson_Decode\<close>: a document the decoder of \<^verbatim>\<open>encoding/json\<close> reads and the token walk finds
  no repeated key and no number out of range in is of the scanner's grammar, but for its depth, and so is
  every value inside it. So the bytes of such a value are a document the walk accepts again.
\<close>

text \<open>A property of a tree and of every tree inside it.\<close>

fun all_sub :: "(json \<Rightarrow> bool) \<Rightarrow> json \<Rightarrow> bool" where
  "all_sub P JNull = P JNull"
| "all_sub P (JBool b) = P (JBool b)"
| "all_sub P (JNumber s) = P (JNumber s)"
| "all_sub P (JString s) = P (JString s)"
| "all_sub P (JArray s js) = (P (JArray s js) \<and> list_all (all_sub P) js)"
| "all_sub P (JObject s ms) = (P (JObject s ms) \<and> list_all (\<lambda>kj. all_sub P (snd kj)) ms)"

lemma all_subD: "all_sub P j \<Longrightarrow> P j"
  by (cases j) simp_all

definition readable :: "json \<Rightarrow> bool" where
  "readable j \<longleftrightarrow> (\<exists>n \<le> maxNestingDepth. json_value ws n (raw_of j))"

section \<open>Scalars\<close>

lemma lit_body_sound: "lit_body s = Some (b, r) \<Longrightarrow> s = b @ CHR 0x22 # r \<and> str_body b"
proof (induction s arbitrary: b rule: lit_body.induct)
  case (2 c s)
  show ?case
  proof (cases "c = CHR 0x22")
    case True
    then show ?thesis using 2 by simp
  next
    case q: False
    show ?thesis
    proof (cases "c = CHR 0x5C")
      case c: True
      then obtain e s' where s: "s = e # s'" using 2(4) q by (cases s) auto
      show ?thesis
      proof (cases "simple_escape e = None")
        case False
        then obtain b' where "lit_body s' = Some (b', r)" "b = c # e # b'" using 2(4) q c s by auto
        then show ?thesis using 2(1) [OF q c s False] False c s q by auto
      next
        case e: True
        then obtain c1 c2 c3 c4 s4 b' where h: "e = CHR ''u''" "s' = c1 # c2 # c3 # c4 # s4" "list_all hex_digit [c1, c2, c3, c4]"
            "lit_body s4 = Some (b', r)" "b = c # e # c1 # c2 # c3 # c4 # b'"
          using 2(4) q c s by (auto split: if_splits list.splits)
        then have "s4 = b' @ CHR 0x22 # r \<and> str_body b'" using 2(2) [OF q c s _ h(1,2)] e by simp
        then show ?thesis using h e c s q by simp
      qed
    next
      case c: False
      then obtain b' where b: "\<not> ord c < 0x20" "lit_body s = Some (b', r)" "b = c # b'" using 2(4) q by (auto split: if_splits)
      then show ?thesis using 2(3) [OF q c b(1,2)] q c by simp
    qed
  qed
qed simp

lemma span_digits: "s = takeWhile is_digit s @ dropWhile is_digit s" "list_all is_digit (takeWhile is_digit s)"
  by (auto simp: list_all_iff dest: set_takeWhileD)

lemma num_prefix_sound:
  assumes "num_prefix s = Some (w, t)"
  shows "s = w @ t \<and> (num_text w \<or> ParseFloat_range_error w)"
proof -
  obtain sg s1 where sg: "num_sign s = (sg, s1)" by fastforce
  then have s: "s = sg @ s1" "sg \<in> {[], ''-''}" by (auto simp: num_sign_def hd_Cons_tl split: if_splits) (metis hd_Cons_tl)
  obtain wh s2 fr s3 ex where p: "num_whole s1 = Some (wh, s2)" "num_frac s2 = Some (fr, s3)" "num_exp s3 = Some (ex, t)" "w = sg @ wh @ fr @ ex"
    using assms by (auto simp: num_prefix_def sg split: option.splits)
  have 1: "s1 = wh @ s2 \<and> whole_text wh"
  proof (cases "s1 \<noteq> [] \<and> hd s1 = CHR ''0''")
    case True
    then have "wh = ''0''" "s2 = tl s1" using p(1) by (auto simp: num_whole_def)
    then show ?thesis using True by (cases s1) (simp_all add: whole_text_def)
  next
    case False
    then have d: "s1 \<noteq> []" "is_digit (hd s1)" "wh = takeWhile is_digit s1" "s2 = dropWhile is_digit s1"
      using p(1) by (auto simp: num_whole_def split: if_splits)
    then have "wh \<noteq> []" "hd wh = hd s1" by (cases s1; simp)+
    then show ?thesis using d False span_digits [of s1] by (simp add: whole_text_def digits_only_def)
  qed
  have 2: "s2 = fr @ s3 \<and> frac_text fr"
  proof (cases "s2 \<noteq> [] \<and> hd s2 = CHR ''.''")
    case True
    then have "takeWhile is_digit (tl s2) \<noteq> []" "fr = CHR ''.'' # takeWhile is_digit (tl s2)" "s3 = dropWhile is_digit (tl s2)"
      using p(2) by (auto simp: num_frac_def split: if_splits)
    then show ?thesis using True span_digits [of "tl s2"] by (cases s2) (auto simp: frac_text_def digits_only_def)
  next
    case False
    then show ?thesis using p(2) by (auto simp: num_frac_def frac_text_def)
  qed
  have 3: "s3 = ex @ t \<and> exp_text ex"
  proof (cases "s3 \<noteq> [] \<and> (hd s3 = CHR ''e'' \<or> hd s3 = CHR ''E'')")
    case True
    define sg' where "sg' = (if tl s3 \<noteq> [] \<and> (hd (tl s3) = CHR ''+'' \<or> hd (tl s3) = CHR ''-'') then [hd (tl s3)] else [])"
    define u where "u = drop (length sg') (tl s3)"
    have x: "takeWhile is_digit u \<noteq> []" "ex = hd s3 # sg' @ takeWhile is_digit u" "t = dropWhile is_digit u"
      using p(3) True by (auto simp: num_exp_def Let_def sg'_def u_def split: if_splits)
    have u: "tl s3 = sg' @ u" "sg' \<in> {[], ''+'', ''-''}" by (cases "tl s3"; simp add: sg'_def u_def; fail)+
    have "s3 = hd s3 # sg' @ takeWhile is_digit u @ dropWhile is_digit u" using True u(1) span_digits(1) [of u] by (metis hd_Cons_tl)
    then have "s3 = ex @ t" using x(2,3) by simp
    moreover have "digits_only (takeWhile is_digit u)" using x(1) span_digits(2) [of u] by (simp add: digits_only_def)
    ultimately show ?thesis using True u(2) x(2) unfolding exp_text_def by blast
  next
    case False
    then have "ex = []" "t = s3" using p(3) unfolding num_exp_def by (simp_all split: if_splits)
    then show ?thesis by (simp add: exp_text_def)
  qed
  show ?thesis using s 1 2 3 p(4) unfolding num_text_def by auto
qed

lemma HasPrefix_drop: "HasPrefix s p \<Longrightarrow> s = p @ drop (length p) s"
  unfolding HasPrefix_def by (metis append_take_drop_id)

lemma scalar_parsed:
  assumes "scalar_body s = Some (j, t)" and "walk j"
  shows "s = raw_of j @ t \<and> json_value ws n (raw_of j) \<and> (\<forall>P. all_sub P j = P j)"
proof (cases "starts CHR 0x22 s")
  case True
  then obtain s' where s: "s = CHR 0x22 # s'" by (cases s) (auto simp: starts_def)
  then obtain b where b: "lit_body s' = Some (b, t)" "j = JString (CHR 0x22 # b @ [CHR 0x22])"
    using assms(1) by (auto simp: scalar_body_def)
  then show ?thesis using lit_body_sound [OF b(1)] s by (auto simp: str_text_def intro: v_str)
next
  case False
  consider "HasPrefix s ''null''" | "HasPrefix s ''true''" | "HasPrefix s ''false''"
    | "\<not> HasPrefix s ''null''" "\<not> HasPrefix s ''true''" "\<not> HasPrefix s ''false''" by blast
  then show ?thesis
  proof cases
    case 4
    then obtain w where w: "num_prefix s = Some (w, t)" "j = JNumber w" using assms(1) False by (auto simp: scalar_body_def)
    then show ?thesis using num_prefix_sound [OF w(1)] assms(2) by (auto intro: v_num)
  next
    case 1
    then show ?thesis using assms(1) False HasPrefix_drop [of s "''null''"] by (auto simp: scalar_body_def eval_nat_numeral intro!: v_lit)
  next
    case 2
    then have "\<not> HasPrefix s ''null''" by (auto simp: HasPrefix_def)
    then show ?thesis using 2 assms(1) False HasPrefix_drop [of s "''true''"] by (auto simp: scalar_body_def eval_nat_numeral intro!: v_lit)
  next
    case 3
    obtain r where "s = ''false'' @ r" using HasPrefix_drop [OF 3] by blast
    then have "\<not> HasPrefix s ''null''" "\<not> HasPrefix s ''true''" by (simp_all add: HasPrefix_def)
    then show ?thesis using 3 assms(1) False HasPrefix_drop [of s "''false''"] by (auto simp: scalar_body_def eval_nat_numeral intro!: v_lit)
  qed
qed

section \<open>Values\<close>

definition value_sound :: "parse_value \<Rightarrow> bool" where
  "value_sound V \<longleftrightarrow> (\<forall>n s j t. V n s = Some (j, t) \<longrightarrow> n \<le> maxNestingDepth \<longrightarrow> walk j \<longrightarrow>
     s = raw_of j @ t \<and> json_value ws n (raw_of j) \<and> all_sub readable j)"

definition elems_sound :: "parse_elems \<Rightarrow> bool" where
  "elems_sound E \<longleftrightarrow> (\<forall>n s js t. E n s = Some (js, t) \<longrightarrow> n \<le> maxNestingDepth \<longrightarrow> list_all walk js \<longrightarrow>
     (\<exists>vs w. s = w @ t \<and> json_elems ws n vs w \<and> list_all (all_sub readable) js))"

definition members_sound :: "parse_members \<Rightarrow> bool" where
  "members_sound M \<longleftrightarrow> (\<forall>n s ms t K. M n s = Some (ms, t) \<longrightarrow> n \<le> maxNestingDepth \<longrightarrow> list_all (\<lambda>kj. walk (snd kj)) ms \<longrightarrow>
     distinct (map fst ms) \<longrightarrow> set (map fst ms) \<inter> K = {} \<longrightarrow>
     (\<exists>fs w. s = w @ t \<and> json_members ws n K fs w \<and> list_all (\<lambda>kj. all_sub readable (snd kj)) ms))"

lemma skip_split: "s = takeWhile is_ws s @ dropWhile is_ws s" "ws (takeWhile is_ws s)"
  by (auto simp: ws_def list_all_iff dest: set_takeWhileD)

lemma starts_split: "starts c s \<Longrightarrow> s = c # tl s"
  by (cases s) (auto simp: starts_def)

lemma upto_tail: "upto (w @ t) t = w"
  by simp

lemma value_body_sound:
  assumes E: "elems_sound E" and M: "members_sound M"
  shows "value_sound (value_body E M)"
  unfolding value_sound_def
proof (intro allI impI)
  fix n s j t
  assume v: "value_body E M n s = Some (j, t)" and n: "n \<le> maxNestingDepth" and walk: "walk j"
  let ?t = "dropWhile is_ws (tl s)"
  let ?a = "takeWhile is_ws (tl s)"
  note sp = skip_split [of "tl s"]
  consider "starts CHR ''['' s" | "starts CHR ''{'' s" | "\<not> starts CHR ''['' s" "\<not> starts CHR ''{'' s" by blast
  then show "s = raw_of j @ t \<and> json_value ws n (raw_of j) \<and> all_sub readable j"
  proof cases
    case 1
    then obtain m where m: "n = Suc m" using v by (cases n) (auto simp: value_body_def)
    show ?thesis
    proof (cases "starts CHR '']'' ?t")
      case True
      then have j: "j = JArray (upto s (tl ?t)) []" "t = tl ?t" using v 1 m by (auto simp: value_body_def Let_def)
      have s: "s = (CHR ''['' # ?a @ '']'') @ t" using starts_split [OF 1] starts_split [OF True] sp(1) j(2) by simp
      then have u: "upto s t = CHR ''['' # ?a @ '']''" by (metis upto_tail)
      have "json_value ws n (CHR ''['' # ?a @ '']'')" unfolding m by (rule v_arr [OF a_nil [where W = ws, OF sp(2)]])
      then show ?thesis using j u s n by (auto simp: readable_def)
    next
      case False
      then obtain js where js: "E m ?t = Some (js, t)" "j = JArray (upto s t) js" using v 1 m by (auto simp: value_body_def Let_def)
      then obtain vs w where w: "?t = w @ t" "json_elems ws m vs w" "list_all (all_sub readable) js"
        using E n m walk unfolding elems_sound_def by (metis Suc_leD walk.simps(5))
      have s: "s = (CHR ''['' # ?a @ w) @ t" using starts_split [OF 1] sp(1) w(1) by simp
      then have u: "upto s t = CHR ''['' # ?a @ w" by (metis upto_tail)
      have "json_value ws n (CHR ''['' # ?a @ w)" unfolding m by (rule v_arr [OF a_cons [where W = ws, OF sp(2) w(2)]])
      then show ?thesis using js u s n w(3) by (auto simp: readable_def)
    qed
  next
    case 2
    then have 1: "\<not> starts CHR ''['' s" by (auto simp: starts_def)
    then obtain m where m: "n = Suc m" using v 2 by (cases n) (auto simp: value_body_def)
    show ?thesis
    proof (cases "starts CHR ''}'' ?t")
      case True
      then have j: "j = JObject (upto s (tl ?t)) []" "t = tl ?t" using v 1 2 m by (auto simp: value_body_def Let_def)
      have s: "s = (CHR ''{'' # ?a @ ''}'') @ t" using starts_split [OF 2] starts_split [OF True] sp(1) j(2) by simp
      then have u: "upto s t = CHR ''{'' # ?a @ ''}''" by (metis upto_tail)
      have "json_value ws n (CHR ''{'' # ?a @ ''}'')" unfolding m by (rule v_obj [OF o_nil [where W = ws, OF sp(2)]])
      then show ?thesis using j u s n by (auto simp: readable_def)
    next
      case False
      then obtain ms where ms: "M m ?t = Some (ms, t)" "j = JObject (upto s t) ms" using v 1 2 m by (auto simp: value_body_def Let_def)
      then have d: "list_all (\<lambda>kj. walk (snd kj)) ms" "distinct (map fst ms)" "set (map fst ms) \<inter> {} = {}" "m \<le> maxNestingDepth"
        using walk n m by simp_all
      obtain fs w where w: "?t = w @ t" "json_members ws m {} fs w" "list_all (\<lambda>kj. all_sub readable (snd kj)) ms"
        using M [unfolded members_sound_def, rule_format, OF ms(1) d(4,1-3)] by blast
      have s: "s = (CHR ''{'' # ?a @ w) @ t" using starts_split [OF 2] sp(1) w(1) by simp
      then have u: "upto s t = CHR ''{'' # ?a @ w" by (metis upto_tail)
      have "json_value ws n (CHR ''{'' # ?a @ w)" unfolding m by (rule v_obj [OF o_cons [where W = ws, OF sp(2) w(2)]])
      then show ?thesis using ms u s n w(3) by (auto simp: readable_def)
    qed
  next
    case 3
    then have "scalar_body s = Some (j, t)" using v by (simp add: value_body_def)
    from scalar_parsed [OF this walk, of n] show ?thesis using n by (auto simp: readable_def)
  qed
qed

lemma elems_body_sound:
  assumes V: "value_sound V" and E: "elems_sound E"
  shows "elems_sound (elems_body V E)"
  unfolding elems_sound_def
proof (intro allI impI)
  fix n s js t
  assume e: "elems_body V E n s = Some (js, t)" and n: "n \<le> maxNestingDepth" and walk: "list_all walk js"
  obtain j r where j: "V n s = Some (j, r)" using e by (auto simp: elems_body_def split: option.splits)
  let ?a = "takeWhile is_ws r" and ?u = "dropWhile is_ws r"
  have r: "r = ?a @ ?u" "ws ?a" by (rule skip_split)+
  show "\<exists>vs w. s = w @ t \<and> json_elems ws n vs w \<and> list_all (all_sub readable) js"
  proof (cases "starts CHR '','' ?u")
    case True
    let ?b = "takeWhile is_ws (tl ?u)"
    obtain js' where js: "E n (dropWhile is_ws (tl ?u)) = Some (js', t)" "js = j # js'"
      using e j True by (auto simp: elems_body_def)
    have v: "s = raw_of j @ r" "json_value ws n (raw_of j)" "all_sub readable j"
      using V [unfolded value_sound_def, rule_format, OF j n] walk js(2) by auto
    obtain vs w where w: "dropWhile is_ws (tl ?u) = w @ t" "json_elems ws n vs w" "list_all (all_sub readable) js'"
      using E [unfolded elems_sound_def, rule_format, OF js(1) n] walk js(2) by auto
    have "s = (raw_of j @ ?a @ CHR '','' # ?b @ w) @ t"
      using v(1) r(1) starts_split [OF True] skip_split(1) [of "tl ?u"] w(1) by simp
    moreover have "json_elems ws n (raw_of j # vs) (raw_of j @ ?a @ CHR '','' # ?b @ w)"
      by (rule e_more [where W = ws, OF v(2) r(2) skip_split(2) w(2)])
    ultimately show ?thesis using v(3) w(3) js(2) by auto
  next
    case False
    then have t: "starts CHR '']'' ?u" "t = tl ?u" "js = [j]" using e j by (auto simp: elems_body_def Let_def split: if_splits)
    have v: "s = raw_of j @ r" "json_value ws n (raw_of j)" "all_sub readable j"
      using V [unfolded value_sound_def, rule_format, OF j n] walk t(3) by auto
    have "s = (raw_of j @ ?a @ '']'') @ t" using v(1) r(1) starts_split [OF t(1)] t(2) by simp
    moreover have "json_elems ws n [raw_of j] (raw_of j @ ?a @ '']'')" by (rule e_last [where W = ws, OF v(2) r(2)])
    ultimately show ?thesis using v(3) t(3) by auto
  qed
qed

lemma members_body_sound:
  assumes V: "value_sound V" and M: "members_sound M"
  shows "members_sound (members_body V M)"
  unfolding members_sound_def
proof (intro allI impI)
  fix n s ms t K
  assume e: "members_body V M n s = Some (ms, t)" and n: "n \<le> maxNestingDepth" and walk: "list_all (\<lambda>kj. walk (snd kj)) ms"
    and d: "distinct (map fst ms)" "set (map fst ms) \<inter> K = {}"
  have s: "starts CHR 0x22 s" using e by (auto simp: members_body_def split: if_splits)
  obtain kb r where kb: "lit_body (tl s) = Some (kb, r)" using e s by (auto simp: members_body_def split: option.splits)
  obtain name where name: "unquote_loop kb = Some name" using e s kb by (auto simp: members_body_def split: option.splits)
  let ?a = "takeWhile is_ws r" and ?u = "dropWhile is_ws r"
  have u: "starts CHR '':'' ?u" using e s kb name by (auto simp: members_body_def split: if_splits)
  let ?b = "takeWhile is_ws (tl ?u)" and ?v = "dropWhile is_ws (tl ?u)"
  obtain j r2 where j: "V n ?v = Some (j, r2)" using e s kb name u by (auto simp: members_body_def split: option.splits)
  let ?c = "takeWhile is_ws r2" and ?x = "dropWhile is_ws r2"
  let ?k = "CHR 0x22 # kb @ [CHR 0x22]"
  have k: "s = ?k @ ?a @ CHR '':'' # ?b @ ?v" "str_body kb"
    using starts_split [OF s] lit_body_sound [OF kb] skip_split(1) [of r] starts_split [OF u] skip_split(1) [of "tl ?u"] by auto
  have key: "Unmarshal_string ?k = Some name" using k(2) name by (simp add: Unmarshal_string_def quoted_def contents_def)
  have ws: "ws ?a" "ws ?b" "ws ?c" by (rule skip_split)+
  show "\<exists>fs w. s = w @ t \<and> json_members ws n K fs w \<and> list_all (\<lambda>kj. all_sub readable (snd kj)) ms"
  proof (cases "starts CHR '','' ?x")
    case True
    let ?e = "takeWhile is_ws (tl ?x)"
    obtain ms' where ms: "M n (dropWhile is_ws (tl ?x)) = Some (ms', t)" "ms = (name, j) # ms'"
      using e s kb name u j True by (auto simp: members_body_def)
    have v: "?v = raw_of j @ r2" "json_value ws n (raw_of j)" "all_sub readable j"
      using V [unfolded value_sound_def, rule_format, OF j n] walk ms(2) by auto
    have h: "list_all (\<lambda>kj. walk (snd kj)) ms'" "distinct (map fst ms')" "set (map fst ms') \<inter> insert name K = {}" "name \<notin> K"
      using walk d ms(2) by auto
    obtain fs w where w: "dropWhile is_ws (tl ?x) = w @ t" "json_members ws n (insert name K) fs w" "list_all (\<lambda>kj. all_sub readable (snd kj)) ms'"
      using M [unfolded members_sound_def, rule_format, OF ms(1) n h(1-3)] by blast
    have "s = (?k @ ?a @ CHR '':'' # ?b @ raw_of j @ ?c @ CHR '','' # ?e @ w) @ t"
      using k(1) v(1) skip_split(1) [of r2] starts_split [OF True] skip_split(1) [of "tl ?x"] w(1) by simp
    moreover have "json_members ws n K (\<lparr>fd_Key = name, fd_Value = raw_of j\<rparr> # fs) (?k @ ?a @ CHR '':'' # ?b @ raw_of j @ ?c @ CHR '','' # ?e @ w)"
      by (rule m_more [where W = ws, OF key h(4) ws(1,2) v(2) ws(3) skip_split(2) w(2)])
    ultimately show ?thesis using v(3) w(3) ms(2) by auto
  next
    case False
    then have t: "starts CHR ''}'' ?x" "t = tl ?x" "ms = [(name, j)]"
      using e s kb name u j by (auto simp: members_body_def Let_def split: if_splits)
    have v: "?v = raw_of j @ r2" "json_value ws n (raw_of j)" "all_sub readable j"
      using V [unfolded value_sound_def, rule_format, OF j n] walk t(3) by auto
    have "s = (?k @ ?a @ CHR '':'' # ?b @ raw_of j @ ?c @ ''}'') @ t"
      using k(1) v(1) skip_split(1) [of r2] starts_split [OF t(1)] t(2) by simp
    moreover have "name \<notin> K" using d(2) t(3) by simp
    then have "json_members ws n K [\<lparr>fd_Key = name, fd_Value = raw_of j\<rparr>] (?k @ ?a @ CHR '':'' # ?b @ raw_of j @ ?c @ ''}'')"
      by (intro m_last [where W = ws, OF key _ ws(1,2) v(2) ws(3)])
    ultimately show ?thesis using v(3) t(3) by auto
  qed
qed

lemma parsers_sound: "value_sound (pvalue f) \<and> elems_sound (pelems f) \<and> members_sound (pmembers f)"
proof (induction f)
  case 0
  show ?case by (simp add: value_sound_def elems_sound_def members_sound_def)
next
  case (Suc f)
  then show ?case unfolding pvalue_Suc pelems_Suc pmembers_Suc
    by (blast intro: value_body_sound elems_body_sound members_body_sound)
qed

section \<open>Documents\<close>

text \<open>Allowing more nesting changes no tree.\<close>

lemma more_nesting:
  "(pvalue f n s = Some x \<longrightarrow> (\<forall>m \<ge> n. pvalue f m s = Some x))
   \<and> (pelems f n s = Some y \<longrightarrow> (\<forall>m \<ge> n. pelems f m s = Some y))
   \<and> (pmembers f n s = Some z \<longrightarrow> (\<forall>m \<ge> n. pmembers f m s = Some z))"
proof (induction f arbitrary: n s x y z)
  case (Suc f)
  have V: "pvalue f n s = Some x \<Longrightarrow> n \<le> m \<Longrightarrow> pvalue f m s = Some x"
    and E: "pelems f n s = Some y \<Longrightarrow> n \<le> m \<Longrightarrow> pelems f m s = Some y"
    and M: "pmembers f n s = Some z \<Longrightarrow> n \<le> m \<Longrightarrow> pmembers f m s = Some z" for n m s x y z
    using Suc.IH by blast+
  show ?case unfolding pvalue_Suc pelems_Suc pmembers_Suc
  proof (intro conjI impI allI)
    fix m
    assume n: "n \<le> m"
    show "value_body (pelems f) (pmembers f) m s = Some x" if "value_body (pelems f) (pmembers f) n s = Some x"
      using that n E [of "n - 1" _ _ "m - 1"] M [of "n - 1" _ _ "m - 1"]
      by (auto simp: value_body_def Let_def split: if_splits)
    show "elems_body (pvalue f) (pelems f) m s = Some y" if "elems_body (pvalue f) (pelems f) n s = Some y"
      using that V [of n _ _ m] E [of n _ _ m] n
      by (auto simp: elems_body_def Let_def split: if_splits option.splits)
    show "members_body (pvalue f) (pmembers f) m s = Some z" if "members_body (pvalue f) (pmembers f) n s = Some z"
      using that V [of n _ _ m] M [of n _ _ m] n
      by (auto simp: members_body_def Let_def split: if_splits option.splits)
  qed
qed simp

lemma parse_first_same: "parse_first n raw = Some x \<Longrightarrow> parse_first m raw = Some y \<Longrightarrow> x = y"
  unfolding parse_first_def using more_nesting by (metis nat_le_linear option.inject)

lemma document_readable: "parse_document raw = Some j \<Longrightarrow> walk j \<Longrightarrow> all_sub readable j"
  using parsers_sound [of "parse_fuel raw"]
  by (auto simp: parse_document_def parse_first_def value_sound_def split: option.splits if_splits)

lemma readable_document:
  assumes "readable j"
  obtains j' where "parse_document (raw_of j) = Some j'" "walk j'" "raw_of j' = raw_of j"
  using assms json_parse(1) [of ws _ "raw_of j"] parses_document unfolding readable_def by (metis parses_def)

section \<open>Depth and length\<close>

lemma literal_rest:
  "lit_body s = Some (b, r) \<Longrightarrow> length r \<le> length s" "num_prefix s = Some (w, t) \<Longrightarrow> length t \<le> length s"
  using lit_body_sound [of s b r] num_prefix_sound [of s w t] by auto

lemma scalar_rest:
  assumes "scalar_body s = Some (j, t)"
  shows "length t \<le> length s"
proof (cases "starts CHR 0x22 s")
  case True
  then obtain b where "lit_body (tl s) = Some (b, t)" using assms by (auto simp: scalar_body_def)
  then show ?thesis using literal_rest(1) [of "tl s" b t] by simp
next
  case False
  then show ?thesis using assms literal_rest(2) [of s _ t] by (auto simp: scalar_body_def split: if_splits)
qed

lemma tl_skip: "length (dropWhile is_ws (tl s)) \<le> length s - 1"
  using length_dropWhile_le [of is_ws "tl s"] by simp

lemma starts_length: "starts c s \<Longrightarrow> 1 \<le> length s"
  by (cases s) (auto simp: starts_def)

text \<open>Every level of nesting takes a byte, so nesting as deep as the text is long is never exceeded.\<close>

definition value_depth :: "parse_value \<Rightarrow> bool" where
  "value_depth V \<longleftrightarrow> (\<forall>n s j t. V n s = Some (j, t) \<longrightarrow> length t \<le> length s \<and> (\<forall>m \<ge> length s. V m s = Some (j, t)))"

definition elems_depth :: "parse_elems \<Rightarrow> bool" where
  "elems_depth E \<longleftrightarrow> (\<forall>n s js t. E n s = Some (js, t) \<longrightarrow> length t \<le> length s \<and> (\<forall>m \<ge> length s. E m s = Some (js, t)))"

definition members_depth :: "parse_members \<Rightarrow> bool" where
  "members_depth M \<longleftrightarrow> (\<forall>n s ms t. M n s = Some (ms, t) \<longrightarrow> length t \<le> length s \<and> (\<forall>m \<ge> length s. M m s = Some (ms, t)))"

lemma value_body_depth:
  assumes E: "elems_depth E" and M: "members_depth M"
  shows "value_depth (value_body E M)"
  unfolding value_depth_def
proof (intro allI impI)
  fix n s j t
  assume v: "value_body E M n s = Some (j, t)"
  let ?t = "dropWhile is_ws (tl s)"
  note l = tl_skip [of s]
  have e: "length t \<le> length s \<and> (\<forall>m \<ge> length s. E (m - 1) ?t = Some (js, t))" if "E (n - 1) ?t = Some (js, t)" "s \<noteq> []" for js
  proof -
    have "length ?t \<le> m - 1" if "length s \<le> m" for m using l that by linarith
    then show ?thesis using E [unfolded elems_depth_def, rule_format, OF that(1)] l by (metis diff_le_self le_trans)
  qed
  have m: "length t \<le> length s \<and> (\<forall>m \<ge> length s. M (m - 1) ?t = Some (ms, t))" if "M (n - 1) ?t = Some (ms, t)" "s \<noteq> []" for ms
  proof -
    have "length ?t \<le> m - 1" if "length s \<le> m" for m using l that by linarith
    then show ?thesis using M [unfolded members_depth_def, rule_format, OF that(1)] l by (metis diff_le_self le_trans)
  qed
  have c: "length (tl ?t) \<le> length s" using l by simp
  consider "starts CHR ''['' s" | "starts CHR ''{'' s" "\<not> starts CHR ''['' s" | "\<not> starts CHR ''['' s" "\<not> starts CHR ''{'' s" by blast
  then show "length t \<le> length s \<and> (\<forall>m \<ge> length s. value_body E M m s = Some (j, t))"
  proof cases
    case 1
    then have ne: "s \<noteq> []" by (auto simp: starts_def)
    then have pos: "length s \<le> m \<Longrightarrow> m \<noteq> 0" for m by (cases s) auto
    show ?thesis
    proof (cases "starts CHR '']'' ?t")
      case True
      then have "j = JArray (upto s (tl ?t)) []" "t = tl ?t" using v 1 by (auto simp: value_body_def Let_def split: if_splits)
      then show ?thesis using 1 True c pos ne by (simp add: value_body_def Let_def)
    next
      case False
      then obtain js where js: "E (n - 1) ?t = Some (js, t)" "j = JArray (upto s t) js"
        using v 1 by (auto simp: value_body_def Let_def split: if_splits)
      show ?thesis using e [OF js(1) ne] 1 False js(2) pos ne by (simp add: value_body_def Let_def)
    qed
  next
    case 2
    then have ne: "s \<noteq> []" by (auto simp: starts_def)
    then have pos: "length s \<le> m \<Longrightarrow> m \<noteq> 0" for m by (cases s) auto
    show ?thesis
    proof (cases "starts CHR ''}'' ?t")
      case True
      then have "j = JObject (upto s (tl ?t)) []" "t = tl ?t" using v 2 by (auto simp: value_body_def Let_def split: if_splits)
      then show ?thesis using 2 True c pos ne by (simp add: value_body_def Let_def)
    next
      case False
      then obtain ms where ms: "M (n - 1) ?t = Some (ms, t)" "j = JObject (upto s t) ms"
        using v 2 by (auto simp: value_body_def Let_def split: if_splits)
      show ?thesis using m [OF ms(1) ne] 2 False ms(2) pos ne by (simp add: value_body_def Let_def)
    qed
  next
    case 3
    then have "scalar_body s = Some (j, t)" using v by (simp add: value_body_def)
    then show ?thesis using 3 scalar_rest by (simp add: value_body_def)
  qed
qed

lemma elems_body_depth:
  assumes V: "value_depth V" and E: "elems_depth E"
  shows "elems_depth (elems_body V E)"
  unfolding elems_depth_def
proof (intro allI impI)
  fix n s js t
  assume e: "elems_body V E n s = Some (js, t)"
  then obtain j r where j: "V n s = Some (j, r)" by (auto simp: elems_body_def split: option.splits)
  then have v: "length r \<le> length s" "\<And>m. length s \<le> m \<Longrightarrow> V m s = Some (j, r)"
    using V [unfolded value_depth_def, rule_format, OF j] by auto
  let ?u = "dropWhile is_ws r"
  let ?x = "dropWhile is_ws (tl ?u)"
  have l: "length ?u \<le> length s" "length ?x \<le> length s" "length (tl ?u) \<le> length s"
    using v(1) length_dropWhile_le [of is_ws r] tl_skip [of ?u] unfolding length_tl by linarith+
  have x: "E n ?x = Some (js', t) \<Longrightarrow> length t \<le> length s \<and> (\<forall>m \<ge> length s. E m ?x = Some (js', t))" for js'
    using E [unfolded elems_depth_def, rule_format, of n ?x js' t] l(2) by (meson le_trans)
  show "length t \<le> length s \<and> (\<forall>m \<ge> length s. elems_body V E m s = Some (js, t))"
  proof (cases "starts CHR '','' ?u")
    case True
    then obtain js' where js: "E n ?x = Some (js', t)" "js = j # js'" using e j by (auto simp: elems_body_def)
    show ?thesis using x [OF js(1)] v(2) True js(2) by (simp add: elems_body_def)
  next
    case False
    then have "starts CHR '']'' ?u" "t = tl ?u" "js = [j]" using e j by (auto simp: elems_body_def Let_def split: if_splits)
    then show ?thesis using v(2) False l(3) by (simp add: elems_body_def)
  qed
qed

lemma members_body_depth:
  assumes V: "value_depth V" and M: "members_depth M"
  shows "members_depth (members_body V M)"
  unfolding members_depth_def
proof (intro allI impI)
  fix n s ms t
  assume e: "members_body V M n s = Some (ms, t)"
  have s: "starts CHR 0x22 s" using e by (auto simp: members_body_def split: if_splits)
  obtain kb r where kb: "lit_body (tl s) = Some (kb, r)" using e s by (auto simp: members_body_def split: option.splits)
  obtain name where name: "unquote_loop kb = Some name" using e s kb by (auto simp: members_body_def split: option.splits)
  let ?u = "dropWhile is_ws r"
  let ?v = "dropWhile is_ws (tl ?u)"
  have u: "starts CHR '':'' ?u" using e s kb name by (auto simp: members_body_def split: if_splits)
  obtain j r2 where j: "V n ?v = Some (j, r2)" using e s kb name u by (auto simp: members_body_def split: option.splits)
  have "length (tl s) = length kb + 1 + length r" using lit_body_sound [OF kb] by simp
  then have r: "length r \<le> length s" using starts_length [OF s] by simp
  then have lv: "length ?v \<le> length s" using length_dropWhile_le [of is_ws r] tl_skip [of ?u] by linarith
  have v: "length r2 \<le> length s" "\<And>m. length s \<le> m \<Longrightarrow> V m ?v = Some (j, r2)"
    using V [unfolded value_depth_def, rule_format, OF j] lv by (blast intro: le_trans)+
  let ?w = "dropWhile is_ws r2"
  let ?x = "dropWhile is_ws (tl ?w)"
  have l: "length ?x \<le> length s" "length (tl ?w) \<le> length s"
    using v(1) length_dropWhile_le [of is_ws r2] tl_skip [of ?w] unfolding length_tl by linarith+
  have x: "M n ?x = Some (ms', t) \<Longrightarrow> length t \<le> length s \<and> (\<forall>m \<ge> length s. M m ?x = Some (ms', t))" for ms'
    using M [unfolded members_depth_def, rule_format, of n ?x ms' t] l(1) by (meson le_trans)
  show "length t \<le> length s \<and> (\<forall>m \<ge> length s. members_body V M m s = Some (ms, t))"
  proof (cases "starts CHR '','' ?w")
    case True
    then obtain ms' where ms: "M n ?x = Some (ms', t)" "ms = (name, j) # ms'" using e s kb name u j by (auto simp: members_body_def)
    show ?thesis using x [OF ms(1)] v(2) True ms(2) s kb name u by (simp add: members_body_def)
  next
    case False
    then have "starts CHR ''}'' ?w" "t = tl ?w" "ms = [(name, j)]"
      using e s kb name u j by (auto simp: members_body_def Let_def split: if_splits)
    then show ?thesis using v(2) False l(2) s kb name u by (simp add: members_body_def)
  qed
qed

lemma parsers_depth: "value_depth (pvalue f) \<and> elems_depth (pelems f) \<and> members_depth (pmembers f)"
proof (induction f)
  case 0
  show ?case by (simp add: value_depth_def elems_depth_def members_depth_def)
next
  case (Suc f)
  then show ?case unfolding pvalue_Suc pelems_Suc pmembers_Suc
    by (blast intro: value_body_depth elems_body_depth members_body_depth)
qed

lemma parse_first_length:
  assumes "parse_first n raw = Some x"
  shows "parse_first (length raw) raw = Some x"
proof -
  obtain j t where x: "x = (j, t)" by (cases x)
  have "pvalue (parse_fuel raw) n (dropWhile is_ws raw) = Some (j, t)" using assms by (simp add: parse_first_def x)
  then have "pvalue (parse_fuel raw) (length raw) (dropWhile is_ws raw) = Some (j, t)"
    using parsers_depth [of "parse_fuel raw"] length_dropWhile_le [of is_ws raw] unfolding value_depth_def by blast
  then show ?thesis by (simp add: parse_first_def x)
qed

section \<open>Bytes of a value\<close>

text \<open>A value neither starts nor ends with white space, so trimming its bytes changes nothing.\<close>

lemma graphic_bytes [simp]:
  "graphic CHR ''[''" "graphic CHR '']''" "graphic CHR ''{''" "graphic CHR ''}''" "graphic CHR 0x22" "graphic CHR ''-''"
  by (simp_all add: graphic_def ord_def)

lemma digits_last: "digits_only w \<Longrightarrow> graphic (last w)"
  by (auto simp: digits_only_def list_all_iff intro!: digit_graphic dest: last_in_set)

lemma num_ends: "num_text w \<Longrightarrow> w \<noteq> [] \<and> graphic (hd w) \<and> graphic (last w)"
proof -
  assume "num_text w"
  then obtain sg wh fr ex where w: "w = sg @ wh @ fr @ ex" "sg \<in> {[], ''-''}" "whole_text wh" "frac_text fr" "exp_text ex"
    by (auto simp: num_text_def)
  have wh: "wh \<noteq> []" "graphic (hd wh)" "graphic (last wh)"
    using whole_digits [OF w(3)] by (auto simp: list_all_iff)
  have fr: "fr = [] \<or> graphic (last fr)" using w(4) digits_last by (auto simp: frac_text_def digits_only_def)
  have ex: "ex = [] \<or> graphic (last ex)" using w(5) digits_last by (auto simp: exp_text_def digits_only_def)
  show ?thesis using w(1,2) wh fr ex by (auto simp: last_append)
qed

lemma value_ends:
  "json_value W n w \<Longrightarrow> w \<noteq> [] \<and> graphic (hd w) \<and> graphic (last w)"
  "json_array W n vs w \<Longrightarrow> w \<noteq> [] \<and> graphic (hd w) \<and> graphic (last w)"
  "json_elems W n vs w \<Longrightarrow> w \<noteq> [] \<and> last w = CHR '']''"
  "json_object W n fs w \<Longrightarrow> w \<noteq> [] \<and> graphic (hd w) \<and> graphic (last w)"
  "json_members W n K fs w \<Longrightarrow> w \<noteq> [] \<and> last w = CHR ''}''"
proof (induction rule: json_value_json_array_json_elems_json_object_json_members.inducts)
  case (v_lit w n)
  then show ?case by (auto simp: graphic_def ord_def)
next
  case (v_num w n)
  then show ?case by (rule num_ends)
next
  case (v_str w n)
  then show ?case by (auto simp: str_text_def)
qed auto

lemma readable_trim: "readable j \<Longrightarrow> TrimSpace (raw_of j) = raw_of j"
  unfolding readable_def using value_ends(1) TrimSpace_id by metis

text \<open>The elements \<^verbatim>\<open>Elements\<close> answers, as \<^verbatim>\<open>Fields_parse\<close> has it for members.\<close>

lemma Elements_parse:
  assumes "Elements raw = Some (Some vs)"
  obtains w js where "parse_document raw = Some (JArray w js)"
    "list_all2 (\<lambda>v j. raw_of j = v \<and> parse_document v = Some j) vs js"
proof -
  obtain w where w: "document raw w" "json_array ws MaxDepth vs w" using Elements_grammar [of raw] assms by auto
  obtain js k where js: "MaxDepth = Suc k" "elem_trees k vs js" "parses MaxDepth w (JArray w js)"
    using json_parse(2) [OF w(2)] unfolding array_parse_def by blast
  have k: "k \<le> maxNestingDepth" using js(1) MaxDepth_nested(1) by simp
  have "list_all2 (\<lambda>v j. raw_of j = v \<and> parse_document v = Some j) vs js"
    by (rule list_all2_mono [OF js(2)]) (use parses_document [OF _ k] in blast)
  then show ?thesis using that document_parse [OF w(1) js(3) MaxDepth_nested(2)] by blast
qed

end
