(* ===== verification/Selection_Plan.thy ===== *)
theory Selection_Plan
  imports Plan_Placeholder Strictjson_Tree Go_Text
begin

text \<open>
  Selection plans (\<^verbatim>\<open>src/model/selection_plan.go\<close>): what a plan is, the three validations of one and its excess
  clones, with the helpers they call in \<^verbatim>\<open>subscription_methods.go\<close>, \<^verbatim>\<open>subscription_source_manifest.go\<close> and
  \<^verbatim>\<open>line_catalogue.go\<close>. A map is the list of its pairs, in the order a loop over it visits them. A slice keeps what
  its backing array holds beyond its length, because the decoder can uncover it again.
\<close>

section \<open>Plans\<close>

datatype 'a slice = Slice "'a list" nat

fun backing :: "'a slice \<Rightarrow> 'a list" where "backing (Slice xs n) = xs"
fun elems :: "'a slice \<Rightarrow> 'a list" where "elems (Slice xs n) = take n xs"

abbreviation nil_slice :: "'a slice" where "nil_slice \<equiv> Slice [] 0"

definition slice_of :: "'a list \<Rightarrow> 'a slice" where "slice_of xs = Slice xs (length xs)"

lemma elems_slice_of [simp]: "elems (slice_of xs) = xs"
  by (simp add: slice_of_def)

record ResponseTransformerStep =
  rs_Name :: string
  rs_Source :: string
  rs_Arguments :: string
  rs_Enabled :: bool

record PlanSelection =
  ps_CatalogueVersion :: string
  ps_LineUUIDs :: "string slice"

record ProbeExclusionPolicy =
  pp_ConsecutiveFailures :: int

record UsageExclusionPolicy =
  up_MaxBytesPerLine :: int

record BindPolicy =
  bp_Probe :: "ProbeExclusionPolicy option"
  bp_Usage :: "UsageExclusionPolicy option"
  bp_DDNSDial :: bool

record SelectionPlanNode =
  pn_LineUUID :: string
  pn_Placeholders :: "(string \<times> string) list"
  pn_Provider :: bool
  pn_Node :: string

record SelectionPlan =
  pl_Kind :: string
  pl_Nodes :: "SelectionPlanNode slice"
  pl_Document :: string
  pl_ResponseChain :: "ResponseTransformerStep slice"
  pl_Selection :: "PlanSelection option"
  pl_Policy :: "BindPolicy option"

definition SelectionPlanKindNodes :: string where "SelectionPlanKindNodes = ''nodes''"
definition SelectionPlanKindDocument :: string where "SelectionPlanKindDocument = ''document''"

definition MaxSelectionPlanBytes :: nat where "MaxSelectionPlanBytes = 6 * 2 ^ 20"
definition MaxBindProbeConsecutiveFailures :: int where "MaxBindProbeConsecutiveFailures = 10"
definition MaxPlanClonesPerLine :: nat where "MaxPlanClonesPerLine = 4"
definition MaxResponseChainBytes :: nat where "MaxResponseChainBytes = 512 * 2 ^ 10"
definition MaxResponseChainSteps :: nat where "MaxResponseChainSteps = 32"
definition MaxResponseStepNameBytes :: nat where "MaxResponseStepNameBytes = 128"
definition MaxSubscriptionRecordNodes :: nat where "MaxSubscriptionRecordNodes = 4096"
definition MaxLineCatalogueTokenBytes :: nat where "MaxLineCatalogueTokenBytes = 2 ^ 10"
definition MaxSubscriptionURIBytes :: nat where "MaxSubscriptionURIBytes = 4 * 2 ^ 10"

section \<open>Texts\<close>

text \<open>\<^verbatim>\<open>unicode.IsControl\<close>.\<close>

definition IsControl :: "nat \<Rightarrow> bool" where
  "IsControl r \<longleftrightarrow> r < 0x20 \<or> (0x7F \<le> r \<and> r < 0xA0)"

fun containsControl :: "string \<Rightarrow> bool" where
  "containsControl [] = False"
| "containsControl (b # s) =
     (if ord b \<ge> 0x80 then ContainsFunc IsControl (b # s)
      else if ord b < 0x20 \<or> ord b = 0x7F then True
      else containsControl s)"

definition validCatalogueID :: "string \<Rightarrow> bool" where
  "validCatalogueID v \<longleftrightarrow> v \<noteq> [] \<and> v = TrimSpace v \<and> length v \<le> MaxSubscriptionURIBytes \<and> \<not> containsControl v"

definition validCatalogueToken :: "string \<Rightarrow> bool" where
  "validCatalogueToken v \<longleftrightarrow> validCatalogueID v \<and> length v \<le> MaxLineCatalogueTokenBytes"

section \<open>JSON values\<close>

text \<open>Whether \<^verbatim>\<open>rejectDuplicateJSONFields\<close> lets a text pass. The walk reads one value at any depth, and then only white
  space may follow (\<^verbatim>\<open>requireJSONEOF\<close>).\<close>

definition requireJSONEOF :: "string \<Rightarrow> bool" where
  "requireJSONEOF rest \<longleftrightarrow> skip_ws rest = []"

definition scanJSONValue :: "string \<Rightarrow> string option" where
  "scanJSONValue raw =
     (case parse_first (length raw) raw of None \<Rightarrow> None | Some (j, rest) \<Rightarrow> if walk j then Some rest else None)"

definition rejectDuplicateJSONFields :: "string \<Rightarrow> bool" where
  "rejectDuplicateJSONFields raw \<longleftrightarrow>
     Valid raw = Some True \<or> (case scanJSONValue raw of None \<Rightarrow> False | Some rest \<Rightarrow> requireJSONEOF rest)"

definition opensObject :: "string \<Rightarrow> bool" where
  "opensObject raw \<longleftrightarrow> length (TrimSpace raw) > 0 \<and> TrimSpace raw ! 0 = CHR ''{''"

definition isJSONObject :: "string \<Rightarrow> bool" where
  "isJSONObject raw \<longleftrightarrow>
     (let trimmed = TrimSpace raw in
      length trimmed > 0 \<and> trimmed ! 0 = CHR ''{'' \<and> (Valid trimmed = Some True \<or> json_Valid trimmed))"

section \<open>Validation\<close>

datatype selection_error = SelectionVersion | SelectionTooMany | SelectionLine string | SelectionTwice string
datatype policy_error = PolicyProbe | PolicyUsage
datatype chain_error = ChainTooManySteps | ChainSource nat | ChainName nat | ChainArguments nat | ChainTooLong
datatype node_error =
    NodeNotObject | NodeProvider | NodePlaceholdersNoLine | NodeLine
  | NodePlaceholder string placeholder_error | NodePlaceholderOther string string string
datatype plan_error =
    PlanNodesDocument | PlanNoDocument | PlanKindUnknown string | PlanTooManyNodes
  | PlanNode nat node_error | PlanNodeFields nat | PlanProviderInDocument nat
  | PlanSelectionError selection_error | PlanPolicyError policy_error | PlanChainError chain_error

fun selection_lines :: "string set \<Rightarrow> string list \<Rightarrow> selection_error option" where
  "selection_lines seen [] = None"
| "selection_lines seen (i # ids) =
     (if \<not> isUUIDv4 i then Some (SelectionLine i)
      else if i \<in> seen then Some (SelectionTwice i)
      else selection_lines (insert i seen) ids)"

definition PlanSelection_Validate :: "PlanSelection \<Rightarrow> selection_error option" where
  "PlanSelection_Validate s =
     (if \<not> validCatalogueToken (ps_CatalogueVersion s) then Some SelectionVersion
      else if length (elems (ps_LineUUIDs s)) > MaxSubscriptionRecordNodes then Some SelectionTooMany
      else selection_lines {} (elems (ps_LineUUIDs s)))"

definition BindPolicy_Validate :: "BindPolicy \<Rightarrow> policy_error option" where
  "BindPolicy_Validate p =
     (if (case bp_Probe p of None \<Rightarrow> False
          | Some q \<Rightarrow> pp_ConsecutiveFailures q < 1 \<or> pp_ConsecutiveFailures q > MaxBindProbeConsecutiveFailures) then Some PolicyProbe
      else if (case bp_Usage p of None \<Rightarrow> False | Some u \<Rightarrow> up_MaxBytesPerLine u \<le> 0) then Some PolicyUsage
      else None)"

fun chain_steps :: "nat \<Rightarrow> nat \<Rightarrow> ResponseTransformerStep list \<Rightarrow> chain_error option" where
  "chain_steps i tot [] = None"
| "chain_steps i tot (step # steps) =
     (if rs_Source step = [] then Some (ChainSource i)
      else if length (rs_Name step) > MaxResponseStepNameBytes \<or> ContainsFunc IsControl (rs_Name step) then Some (ChainName i)
      else if length (rs_Arguments step) > 0 \<and> \<not> isJSONObject (rs_Arguments step) then Some (ChainArguments i)
      else
        let tot = tot + length (rs_Name step) + length (rs_Source step) + length (rs_Arguments step) in
        if tot > MaxResponseChainBytes then Some ChainTooLong else chain_steps (i + 1) tot steps)"

definition ValidateResponseChain :: "ResponseTransformerStep list \<Rightarrow> chain_error option" where
  "ValidateResponseChain steps =
     (if length steps > MaxResponseChainSteps then Some ChainTooManySteps else chain_steps 0 0 steps)"

fun node_placeholders :: "string \<Rightarrow> (string \<times> string) list \<Rightarrow> node_error option" where
  "node_placeholders line [] = None"
| "node_placeholders line ((field, placeholder) # ps) =
     (case ParsePlanPlaceholder placeholder of
        Inl e \<Rightarrow> Some (NodePlaceholder field e)
      | Inr (l, placed) \<Rightarrow>
          if l \<noteq> line \<or> placed \<noteq> field then Some (NodePlaceholderOther field l placed)
          else node_placeholders line ps)"

definition node_validate :: "bool \<Rightarrow> SelectionPlanNode \<Rightarrow> node_error option" where
  "node_validate wellFormed n =
     (if (wellFormed \<and> \<not> opensObject (pn_Node n)) \<or> (\<not> wellFormed \<and> \<not> isJSONObject (pn_Node n)) then Some NodeNotObject
      else if pn_Provider n then
        (if pn_LineUUID n \<noteq> [] \<or> length (pn_Placeholders n) > 0 then Some NodeProvider else None)
      else if pn_LineUUID n = [] then
        (if length (pn_Placeholders n) > 0 then Some NodePlaceholdersNoLine else None)
      else if \<not> isUUIDv4 (pn_LineUUID n) then Some NodeLine
      else node_placeholders (pn_LineUUID n) (pn_Placeholders n))"

fun plan_nodes :: "bool \<Rightarrow> bool \<Rightarrow> nat \<Rightarrow> SelectionPlanNode list \<Rightarrow> plan_error option" where
  "plan_nodes keysChecked isDocument i [] = None"
| "plan_nodes keysChecked isDocument i (n # ns) =
     (case node_validate keysChecked n of
        Some e \<Rightarrow> Some (PlanNode i e)
      | None \<Rightarrow>
          if \<not> keysChecked \<and> \<not> rejectDuplicateJSONFields (pn_Node n) then Some (PlanNodeFields i)
          else if isDocument \<and> pn_Provider n then Some (PlanProviderInDocument i)
          else plan_nodes keysChecked isDocument (i + 1) ns)"

definition plan_tail :: "SelectionPlan \<Rightarrow> plan_error option" where
  "plan_tail p =
     (case Option.bind (pl_Selection p) PlanSelection_Validate of
        Some e \<Rightarrow> Some (PlanSelectionError e)
      | None \<Rightarrow>
          (case Option.bind (pl_Policy p) BindPolicy_Validate of
             Some e \<Rightarrow> Some (PlanPolicyError e)
           | None \<Rightarrow> map_option PlanChainError (ValidateResponseChain (elems (pl_ResponseChain p)))))"

definition plan_kind :: "SelectionPlan \<Rightarrow> plan_error option" where
  "plan_kind p =
     (if pl_Kind p = SelectionPlanKindNodes then (if pl_Document p \<noteq> [] then Some PlanNodesDocument else None)
      else if pl_Kind p = SelectionPlanKindDocument then (if pl_Document p = [] then Some PlanNoDocument else None)
      else Some (PlanKindUnknown (pl_Kind p)))"

definition plan_validate :: "bool \<Rightarrow> SelectionPlan \<Rightarrow> plan_error option" where
  "plan_validate keysChecked p =
     (case plan_kind p of
        Some e \<Rightarrow> Some e
      | None \<Rightarrow>
          if length (elems (pl_Nodes p)) > MaxSubscriptionRecordNodes then Some PlanTooManyNodes
          else case plan_nodes keysChecked (pl_Kind p = SelectionPlanKindDocument) 0 (elems (pl_Nodes p)) of
            Some e \<Rightarrow> Some e
          | None \<Rightarrow> plan_tail p)"

definition SelectionPlan_Validate :: "SelectionPlan \<Rightarrow> plan_error option" where
  "SelectionPlan_Validate p = plan_validate False p"

definition ValidateTrustingEncoding :: "SelectionPlan \<Rightarrow> string \<Rightarrow> plan_error option" where
  "ValidateTrustingEncoding p raw = (if Valid raw \<noteq> Some True then SelectionPlan_Validate p else plan_validate True p)"

definition ValidateTrustingWellFormedNodes :: "SelectionPlan \<Rightarrow> plan_error option" where
  "ValidateTrustingWellFormedNodes p = plan_validate True p"

section \<open>Clones\<close>

fun excess_clones :: "(string \<Rightarrow> nat) \<Rightarrow> nat \<Rightarrow> SelectionPlanNode list \<Rightarrow> nat list" where
  "excess_clones seen i [] = []"
| "excess_clones seen i (n # ns) =
     (if pn_LineUUID n = [] then excess_clones seen (i + 1) ns
      else
        let seen' = seen(pn_LineUUID n := seen (pn_LineUUID n) + 1) in
        if seen' (pn_LineUUID n) > MaxPlanClonesPerLine then i # excess_clones seen' (i + 1) ns
        else excess_clones seen' (i + 1) ns)"

definition ExcessClones :: "SelectionPlan \<Rightarrow> nat list" where
  "ExcessClones p = excess_clones (\<lambda>_. 0) 0 (elems (pl_Nodes p))"

text \<open>A node is an excess clone exactly when it names a line that at least four nodes before it name.\<close>

abbreviation clones :: "string \<Rightarrow> SelectionPlanNode list \<Rightarrow> nat" where
  "clones line ns \<equiv> length (filter (\<lambda>n. pn_LineUUID n = line) ns)"

lemma excess_clones_iff:
  "k \<in> set (excess_clones seen i ns) \<longleftrightarrow>
     i \<le> k \<and> k < i + length ns \<and> pn_LineUUID (ns ! (k - i)) \<noteq> []
     \<and> MaxPlanClonesPerLine \<le> seen (pn_LineUUID (ns ! (k - i))) + clones (pn_LineUUID (ns ! (k - i))) (take (k - i) ns)"
proof (induction ns arbitrary: seen i)
  case (Cons n ns)
  have later: "k - i = Suc (k - Suc i)" if "Suc i \<le> k" using that by simp
  show ?case
  proof (cases "Suc i \<le> k")
    case True
    then show ?thesis using Cons.IH [of _ "Suc i"] by (auto simp: later Let_def)
  next
    case False
    then show ?thesis using Cons.IH [of _ "Suc i"] by (cases "k = i") (auto simp: Let_def)
  qed
qed simp

lemma ExcessClones_iff:
  "k \<in> set (ExcessClones p) \<longleftrightarrow> k < length (elems (pl_Nodes p)) \<and> pn_LineUUID (elems (pl_Nodes p) ! k) \<noteq> []
     \<and> MaxPlanClonesPerLine \<le> clones (pn_LineUUID (elems (pl_Nodes p) ! k)) (take k (elems (pl_Nodes p)))"
  unfolding ExcessClones_def excess_clones_iff by simp

end
