(* ===== verification/Plan_Decode.thy ===== *)
theory Plan_Decode
  imports Selection_Plan
begin

text \<open>
  \<^verbatim>\<open>DecodeSelectionPlan\<close> of \<^verbatim>\<open>src/model/selection_plan.go\<close>: its fast path over \<^verbatim>\<open>strictjson.Fields\<close>, the strict
  decode behind it, and the validation that trusts what both have proved of the nodes. Neither shortcut changes
  an answer or an error. Elements decoded in parallel (\<^verbatim>\<open>eachIndex\<close>) write to places of their own, so their
  order does not show.
\<close>

section \<open>Storing slices\<close>

text \<open>
  An array is decoded element by element into what the backing array holds at each index, which is the zero
  value only beyond its end; the length becomes the number of elements, and an empty array gives a fresh slice.
\<close>

fun slice_elems :: "'a \<Rightarrow> 'a store \<Rightarrow> 'a list \<Rightarrow> nat \<Rightarrow> json list \<Rightarrow> 'a slice option" where
  "slice_elems zero st xs i [] = Some (if i = 0 then nil_slice else Slice xs i)"
| "slice_elems zero st xs i (j # js) =
     (case st (if i < length xs then xs ! i else zero) j of
        None \<Rightarrow> None
      | Some y \<Rightarrow> slice_elems zero st (if i < length xs then xs[i := y] else xs @ [y]) (i + 1) js)"

definition store_slice :: "('r \<Rightarrow> 'a slice) \<Rightarrow> ('a slice \<Rightarrow> 'r \<Rightarrow> 'r) \<Rightarrow> 'a \<Rightarrow> 'a store \<Rightarrow> 'r store" where
  "store_slice get upd zero st r j =
     (case j of
        JNull \<Rightarrow> Some (upd nil_slice r)
      | JArray _ js \<Rightarrow> map_option (\<lambda>s. upd s r) (slice_elems zero st (backing (get r)) 0 js)
      | _ \<Rightarrow> None)"

section \<open>The fields\<close>

definition zero_step :: ResponseTransformerStep where
  "zero_step = \<lparr>rs_Name = [], rs_Source = [], rs_Arguments = [], rs_Enabled = False\<rparr>"
definition zero_PlanSelection :: PlanSelection where
  "zero_PlanSelection = \<lparr>ps_CatalogueVersion = [], ps_LineUUIDs = nil_slice\<rparr>"
definition zero_BindPolicy :: BindPolicy where
  "zero_BindPolicy = \<lparr>bp_Probe = None, bp_Usage = None, bp_DDNSDial = False\<rparr>"
definition zero_PlanNode :: SelectionPlanNode where
  "zero_PlanNode = \<lparr>pn_LineUUID = [], pn_Placeholders = [], pn_Provider = False, pn_Node = []\<rparr>"
definition zero_SelectionPlan :: SelectionPlan where
  "zero_SelectionPlan = \<lparr>pl_Kind = [], pl_Nodes = nil_slice, pl_Document = [], pl_ResponseChain = nil_slice,
     pl_Selection = None, pl_Policy = None\<rparr>"

definition step_fields :: "(string \<times> ResponseTransformerStep store) list" where
  "step_fields =
     [(''name'', store_string (\<lambda>s. rs_Name_update (\<lambda>_. s))),
      (''source'', store_string (\<lambda>s. rs_Source_update (\<lambda>_. s))),
      (''arguments'', store_raw (\<lambda>s. rs_Arguments_update (\<lambda>_. s))),
      (''enabled'', store_bool (\<lambda>b. rs_Enabled_update (\<lambda>_. b)))]"

definition selection_fields :: "(string \<times> PlanSelection store) list" where
  "selection_fields =
     [(''catalogue_version'', store_string (\<lambda>s. ps_CatalogueVersion_update (\<lambda>_. s))),
      (''line_uuids'', store_slice ps_LineUUIDs (\<lambda>s. ps_LineUUIDs_update (\<lambda>_. s)) [] (store_string (\<lambda>s _. s)))]"

definition probe_fields :: "(string \<times> ProbeExclusionPolicy store) list" where
  "probe_fields = [(''consecutive_failures'', store_int (\<lambda>n. pp_ConsecutiveFailures_update (\<lambda>_. n)))]"

definition usage_fields :: "(string \<times> UsageExclusionPolicy store) list" where
  "usage_fields = [(''max_bytes_per_line'', store_int (\<lambda>n. up_MaxBytesPerLine_update (\<lambda>_. n)))]"

definition policy_fields :: "(string \<times> BindPolicy store) list" where
  "policy_fields =
     [(''probe'', store_ptr bp_Probe (\<lambda>q. bp_Probe_update (\<lambda>_. q)) \<lparr>pp_ConsecutiveFailures = 0\<rparr> (store_struct probe_fields True)),
      (''usage'', store_ptr bp_Usage (\<lambda>q. bp_Usage_update (\<lambda>_. q)) \<lparr>up_MaxBytesPerLine = 0\<rparr> (store_struct usage_fields True)),
      (''ddns_dial'', store_bool (\<lambda>b. bp_DDNSDial_update (\<lambda>_. b)))]"

definition node_fields :: "(string \<times> SelectionPlanNode store) list" where
  "node_fields =
     [(''line_uuid'', store_string (\<lambda>s. pn_LineUUID_update (\<lambda>_. s))),
      (''placeholders'', store_map pn_Placeholders (\<lambda>m. pn_Placeholders_update (\<lambda>_. m))),
      (''provider'', store_bool (\<lambda>b. pn_Provider_update (\<lambda>_. b))),
      (''node'', store_raw (\<lambda>s. pn_Node_update (\<lambda>_. s)))]"

definition store_nodes :: "SelectionPlan store" where
  "store_nodes = store_slice pl_Nodes (\<lambda>s. pl_Nodes_update (\<lambda>_. s)) zero_PlanNode (store_struct node_fields True)"
definition store_chain :: "SelectionPlan store" where
  "store_chain = store_slice pl_ResponseChain (\<lambda>s. pl_ResponseChain_update (\<lambda>_. s)) zero_step (store_struct step_fields True)"
definition store_selection :: "SelectionPlan store" where
  "store_selection = store_ptr pl_Selection (\<lambda>q. pl_Selection_update (\<lambda>_. q)) zero_PlanSelection (store_struct selection_fields True)"
definition store_policy :: "SelectionPlan store" where
  "store_policy = store_ptr pl_Policy (\<lambda>q. pl_Policy_update (\<lambda>_. q)) zero_BindPolicy (store_struct policy_fields True)"

definition plan_fields :: "(string \<times> SelectionPlan store) list" where
  "plan_fields =
     [(''kind'', store_string (\<lambda>s. pl_Kind_update (\<lambda>_. s))),
      (''nodes'', store_nodes),
      (''document'', store_string (\<lambda>s. pl_Document_update (\<lambda>_. s))),
      (''response_chain'', store_chain),
      (''selection'', store_selection),
      (''policy'', store_policy)]"

section \<open>The fast path\<close>

definition decodeStrictMember :: "'r store \<Rightarrow> 'r \<Rightarrow> string \<Rightarrow> 'r option" where
  "decodeStrictMember st r raw = Unmarshal st r raw"

definition node_member :: "SelectionPlanNode \<Rightarrow> Field \<Rightarrow> SelectionPlanNode option" where
  "node_member n f =
     (if fd_Key f = ''line_uuid'' then Unmarshal (store_string (\<lambda>s. pn_LineUUID_update (\<lambda>_. s))) n (fd_Value f)
      else if fd_Key f = ''placeholders'' then
        Unmarshal (store_map pn_Placeholders (\<lambda>m. pn_Placeholders_update (\<lambda>_. m))) n (fd_Value f)
      else if fd_Key f = ''provider'' then Unmarshal (store_bool (\<lambda>b. pn_Provider_update (\<lambda>_. b))) n (fd_Value f)
      else if fd_Key f = ''node'' then Some (n\<lparr>pn_Node := fd_Value f\<rparr>)
      else None)"

fun node_members :: "SelectionPlanNode \<Rightarrow> Field list \<Rightarrow> SelectionPlanNode option" where
  "node_members n [] = Some n"
| "node_members n (f # fs) = (case node_member n f of None \<Rightarrow> None | Some n' \<Rightarrow> node_members n' fs)"

definition decodePlanNodeFast :: "string \<Rightarrow> SelectionPlanNode \<Rightarrow> SelectionPlanNode option" where
  "decodePlanNodeFast raw node = (case Fields raw of Some (Some fs) \<Rightarrow> node_members node fs | _ \<Rightarrow> None)"

definition plan_nodes_member :: "SelectionPlan \<Rightarrow> string \<Rightarrow> SelectionPlan option" where
  "plan_nodes_member p v =
     (if v = ''null'' then Some (p\<lparr>pl_Nodes := nil_slice\<rparr>)
      else case Elements v of
        Some (Some elements) \<Rightarrow>
          map_option (\<lambda>ns. p\<lparr>pl_Nodes := slice_of ns\<rparr>) (those (map (\<lambda>e. decodePlanNodeFast e zero_PlanNode) elements))
      | _ \<Rightarrow> None)"

definition plan_member :: "SelectionPlan \<Rightarrow> Field \<Rightarrow> SelectionPlan option" where
  "plan_member p f =
     (if fd_Key f = ''kind'' then Unmarshal (store_string (\<lambda>s. pl_Kind_update (\<lambda>_. s))) p (fd_Value f)
      else if fd_Key f = ''document'' then Unmarshal (store_string (\<lambda>s. pl_Document_update (\<lambda>_. s))) p (fd_Value f)
      else if fd_Key f = ''nodes'' then plan_nodes_member p (fd_Value f)
      else if fd_Key f = ''response_chain'' then decodeStrictMember store_chain p (fd_Value f)
      else if fd_Key f = ''selection'' then decodeStrictMember store_selection p (fd_Value f)
      else if fd_Key f = ''policy'' then decodeStrictMember store_policy p (fd_Value f)
      else None)"

fun plan_members :: "SelectionPlan \<Rightarrow> Field list \<Rightarrow> SelectionPlan option" where
  "plan_members p [] = Some p"
| "plan_members p (f # fs) = (case plan_member p f of None \<Rightarrow> None | Some p' \<Rightarrow> plan_members p' fs)"

definition decodeSelectionPlanFast :: "string \<Rightarrow> SelectionPlan option" where
  "decodeSelectionPlanFast raw = (case Fields raw of Some (Some fs) \<Rightarrow> plan_members zero_SelectionPlan fs | _ \<Rightarrow> None)"

section \<open>Decoding\<close>

datatype decode_error = DecodeSize | DecodeFields | DecodeJSON | DecodeInvalid plan_error

definition decode_strictly :: "string \<Rightarrow> decode_error + SelectionPlan" where
  "decode_strictly raw =
     (if \<not> rejectDuplicateJSONFields raw then Inl DecodeFields
      else case Unmarshal (store_struct plan_fields True) zero_SelectionPlan raw of
        None \<Rightarrow> Inl DecodeJSON
      | Some p \<Rightarrow> Inr p)"

definition DecodeSelectionPlan :: "string \<Rightarrow> decode_error + SelectionPlan" where
  "DecodeSelectionPlan raw =
     (if length raw = 0 \<or> length raw > MaxSelectionPlanBytes then Inl DecodeSize
      else
        case (case decodeSelectionPlanFast raw of Some p \<Rightarrow> Inr p | None \<Rightarrow> decode_strictly raw) of
          Inl e \<Rightarrow> Inl e
        | Inr p \<Rightarrow> (case plan_validate True p of Some e \<Rightarrow> Inl (DecodeInvalid e) | None \<Rightarrow> Inr p))"

section \<open>The fast path is the strict decode\<close>

abbreviation member_reads :: "Field \<Rightarrow> string \<times> json \<Rightarrow> bool" where
  "member_reads fd kj \<equiv> fst kj = fd_Key fd \<and> raw_of (snd kj) = fd_Value fd \<and> parse_document (fd_Value fd) = Some (snd kj)"

text \<open>A loop over the members that stores each under its exact name stores what the struct's decoder stores.\<close>

lemma struct_step:
  assumes "map_of fs k = Some st" and "st r j = Some r'"
  shows "struct_members fs True r ((k, j) # ms) = struct_members fs True r' ms"
proof -
  have "k \<in> set (map fst fs)" using assms(1) by (metis domI dom_map_of_conv_image_fst image_set)
  then show ?thesis using assms by (simp add: find_field_def)
qed

lemma node_member_store:
  assumes "node_member n f = Some n'" and "member_reads f kj"
  shows "\<exists>st. map_of node_fields (fst kj) = Some st \<and> st n (snd kj) = Some n'"
  using assms by (auto simp: node_member_def node_fields_def Unmarshal_def store_raw_def split: if_splits)

lemma node_members_struct:
  assumes "list_all2 member_reads fs ms" and "node_members n fs = Some n'"
  shows "struct_members node_fields True n ms = Some n'"
  using assms
proof (induction arbitrary: n rule: list_all2_induct)
  case (Cons f fs kj ms)
  then obtain n1 where n1: "node_member n f = Some n1" "node_members n1 fs = Some n'" by (auto split: option.splits)
  obtain st where st: "map_of node_fields (fst kj) = Some st" "st n (snd kj) = Some n1" using node_member_store [OF n1(1) Cons.hyps(1)] by blast
  show ?case using struct_step [OF st] Cons.IH [OF n1(2)] by simp
qed simp

lemma node_fast_struct:
  assumes "decodePlanNodeFast e n = Some n'" and "parse_document e = Some j"
  shows "store_struct node_fields True n j = Some n'"
proof -
  obtain fs where fs: "Fields e = Some (Some fs)" "node_members n fs = Some n'"
    using assms(1) by (auto simp: decodePlanNodeFast_def split: option.splits)
  obtain w ms where ms: "parse_document e = Some (JObject w ms)" "list_all2 member_reads fs ms" by (rule Fields_parse [OF fs(1)])
  then show ?thesis using node_members_struct [OF ms(2) fs(2)] assms(2) by (simp add: store_struct_def)
qed

lemma slice_elems_fresh:
  "list_all2 (\<lambda>j y. st zero j = Some y) js ys \<Longrightarrow> xs \<noteq> [] \<or> js \<noteq> [] \<Longrightarrow>
     slice_elems zero st xs (length xs) js = Some (slice_of (xs @ ys))"
proof (induction arbitrary: xs rule: list_all2_induct)
  case (Cons j js y ys)
  then show ?case using Cons.IH [of "xs @ [y]"] by (simp add: slice_of_def)
qed (simp add: slice_of_def)

lemma nodes_member_store:
  assumes m: "plan_nodes_member p v = Some p'" and nil: "pl_Nodes p = nil_slice" and v: "parse_document v = Some j"
  shows "store_nodes p j = Some p'"
proof (cases "v = ''null''")
  case True
  then have "j = JNull" using v by (simp add: parse_document_def parse_first_def parse_fuel_def numeral_eq_Suc value_body_def
      scalar_body_def HasPrefix_def is_ws_def)
  then show ?thesis using True m by (simp add: plan_nodes_member_def store_nodes_def store_slice_def)
next
  case False
  then obtain es ns where es: "Elements v = Some (Some es)" "those (map (\<lambda>e. decodePlanNodeFast e zero_PlanNode) es) = Some ns"
      "p' = p\<lparr>pl_Nodes := slice_of ns\<rparr>"
    using m by (auto simp: plan_nodes_member_def split: option.splits)
  obtain w js where js: "parse_document v = Some (JArray w js)" "list_all2 (\<lambda>e j. raw_of j = e \<and> parse_document e = Some j) es js"
    by (rule Elements_parse [OF es(1)])
  have "list_all2 (\<lambda>e n. decodePlanNodeFast e zero_PlanNode = Some n) es ns"
    using es(2) by (induction es arbitrary: ns) (auto split: option.splits)
  then have st: "list_all2 (\<lambda>j n. store_struct node_fields True zero_PlanNode j = Some n) js ns"
    using js(2) node_fast_struct by (fastforce simp: list_all2_conv_all_nth)
  have "slice_elems zero_PlanNode (store_struct node_fields True) [] 0 js = Some (slice_of ns)"
  proof (cases "js = []")
    case True
    then show ?thesis using st by (simp add: slice_of_def)
  next
    case False
    then show ?thesis using slice_elems_fresh [where st = "store_struct node_fields True" and zero = zero_PlanNode and xs = "[]", OF st] by simp
  qed
  then show ?thesis using js(1) v nil es(3) by (simp add: store_nodes_def store_slice_def)
qed

lemma plan_member_store:
  assumes "plan_member p f = Some p'" and "member_reads f kj" and "fd_Key f = ''nodes'' \<longrightarrow> pl_Nodes p = nil_slice"
  shows "(\<exists>st. map_of plan_fields (fst kj) = Some st \<and> st p (snd kj) = Some p') \<and> (fd_Key f \<noteq> ''nodes'' \<longrightarrow> pl_Nodes p' = pl_Nodes p)"
proof (cases "fd_Key f = ''nodes''")
  case True
  then have "store_nodes p (snd kj) = Some p'" using assms nodes_member_store by (simp add: plan_member_def)
  then show ?thesis using True assms(2) by (simp add: plan_fields_def)
next
  case False
  then show ?thesis using assms(1,2)
    by (auto simp: plan_member_def plan_fields_def Unmarshal_def decodeStrictMember_def store_string_def store_chain_def store_slice_def
        store_selection_def store_policy_def store_ptr_def split: if_splits json.splits)
qed

lemma plan_members_struct:
  assumes "list_all2 member_reads fs ms" and "distinct (map fd_Key fs)" and "''nodes'' \<in> set (map fd_Key fs) \<longrightarrow> pl_Nodes p = nil_slice"
    and "plan_members p fs = Some p'"
  shows "struct_members plan_fields True p ms = Some p'"
  using assms
proof (induction arbitrary: p rule: list_all2_induct)
  case (Cons f fs kj ms)
  then obtain p1 where p1: "plan_member p f = Some p1" "plan_members p1 fs = Some p'" by (auto split: option.splits)
  have n: "fd_Key f = ''nodes'' \<longrightarrow> pl_Nodes p = nil_slice" using Cons.prems(2) by simp
  obtain st where st: "map_of plan_fields (fst kj) = Some st" "st p (snd kj) = Some p1" and k: "fd_Key f \<noteq> ''nodes'' \<longrightarrow> pl_Nodes p1 = pl_Nodes p"
    using plan_member_store [OF p1(1) Cons.hyps(1) n] by blast
  have "''nodes'' \<in> set (map fd_Key fs) \<longrightarrow> pl_Nodes p1 = nil_slice" using Cons.prems(1,2) k by auto
  then show ?case using struct_step [OF st] Cons.IH [OF _ _ p1(2)] Cons.prems(1) by simp
qed simp

lemma fast_strictly:
  assumes "decodeSelectionPlanFast raw = Some p"
  shows "decode_strictly raw = Inr p"
proof -
  obtain fs where fs: "Fields raw = Some (Some fs)" "plan_members zero_SelectionPlan fs = Some p"
    using assms by (auto simp: decodeSelectionPlanFast_def split: option.splits)
  obtain w ms where ms: "parse_document raw = Some (JObject w ms)" "distinct (map fd_Key fs)" "list_all2 member_reads fs ms"
    by (rule Fields_parse [OF fs(1)])
  obtain d where "document raw d" "json_object ws MaxDepth fs d" using Fields_grammar [of raw] fs(1) by auto
  then have "Valid raw = Some True" using object_value Valid_grammar [of raw] by auto
  then show ?thesis using plan_members_struct [OF ms(3,2) _ fs(2)] ms(1)
    by (simp add: decode_strictly_def rejectDuplicateJSONFields_def Unmarshal_def store_struct_def zero_SelectionPlan_def)
qed

section \<open>What a decoded node holds\<close>

text \<open>The bytes of a decoded node are those of a value the walk has accepted, or none.\<close>

definition node_read :: "SelectionPlanNode \<Rightarrow> bool" where
  "node_read n \<longleftrightarrow> pn_Node n = [] \<or> (\<exists>j. readable j \<and> pn_Node n = raw_of j)"

lemma struct_members_keeps:
  assumes "\<And>k st r j r'. (k, st) \<in> set fs \<Longrightarrow> I r \<Longrightarrow> Q j \<Longrightarrow> st r j = Some r' \<Longrightarrow> I r'"
    and "struct_members fs True r ms = Some r'" and "I r" and "list_all (\<lambda>kj. Q (snd kj)) ms"
  shows "I r'"
  using assms(2-4)
proof (induction ms arbitrary: r)
  case (Cons kj ms)
  obtain k j where kj: "kj = (k, j)" by fastforce
  obtain f r1 where f: "find_field (map fst fs) k = Some f" "the (map_of fs f) r j = Some r1" "struct_members fs True r1 ms = Some r'"
    using Cons.prems(1) by (auto simp: kj split: option.splits)
  have "f \<in> set (map fst fs)" using f(1) by (auto simp: find_field_def find_Some_iff split: if_splits)
  then obtain st where "map_of fs f = Some st" by (metis map_of_eq_None_iff image_set option.exhaust)
  then have "(f, st) \<in> set fs" "st r j = Some r1" using f(2) by (auto dest: map_of_SomeD)
  then have "I r1" using assms(1) Cons.prems(2,3) kj by auto
  then show ?case using Cons.IH [OF f(3)] Cons.prems(3) by simp
qed simp

lemma node_store_reads:
  assumes "store_struct node_fields True n j = Some n'" and "node_read n" and "all_sub readable j"
  shows "node_read n'"
proof (cases j)
  case (JObject w ms)
  have "node_read r'" if "(k, st) \<in> set node_fields" "node_read r" "all_sub readable i" "st r i = Some r'" for k st r i r'
  proof -
    have "pn_Node r' = pn_Node r \<or> pn_Node r' = raw_of i"
      using that(1,4) by (cases i) (auto simp: node_fields_def store_string_def store_map_def store_bool_def store_raw_def)
    then show ?thesis using that(2) all_subD [OF that(3)] unfolding node_read_def by metis
  qed
  moreover have "struct_members node_fields True n ms = Some n'" "list_all (\<lambda>kj. all_sub readable (snd kj)) ms"
    using assms(1,3) JObject by (simp_all add: store_struct_def)
  ultimately show ?thesis using assms(2) struct_members_keeps [where I = node_read and Q = "all_sub readable"] by blast
qed (use assms in \<open>simp_all add: store_struct_def\<close>)

lemma slice_elems_keeps:
  assumes "\<And>x j y. I x \<Longrightarrow> Q j \<Longrightarrow> st x j = Some y \<Longrightarrow> I y" and "I zero"
    and "slice_elems zero st xs i js = Some s" and "list_all I xs" and "list_all Q js"
  shows "list_all I (backing s)"
  using assms(3-5)
proof (induction js arbitrary: xs i)
  case (Cons j js)
  let ?x = "if i < length xs then xs ! i else zero"
  obtain y where y: "st ?x j = Some y" "slice_elems zero st (if i < length xs then xs[i := y] else xs @ [y]) (i + 1) js = Some s"
    using Cons.prems(1) by (auto split: option.splits)
  have "I ?x" using Cons.prems(2) assms(2) by (simp add: list_all_length)
  then have "I y" using assms(1) [OF _ _ y(1)] Cons.prems(3) by simp
  then have "list_all I (if i < length xs then xs[i := y] else xs @ [y])"
    using Cons.prems(2) by (auto simp: list_all_iff dest: set_update_subset_insert [THEN subsetD])
  then show ?case using Cons.IH [OF y(2)] Cons.prems(3) by simp
qed (auto split: if_splits)

definition plan_read :: "SelectionPlan \<Rightarrow> bool" where
  "plan_read p \<longleftrightarrow> list_all node_read (backing (pl_Nodes p))"

lemma store_nodes_reads:
  assumes "store_nodes p j = Some p'" and "plan_read p" and "all_sub readable j"
  shows "plan_read p'"
proof (cases j)
  case (JArray w js)
  then obtain s where s: "slice_elems zero_PlanNode (store_struct node_fields True) (backing (pl_Nodes p)) 0 js = Some s" "p' = p\<lparr>pl_Nodes := s\<rparr>"
    using assms(1) by (auto simp: store_nodes_def store_slice_def)
  have z: "node_read zero_PlanNode" by (simp add: node_read_def zero_PlanNode_def)
  have "list_all (all_sub readable) js" "list_all node_read (backing (pl_Nodes p))" using assms(2,3) JArray by (simp_all add: plan_read_def)
  from slice_elems_keeps [where Q = "all_sub readable" and I = node_read, OF node_store_reads z s(1) this(2,1)]
  have "list_all node_read (backing s)" .
  then show ?thesis by (simp add: plan_read_def s(2))
qed (use assms in \<open>auto simp: store_nodes_def store_slice_def plan_read_def\<close>)

lemma other_stores:
  "store_string (\<lambda>s. pl_Kind_update (\<lambda>_. s)) r i = Some r' \<Longrightarrow> pl_Nodes r' = pl_Nodes r"
  "store_string (\<lambda>s. pl_Document_update (\<lambda>_. s)) r i = Some r' \<Longrightarrow> pl_Nodes r' = pl_Nodes r"
  "store_chain r i = Some r' \<Longrightarrow> pl_Nodes r' = pl_Nodes r"
  "store_selection r i = Some r' \<Longrightarrow> pl_Nodes r' = pl_Nodes r"
  "store_policy r i = Some r' \<Longrightarrow> pl_Nodes r' = pl_Nodes r"
  by (auto simp: store_string_def store_chain_def store_slice_def store_selection_def store_policy_def store_ptr_def
      split: if_splits json.splits)

lemma plan_store_reads:
  assumes "store_struct plan_fields True p j = Some p'" and "plan_read p" and "all_sub readable j"
  shows "plan_read p'"
proof (cases j)
  case (JObject w ms)
  have "plan_read r'" if "(k, st) \<in> set plan_fields" "plan_read r" "all_sub readable i" "st r i = Some r'" for k st r i r'
  proof -
    have "store_nodes r i = Some r' \<or> pl_Nodes r' = pl_Nodes r"
      using that(1,4) other_stores [of r i r'] by (simp add: plan_fields_def) blast
    then show ?thesis using store_nodes_reads that(2,3) by (auto simp: plan_read_def)
  qed
  moreover have "struct_members plan_fields True p ms = Some p'" "list_all (\<lambda>kj. all_sub readable (snd kj)) ms"
    using assms(1,3) JObject by (simp_all add: store_struct_def)
  ultimately show ?thesis using assms(2) struct_members_keeps [where I = plan_read and Q = "all_sub readable"] by blast
qed (use assms in \<open>simp_all add: store_struct_def\<close>)

lemma reject_walks:
  assumes "rejectDuplicateJSONFields raw" and "parse_document raw = Some j"
  shows "walk j"
proof (cases "Valid raw = Some True")
  case True
  then obtain w where w: "document raw w" "json_value ws MaxDepth w" using Valid_grammar [of raw] by auto
  obtain j' where "parses MaxDepth w j'" using json_parse(1) [OF w(2)] by blast
  then have "parse_document raw = Some j'" "walk j'" using document_parse [OF w(1) _ MaxDepth_nested(2)] by (auto simp: parses_def)
  then show ?thesis using assms(2) by simp
next
  case False
  then obtain j' r where j': "parse_first (length raw) raw = Some (j', r)" "walk j'"
    using assms(1) by (auto simp: rejectDuplicateJSONFields_def scanJSONValue_def split: option.splits if_splits)
  obtain r' where "parse_first maxNestingDepth raw = Some (j, r')" using assms(2) by (auto simp: parse_document_def split: option.splits if_splits)
  then show ?thesis using parse_first_same [OF j'(1)] j'(2) by blast
qed

lemma decoded_nodes_read:
  assumes "decode_strictly raw = Inr p"
  shows "list_all node_read (elems (pl_Nodes p))"
proof -
  obtain j where j: "rejectDuplicateJSONFields raw" "parse_document raw = Some j" "store_struct plan_fields True zero_SelectionPlan j = Some p"
    using assms by (auto simp: decode_strictly_def Unmarshal_def split: if_splits option.splits)
  have "plan_read p"
    by (rule plan_store_reads [OF j(3) _ document_readable [OF j(2) reject_walks [OF j(1,2)]]])
      (simp add: plan_read_def zero_SelectionPlan_def)
  then show ?thesis by (cases "pl_Nodes p") (auto simp: plan_read_def list_all_iff dest: in_set_takeD)
qed

section \<open>Trusting validation\<close>

text \<open>Of such a node both validations ask the same.\<close>

lemma read_reject:
  assumes "readable j"
  shows "rejectDuplicateJSONFields (raw_of j)" and "json_Valid (raw_of j)"
proof -
  obtain j' where j': "parse_document (raw_of j) = Some j'" "walk j'" by (rule readable_document [OF assms])
  then show "json_Valid (raw_of j)" by (simp add: json_Valid_def)
  obtain r where r: "parse_first maxNestingDepth (raw_of j) = Some (j', r)" "dropWhile is_ws r = []"
    using j'(1) by (auto simp: parse_document_def split: option.splits if_splits)
  then have "scanJSONValue (raw_of j) = Some r" using parse_first_length [OF r(1)] j'(2) by (simp add: scanJSONValue_def)
  then show "rejectDuplicateJSONFields (raw_of j)" using r(2) by (simp add: rejectDuplicateJSONFields_def requireJSONEOF_def)
qed

lemma read_object: "node_read n \<Longrightarrow> isJSONObject (pn_Node n) \<longleftrightarrow> opensObject (pn_Node n)"
  using readable_trim read_reject(2) by (auto simp: node_read_def isJSONObject_def opensObject_def Let_def)

lemma read_validate:
  assumes "node_read n"
  shows "node_validate True n = node_validate False n" and "node_validate False n = None \<Longrightarrow> rejectDuplicateJSONFields (pn_Node n)"
proof -
  show "node_validate True n = node_validate False n" using read_object [OF assms] by (simp add: node_validate_def)
  assume "node_validate False n = None"
  then have "pn_Node n \<noteq> []" by (auto simp: node_validate_def isJSONObject_def split: if_splits)
  then show "rejectDuplicateJSONFields (pn_Node n)" using assms read_reject(1) by (auto simp: node_read_def)
qed

lemma trusting_nodes: "list_all node_read ns \<Longrightarrow> plan_nodes True d i ns = plan_nodes False d i ns"
proof (induction ns arbitrary: i)
  case (Cons n ns)
  then show ?case using read_validate [of n] by (auto split: option.split)
qed simp

lemma trusting_plan: "list_all node_read (elems (pl_Nodes p)) \<Longrightarrow> plan_validate True p = plan_validate False p"
  unfolding plan_validate_def by (simp only: trusting_nodes)

definition decode_reference :: "string \<Rightarrow> decode_error + SelectionPlan" where
  "decode_reference raw =
     (if length raw = 0 \<or> length raw > MaxSelectionPlanBytes then Inl DecodeSize
      else case decode_strictly raw of
        Inl e \<Rightarrow> Inl e
      | Inr p \<Rightarrow> (case SelectionPlan_Validate p of Some e \<Rightarrow> Inl (DecodeInvalid e) | None \<Rightarrow> Inr p))"

text \<open>
  C40. Decoding a plan, which reads its members in one pass and then validates it without scanning a node
  again, answers what the strict decode of the whole text followed by the full validation answers, the error
  included: so every plan it returns is one \<^verbatim>\<open>Validate\<close> accepts, every node in it an object with no repeated key.
\<close>
theorem DecodeSelectionPlan_reference: "DecodeSelectionPlan raw = decode_reference raw"
proof -
  have f: "(case decodeSelectionPlanFast raw of Some p \<Rightarrow> Inr p | None \<Rightarrow> decode_strictly raw) = decode_strictly raw"
    using fast_strictly by (auto split: option.split)
  show ?thesis unfolding DecodeSelectionPlan_def decode_reference_def f SelectionPlan_Validate_def
    using trusting_plan [OF decoded_nodes_read] by (auto split: sum.split)
qed

end
