(* ===== verification/Spec2Isabelle.thy ===== *)
theory Spec2Isabelle
  imports Beacon_Addr Responder Plugin_Host_Ops Plugin_Result Plugin_Budget Plugin_Schedule Plugin_Runtime
    Monitor_Destination Monitor_Headers Monitor_Status Plan_Decode
begin

text \<open>
  Verification of the Lattice SDK, the Go library the Lattice control plane, its agents and its
  plugins share.

  \<^bold>\<open>The program.\<close> \<^verbatim>\<open>src/beacon\<close> is the measurement beacon: one node sends another an
  authenticated UDP request and gets an authenticated reply. \<^verbatim>\<open>src/plugin\<close> is the runtime of a plugin: a
  process that reads invocations as JSON lines, runs a handler for each, lets it call the host and write
  diagnostics, and writes one result. \<^verbatim>\<open>src/strictjson\<close> is the one-pass JSON scanner the plugin package reads
  frames through. \<^verbatim>\<open>src/model\<close> holds the data the control plane exchanges, and the rules about it that
  agents and control plane must read the same way. The beacon packages stand alone; \<^verbatim>\<open>src/plugin\<close> and
  \<^verbatim>\<open>src/model\<close> call \<^verbatim>\<open>src/strictjson\<close>.

  \<^bold>\<open>Go and its library.\<close> \<^verbatim>\<open>Lattice_Prelude\<close> has the machine types (bytes are \<^verbatim>\<open>8 word\<close>; \<^verbatim>\<open>int\<close> and
  \<^verbatim>\<open>int64\<close> are \<^typ>\<open>int\<close> with \<^verbatim>\<open>wrap64\<close> written out where the code can wrap) and decimal numerals;
  \<^verbatim>\<open>Byte_Order\<close>, \<^verbatim>\<open>Go_Strings\<close>, \<^verbatim>\<open>Go_Text\<close>, \<^verbatim>\<open>Netip\<close>, \<^verbatim>\<open>Sha256\<close> have what the sources use of \<^verbatim>\<open>encoding/binary\<close>,
  \<^verbatim>\<open>strings\<close>, \<^verbatim>\<open>unicode/utf8\<close>, \<^verbatim>\<open>strconv\<close>, \<^verbatim>\<open>net/netip\<close> and \<^verbatim>\<open>crypto\<close>, executably; \<^verbatim>\<open>Go_Json\<close>,
  \<^verbatim>\<open>Go_Json_Parse\<close> and \<^verbatim>\<open>Go_Json_Encode\<close> have \<^verbatim>\<open>encoding/json\<close>: literals, documents as trees that keep their
  bytes, storing into structs, and marshalling. A Go string is the list of its bytes, as characters. Times are nanoseconds.

  \<^bold>\<open>The beacon.\<close>
  \<^item> \<^verbatim>\<open>Beacon_Addr\<close>, \<^verbatim>\<open>addr.go\<close>: \<^verbatim>\<open>ParseEndpoint\<close> accepts exactly the texts of the dial syntax whose address may be dialled.
  \<^item> \<^verbatim>\<open>Beacon_Wire\<close>, \<^verbatim>\<open>beacon.go\<close>: the layout and tags of requests and replies (round trips), and the input of
    the path key derivation (injective).
  \<^item> \<^verbatim>\<open>Nonce_Cache\<close>, \<^verbatim>\<open>NonceCache\<close> of \<^verbatim>\<open>responder.go\<close>: the open-addressing table as the list of its slots. It refines a set of
    nonces with expiry times. A probe loop of the source has no bound; here it has the number of slots as fuel and
    running out is \<^verbatim>\<open>None\<close>, and the table always holds an empty slot, so it never does.
  \<^item> \<^verbatim>\<open>Responder\<close>: \<^verbatim>\<open>SetTable\<close> and \<^verbatim>\<open>Handle\<close> as functions of the responder's state. A run is a list of
    operations; what holds of every run: no request is answered twice, replies only to authenticated requests, the
    rate of full replies, the distance of the named ones. A \<^verbatim>\<open>Handle\<close> that overlaps a \<^verbatim>\<open>SetTable\<close> uses the table
    it loaded first (\<^verbatim>\<open>handle_at\<close>).

  \<^bold>\<open>Strict JSON.\<close>
  \<^item> \<^verbatim>\<open>Strictjson_Scan\<close> is the scanner of \<^verbatim>\<open>strictjson.go\<close> (position and depth in a record, failure as \<^verbatim>\<open>None\<close>,
    fuel for the mutual recursion, of which twice the bytes left and one are enough), \<^verbatim>\<open>Strictjson_Unquote\<close> the
    string decoder of \<^verbatim>\<open>unquote.go\<close> with the equivalence to \<^verbatim>\<open>encoding/json\<close>'s.
  \<^item> \<^verbatim>\<open>Strictjson_Grammar\<close> states the grammar as an inductive specification and shows soundness;
    \<^verbatim>\<open>Strictjson_Complete\<close> shows completeness and that the scanner always returns. \<^verbatim>\<open>Strictjson_Decode\<close> is the bridge to
    the trees of \<^verbatim>\<open>Go_Json_Parse\<close>, \<^verbatim>\<open>Strictjson_Tree\<close> its converse (what the decoder reads and the token walk accepts is of
    the grammar, and so is every value inside it), \<^verbatim>\<open>Json_Roundtrip\<close> the way back from the encoder. The decoder's model has
    fuel too, twice the bytes and one, and the nesting \<^verbatim>\<open>encoding/json\<close> allows, 10000; a text's length is always nesting enough.

  \<^bold>\<open>The plugin.\<close>
  \<^item> \<^verbatim>\<open>Plugin_Frame\<close>, \<^verbatim>\<open>frame_fast.go\<close>: each fast decoder answers what the \<^verbatim>\<open>encoding/json\<close> path behind it answers.
  \<^item> \<^verbatim>\<open>Plugin_Host\<close>, the calls of \<^verbatim>\<open>host.go\<close>: \<^verbatim>\<open>Call\<close> on the state of client and transport; what the world does
    during one call is the record \<^verbatim>\<open>call_env\<close>. The step relation \<^verbatim>\<open>host_step\<close> interleaves the calls of several leases
    on one transport. \<^verbatim>\<open>Plugin_Host_Ops\<close>: the operations over \<^verbatim>\<open>Call\<close>.
  \<^item> \<^verbatim>\<open>Plugin_Result\<close>, \<^verbatim>\<open>Plugin_Runtime\<close>, \<^verbatim>\<open>runtime.go\<close>: responses and their frame, \<^verbatim>\<open>V2Session\<close>, and the loops \<^verbatim>\<open>ServeV2\<close> and \<^verbatim>\<open>Serve\<close>
    over the lines of the input. A handler is the list of what it does (calls, writes, the result), with writes
    that come after its lease has ended. A session serves at most 256 invocations, as the source has it.
  \<^item> \<^verbatim>\<open>Plugin_Budget\<close>, \<^verbatim>\<open>budget.go\<close>, and \<^verbatim>\<open>Plugin_Schedule\<close>, \<^verbatim>\<open>task_schedule.go\<close>: invocation budgets and cron schedules.

  \<^bold>\<open>The model package.\<close>
  \<^item> \<^verbatim>\<open>Monitor_Status\<close>, \<^verbatim>\<open>Monitor_Headers\<close>, \<^verbatim>\<open>Monitor_Destination\<close>, \<^verbatim>\<open>monitor_checks.go\<close>: probe methods and status sets, the headers of a check,
    the destinations an agent refuses.
  \<^item> \<^verbatim>\<open>Plan_Placeholder\<close>, \<^verbatim>\<open>Selection_Plan\<close>, \<^verbatim>\<open>Plan_Decode\<close>, \<^verbatim>\<open>selection_plan.go\<close>, with what it calls in \<^verbatim>\<open>subscription_methods.go\<close>,
    \<^verbatim>\<open>subscription_source_manifest.go\<close> and \<^verbatim>\<open>line_catalogue.go\<close>: the placeholders a plan carries for credentials (the
    source's regular expressions kept as data) and the count of them in a document; the validations of a plan and its
    excess clones; and the decoder, whose one pass and trusting validation are shown to answer what the strict decode
    and the full validation answer.

  \<^bold>\<open>Interfaces.\<close> \<^verbatim>\<open>nonce_store\<close> is what the responder relies on of the replay cache, \<^verbatim>\<open>source_mark\<close> what every
  responder operation keeps of a per-source mark (a held nonce, the time of the last named reply), and
  \<^verbatim>\<open>host_operation\<close> what every operation over \<^verbatim>\<open>Call\<close> shares. Each is interpreted on the definitions that provide it,
  and its lemmas are proved once, inside it.

  \<^bold>\<open>Not modelled.\<close> Allocation, the pools and the reuse of slices. Concurrency finer than one call, one \<^verbatim>\<open>Handle\<close> or one
  \<^verbatim>\<open>SetTable\<close>: the code serialises these with a mutex, a channel of one token or an atomic pointer; and \<^verbatim>\<open>eachIndex\<close>
  (\<^verbatim>\<open>parallel.go\<close>), whose callers write to places of their own. The package-level \<^verbatim>\<open>Serve\<close> and \<^verbatim>\<open>Close\<close> of the plugin
  runtime, which open and close file descriptors. \<^verbatim>\<open>MonitorOrigin\<close>, which rests on \<^verbatim>\<open>net/url\<close>. \<^verbatim>\<open>EncodeSelectionPlan\<close>,
  which rests on the reflection of \<^verbatim>\<open>json.Marshal\<close> over a whole plan, and for the same reason the line catalogue's cached pages.
  The rest of \<^verbatim>\<open>src/model\<close> (\<^verbatim>\<open>model.go\<close>, \<^verbatim>\<open>beacon.go\<close>, \<^verbatim>\<open>paths.go\<close>, \<^verbatim>\<open>trace.go\<close>, \<^verbatim>\<open>latency.go\<close>, \<^verbatim>\<open>check_definitions.go\<close>,
  \<^verbatim>\<open>monitor_dns.go\<close>, the agent, selector and other subscription files) and \<^verbatim>\<open>src/plugin/manifest.go\<close> declare records with
  validations of their fields, each on its own; \<^verbatim>\<open>src/proto\<close> is interface descriptions.
\<close>

end
